(* ===== verification/RRR_Prelude.thy ===== *)
theory RRR_Prelude
  imports Main "HOL-Library.Word"
begin

text \<open>
  What every component of the development shares:
  \<^item> \<open>res\<close>: the outcome of a C call. \<open>Inr\<close> is a normal return; \<open>Inl\<close> says why the process
    stopped: a call of \<^verbatim>\<open>RRR_BUG\<close> (\<open>Bug\<close>), a failed \<^verbatim>\<open>assert\<close> (\<open>Assertion\<close>), a read or a write
    through a pointer that is NULL, dangling or out of range (\<open>Bad_Access\<close>), signed
    overflow (\<open>Overflow\<close>), or a loop that used up its fuel (\<open>Diverge\<close>).
    Return codes (0, 1, \<open>RRR_READ_SOFT_ERROR\<close>, ...) are ordinary values, not \<open>Inl\<close>.
  \<^item> pointers, heaps, and the three accesses \<open>load\<close>, \<open>modify\<close>, \<open>release\<close>;
  \<^item> the machine types, and the bit lemmas used by the bitmaps;
  \<^item> the interfaces that several components implement: \<open>inv_system\<close> (a step relation with
    an invariant), \<open>seq_container\<close> (a sequence with append and shift), \<open>codec\<close> (an encoder
    with its decoder).
\<close>

subsection \<open>Outcomes\<close>

datatype c_fault = Bug | Assertion | Bad_Access | Overflow | Diverge

type_synonym 'a res = "c_fault + 'a"

definition bindr :: "'a res \<Rightarrow> ('a \<Rightarrow> 'b res) \<Rightarrow> 'b res" where
  "bindr m f = (case m of Inl e \<Rightarrow> Inl e | Inr x \<Rightarrow> f x)"

definition bug_if :: "bool \<Rightarrow> 'a res \<Rightarrow> 'a res" where
  "bug_if c m = (if c then Inl Bug else m)"

definition assertr :: "bool \<Rightarrow> 'a res \<Rightarrow> 'a res" where
  "assertr c m = (if c then m else Inl Assertion)"

lemma bindr_Inl [simp]: "bindr (Inl e) f = Inl e"
  by (simp add: bindr_def)

lemma bindr_Inr [simp]: "bindr (Inr x) f = f x"
  by (simp add: bindr_def)

lemma bindr_eq_Inr: "bindr m f = Inr y \<longleftrightarrow> (\<exists>x. m = Inr x \<and> f x = Inr y)"
  by (cases m) auto

lemma bindr_assoc: "bindr (bindr m f) g = bindr m (\<lambda>x. bindr (f x) g)"
  by (cases m) auto

lemma bindr_cong [fundef_cong]:
  "m = m' \<Longrightarrow> (\<And>x. m' = Inr x \<Longrightarrow> f x = g x) \<Longrightarrow> bindr m f = bindr m' g"
  by (cases m') auto

lemma bug_if_False [simp]: "bug_if False m = m"
  and bug_if_True [simp]: "bug_if True m = Inl Bug"
  by (simp_all add: bug_if_def)

lemma assertr_True [simp]: "assertr True m = m"
  and assertr_False [simp]: "assertr False m = Inl Assertion"
  by (simp_all add: assertr_def)

lemma bug_if_eq_Inr [simp]: "bug_if c m = Inr y \<longleftrightarrow> \<not> c \<and> m = Inr y"
  by (simp add: bug_if_def)

lemma assertr_eq_Inr [simp]: "assertr c m = Inr y \<longleftrightarrow> c \<and> m = Inr y"
  by (simp add: assertr_def)

subsection \<open>Pointers and heaps\<close>

type_synonym addr = nat

type_synonym ptr = "addr option"

abbreviation NULL :: ptr where "NULL \<equiv> None"

type_synonym 'n heap = "addr \<rightharpoonup> 'n"

definition load :: "'n heap \<Rightarrow> ptr \<Rightarrow> 'n res" where
  "load h p = (case p of None \<Rightarrow> Inl Bad_Access
     | Some a \<Rightarrow> (case h a of None \<Rightarrow> Inl Bad_Access | Some n \<Rightarrow> Inr n))"

definition modify :: "'n heap \<Rightarrow> ptr \<Rightarrow> ('n \<Rightarrow> 'n) \<Rightarrow> 'n heap res" where
  "modify h p f = (case p of None \<Rightarrow> Inl Bad_Access
     | Some a \<Rightarrow> (case h a of None \<Rightarrow> Inl Bad_Access | Some n \<Rightarrow> Inr (h(a \<mapsto> f n))))"

definition release :: "'n heap \<Rightarrow> ptr \<Rightarrow> 'n heap res" where
  "release h p = (case p of None \<Rightarrow> Inr h
     | Some a \<Rightarrow> (case h a of None \<Rightarrow> Inl Bad_Access | Some n \<Rightarrow> Inr (h(a := None))))"

lemma load_NULL [simp]: "load h None = Inl Bad_Access"
  by (simp add: load_def)

lemma load_Some [simp]: "h a = Some n \<Longrightarrow> load h (Some a) = Inr n"
  by (simp add: load_def)

lemma modify_NULL [simp]: "modify h None f = Inl Bad_Access"
  by (simp add: modify_def)

lemma modify_Some [simp]: "h a = Some n \<Longrightarrow> modify h (Some a) f = Inr (h(a \<mapsto> f n))"
  by (simp add: modify_def)

lemma release_NULL [simp]: "release h None = Inr h"
  by (simp add: release_def)

lemma release_Some [simp]: "h a = Some n \<Longrightarrow> release h (Some a) = Inr (h(a := None))"
  by (simp add: release_def)

subsection \<open>Machine integers\<close>

type_synonym u8 = "8 word"
type_synonym u16 = "16 word"
type_synonym u32 = "32 word"
type_synonym u64 = "64 word"
type_synonym c_int = "32 word" \<comment> \<open>a C int used as a set of flags or as a return code\<close>

unbundle bit_operations_syntax

lemma unat_bound: "unat (a :: 'a::len word) < 2 ^ LENGTH('a)"
  by (rule unsigned_less)

definition has_flag :: "c_int \<Rightarrow> c_int \<Rightarrow> bool" where
  "has_flag x f \<longleftrightarrow> x AND f \<noteq> 0"

lemma has_flag_0 [simp]: "\<not> has_flag 0 f"
  by (simp add: has_flag_def)

text \<open>Incrementing and decrementing a C \<^verbatim>\<open>int\<close> that counts: overflow is undefined behaviour.\<close>

definition INT_MAX :: int where "INT_MAX = 2147483647"

definition int_inc :: "int \<Rightarrow> int res" where
  "int_inc i = (if i = INT_MAX then Inl Overflow else Inr (i + 1))"

definition int_add :: "int \<Rightarrow> int \<Rightarrow> int res" where
  "int_add i k = (if i + k > INT_MAX \<or> i + k < - INT_MAX - 1 then Inl Overflow else Inr (i + k))"

lemma int_inc_ok [simp]: "i < INT_MAX \<Longrightarrow> int_inc i = Inr (i + 1)"
  by (simp add: int_inc_def)

lemma int_add_ok [simp]: "0 \<le> i \<Longrightarrow> 0 \<le> k \<Longrightarrow> i + k \<le> INT_MAX \<Longrightarrow> int_add i k = Inr (i + k)"
  by (simp add: int_add_def INT_MAX_def)

subsection \<open>Interfaces\<close>

text \<open>A step relation whose steps keep an invariant.\<close>

locale inv_system =
  fixes start :: "'s \<Rightarrow> bool" and step :: "'s \<Rightarrow> 's \<Rightarrow> bool" and inv :: "'s \<Rightarrow> bool"
  assumes inv_start: "start s \<Longrightarrow> inv s"
    and inv_step: "inv s \<Longrightarrow> step s t \<Longrightarrow> inv t"
begin

lemma inv_reachable: "step\<^sup>*\<^sup>* s t \<Longrightarrow> start s \<Longrightarrow> inv t"
  by (induction rule: rtranclp_induct) (auto intro: inv_start inv_step)

end

text \<open>An encoder with its decoder: what is decoded is what was encoded.\<close>

locale codec =
  fixes encodable :: "'a \<Rightarrow> bool" and encode :: "'a \<Rightarrow> 'b" and decode :: "'b \<Rightarrow> 'a option"
  assumes decode_encode: "encodable x \<Longrightarrow> decode (encode x) = Some x"
begin

lemma encode_inj: "encodable x \<Longrightarrow> encodable y \<Longrightarrow> encode x = encode y \<Longrightarrow> x = y"
  by (metis decode_encode option.inject)

end

text \<open>
  A sequence: \<open>rep c xs\<close> says that the container \<open>c\<close> holds \<open>xs\<close>; \<open>room c ys\<close> says that the elements
  \<open>ys\<close> can be appended, one after the other.
\<close>

primrec append_all :: "('c \<Rightarrow> 'a \<Rightarrow> 'c res) \<Rightarrow> 'c \<Rightarrow> 'a list \<Rightarrow> 'c res" where
  "append_all app c [] = Inr c"
| "append_all app c (x # xs) = bindr (app c x) (\<lambda>c. append_all app c xs)"

primrec shift_many :: "('c \<Rightarrow> ('a option \<times> 'c) res) \<Rightarrow> nat \<Rightarrow> 'c \<Rightarrow> ('a option list \<times> 'c) res" where
  "shift_many sh 0 c = Inr ([], c)"
| "shift_many sh (Suc n) c =
     bindr (sh c) (\<lambda>(x, c). bindr (shift_many sh n c) (\<lambda>(xs, c). Inr (x # xs, c)))"

locale seq_container =
  fixes rep :: "'c \<Rightarrow> 'a list \<Rightarrow> bool" and room :: "'c \<Rightarrow> 'a list \<Rightarrow> bool"
    and append :: "'c \<Rightarrow> 'a \<Rightarrow> 'c res" and shift :: "'c \<Rightarrow> ('a option \<times> 'c) res"
  assumes append_rep: "rep c xs \<Longrightarrow> room c (y # ys) \<Longrightarrow>
        \<exists>c'. append c y = Inr c' \<and> rep c' (xs @ [y]) \<and> room c' ys"
    and shift_rep: "rep c xs \<Longrightarrow>
        \<exists>c'. shift c = Inr (case xs of [] \<Rightarrow> None | x # _ \<Rightarrow> Some x, c') \<and> rep c' (tl xs)"
begin

lemma append_all_rep:
  "rep c xs \<Longrightarrow> room c ys \<Longrightarrow> \<exists>c'. append_all append c ys = Inr c' \<and> rep c' (xs @ ys)"
proof (induction ys arbitrary: c xs)
  case (Cons y ys)
  from append_rep [OF Cons.prems] obtain c' where
    "append c y = Inr c'" "rep c' (xs @ [y])" "room c' ys" by blast
  with Cons.IH [of c' "xs @ [y]"] show ?case by auto
qed auto

lemma shift_many_rep:
  "rep c (xs @ zs) \<Longrightarrow> \<exists>c'. shift_many shift (length xs) c = Inr (map Some xs, c') \<and> rep c' zs"
proof (induction xs arbitrary: c)
  case (Cons x xs)
  from shift_rep [OF Cons.prems] obtain c' where "shift c = Inr (Some x, c')" "rep c' (xs @ zs)"
    by auto
  with Cons.IH [of c'] show ?case by auto
qed auto

text \<open>First in, first out.\<close>

lemma fifo_order:
  assumes "rep c xs" "room c ys"
  shows "\<exists>c' c''. append_all append c ys = Inr c' \<and>
           shift_many shift (length xs + length ys) c' = Inr (map Some (xs @ ys), c'') \<and> rep c'' []"
proof -
  from append_all_rep [OF assms] obtain c' where "append_all append c ys = Inr c'" "rep c' (xs @ ys)"
    by blast
  with shift_many_rep [of c' "xs @ ys" "[]"] show ?thesis by auto
qed

end

end
