(* ===== verification/RRR_Types.thy ===== *)
theory RRR_Types
  imports RRR_Prelude
begin

text \<open>
  The checked arithmetic of \<^verbatim>\<open>src/lib/rrr_types.h\<close>: \<open>rrr_length\<close> (32 bit, unsigned),
  \<open>rrr_biglength\<close> (64 bit, unsigned) and \<open>rrr_slength\<close> (64 bit, signed; here an \<open>int\<close> whose
  range is checked where the C code computes with it). A function that takes a pointer
  \<open>a\<close> and stores into it returns the stored value; one with an \<open>int\<close> result returns the
  code and the value left in the target. \<^verbatim>\<open>size_t\<close> has 64 bits, which selects the
  \<^verbatim>\<open>#else\<close> branch of the size conversions.
\<close>

type_synonym rrr_length = u32
type_synonym rrr_biglength = u64
type_synonym rrr_slength = int

definition RRR_LENGTH_MAX :: nat where "RRR_LENGTH_MAX = 0xffffffff"

definition SLENGTH_MAX :: int where "SLENGTH_MAX = 0x7fffffffffffffff"

subsection \<open>Conversions\<close>

definition rrr_int_from_slength_bug_const :: "rrr_slength \<Rightarrow> int res" where
  "rrr_int_from_slength_bug_const operand =
     bug_if (operand < - INT_MAX - 1 \<or> operand > INT_MAX) (Inr operand)"

definition rrr_int_from_biglength_err :: "int \<Rightarrow> rrr_biglength \<Rightarrow> c_int \<times> int" where
  "rrr_int_from_biglength_err target operand =
     (if uint operand > INT_MAX then (1, target) else (0, uint operand))"

definition rrr_int_from_biglength_bug_const :: "rrr_biglength \<Rightarrow> int res" where
  "rrr_int_from_biglength_bug_const operand =
     bug_if (uint operand > INT_MAX) (Inr (uint operand))"

definition rrr_int_from_length_err :: "int \<Rightarrow> rrr_length \<Rightarrow> c_int \<times> int" where
  "rrr_int_from_length_err target operand = rrr_int_from_biglength_err target (ucast operand)"

definition rrr_length_from_slength_sub_err ::
    "rrr_length \<Rightarrow> rrr_slength \<Rightarrow> rrr_slength \<Rightarrow> (c_int \<times> rrr_length) res" where
  "rrr_length_from_slength_sub_err result a b =
     (if b > a then Inr (1, result)
      else if a - b > SLENGTH_MAX then Inl Overflow
      else if a - b > int RRR_LENGTH_MAX then Inr (1, result)
      else Inr (0, word_of_int (a - b)))"

definition rrr_length_from_slength_sub_bug_const ::
    "rrr_slength \<Rightarrow> rrr_slength \<Rightarrow> rrr_length res" where
  "rrr_length_from_slength_sub_bug_const a b =
     bug_if (b > a)
       (if a - b > SLENGTH_MAX then Inl Overflow
        else bug_if (a - b > int RRR_LENGTH_MAX) (Inr (word_of_int (a - b))))"

definition rrr_length_from_biglength_sub_bug_const ::
    "rrr_biglength \<Rightarrow> rrr_biglength \<Rightarrow> rrr_length res" where
  "rrr_length_from_biglength_sub_bug_const a b =
     bug_if (b > a) (bug_if (unat (a - b) > RRR_LENGTH_MAX) (Inr (ucast (a - b))))"

definition rrr_length_from_slength_err ::
    "rrr_length \<Rightarrow> rrr_slength \<Rightarrow> (c_int \<times> rrr_length) res" where
  "rrr_length_from_slength_err result a = rrr_length_from_slength_sub_err result a 0"

definition rrr_length_from_slength_bug_const :: "rrr_slength \<Rightarrow> rrr_length res" where
  "rrr_length_from_slength_bug_const a =
     bug_if (a > int RRR_LENGTH_MAX) (bug_if (a < 0) (Inr (word_of_int a)))"

definition rrr_length_from_ssize_bug_const :: "int \<Rightarrow> rrr_length res" where
  "rrr_length_from_ssize_bug_const a =
     bug_if (a > int RRR_LENGTH_MAX) (bug_if (a < 0) (Inr (word_of_int a)))"

definition rrr_u16_from_biglength_bug_const :: "rrr_biglength \<Rightarrow> u16 res" where
  "rrr_u16_from_biglength_bug_const a = bug_if (a > 0xffff) (Inr (ucast a))"

definition rrr_u16_from_slength_bug_const :: "rrr_slength \<Rightarrow> u16 res" where
  "rrr_u16_from_slength_bug_const a = bug_if (a < 0 \<or> a > 0xffff) (Inr (word_of_int a))"

text \<open>Pointers are addresses (64 bit) here; the difference is taken on \<open>uintptr_t\<close>.\<close>

definition rrr_length_from_ptr_sub_err ::
    "rrr_length \<Rightarrow> u64 \<Rightarrow> u64 \<Rightarrow> c_int \<times> rrr_length" where
  "rrr_length_from_ptr_sub_err r a b =
     (if b > a then (1, r)
      else if unat (a - b) > RRR_LENGTH_MAX then (1, r)
      else (0, ucast (a - b)))"

definition rrr_length_from_ptr_sub_bug_const :: "u64 \<Rightarrow> u64 \<Rightarrow> rrr_length res" where
  "rrr_length_from_ptr_sub_bug_const a b =
     bug_if (b > a) (bug_if (unat (a - b) > RRR_LENGTH_MAX) (Inr (ucast (a - b))))"

definition rrr_biglength_from_ptr_sub_bug_const :: "u64 \<Rightarrow> u64 \<Rightarrow> rrr_biglength res" where
  "rrr_biglength_from_ptr_sub_bug_const a b =
     bug_if (b > a) (Inr (ucast (ucast (a - b) :: rrr_length)))"

definition rrr_length_from_biglength_err ::
    "rrr_length \<Rightarrow> rrr_biglength \<Rightarrow> c_int \<times> rrr_length" where
  "rrr_length_from_biglength_err r a =
     (if unat a > RRR_LENGTH_MAX then (1, r) else (0, ucast a))"

definition rrr_length_from_biglength_bug_const :: "rrr_biglength \<Rightarrow> rrr_length res" where
  "rrr_length_from_biglength_bug_const a =
     (let (c, tmp) = rrr_length_from_biglength_err 0 a in bug_if (c \<noteq> 0) (Inr tmp))"

definition rrr_length_from_size_t_err :: "rrr_length \<Rightarrow> u64 \<Rightarrow> c_int \<times> rrr_length" where
  "rrr_length_from_size_t_err r a =
     (if unat a > RRR_LENGTH_MAX then (1, r) else (0, ucast a))"

definition rrr_length_from_size_t_bug_const :: "u64 \<Rightarrow> rrr_length res" where
  "rrr_length_from_size_t_bug_const a =
     (let (c, tmp) = rrr_length_from_size_t_err 0 a in bug_if (c \<noteq> 0) (Inr tmp))"

subsection \<open>Arithmetic\<close>

definition rrr_types_checked_length_counter_add ::
    "rrr_slength \<Rightarrow> rrr_biglength \<Rightarrow> rrr_slength res" where
  "rrr_types_checked_length_counter_add target operand =
     (let t = target + sint operand in
      if t > SLENGTH_MAX \<or> t < - SLENGTH_MAX - 1 then Inl Overflow
      else bug_if (t < 0 \<or> t > int RRR_LENGTH_MAX \<or> unat operand > RRR_LENGTH_MAX) (Inr t))"

definition rrr_types_checked_length_counter_sub ::
    "rrr_slength \<Rightarrow> rrr_biglength \<Rightarrow> rrr_slength res" where
  "rrr_types_checked_length_counter_sub target operand =
     (let t = target - sint operand in
      if t > SLENGTH_MAX \<or> t < - SLENGTH_MAX - 1 then Inl Overflow
      else bug_if (t < 0 \<or> unat operand > RRR_LENGTH_MAX) (Inr t))"

definition rrr_length_sub_bug :: "rrr_length \<Rightarrow> rrr_length \<Rightarrow> rrr_length res" where
  "rrr_length_sub_bug a b = (let r = a - b in bug_if (r > a) (Inr r))"

definition rrr_length_sub_bug_const :: "rrr_length \<Rightarrow> rrr_length \<Rightarrow> rrr_length res" where
  "rrr_length_sub_bug_const a b = (let r = a - b in bug_if (r > a) (Inr r))"

definition rrr_length_add_bug_const :: "rrr_length \<Rightarrow> rrr_length \<Rightarrow> rrr_length res" where
  "rrr_length_add_bug_const a b = (let r = a + b in bug_if (r < a \<or> r < b) (Inr r))"

definition rrr_length_add_err :: "rrr_length \<Rightarrow> rrr_length \<Rightarrow> c_int \<times> rrr_length" where
  "rrr_length_add_err a b = (let r = a + b in if r < a then (1, a) else (0, r))"

definition rrr_biglength_sub_bug :: "rrr_biglength \<Rightarrow> rrr_biglength \<Rightarrow> rrr_biglength res" where
  "rrr_biglength_sub_bug a b = (let r = a - b in bug_if (r > a) (Inr r))"

definition rrr_length_add_bug :: "rrr_length \<Rightarrow> rrr_length \<Rightarrow> rrr_length res" where
  "rrr_length_add_bug a b = (let (c, r) = rrr_length_add_err a b in bug_if (c \<noteq> 0) (Inr r))"

definition rrr_biglength_add_err ::
    "rrr_biglength \<Rightarrow> rrr_biglength \<Rightarrow> c_int \<times> rrr_biglength" where
  "rrr_biglength_add_err a b = (let r = a + b in if r < a then (1, a) else (0, r))"

definition rrr_biglength_add_bug :: "rrr_biglength \<Rightarrow> rrr_biglength \<Rightarrow> rrr_biglength res" where
  "rrr_biglength_add_bug a b =
     (let (c, r) = rrr_biglength_add_err a b in bug_if (c \<noteq> 0) (Inr r))"

text \<open>The increment is stored even when it wraps to 0.\<close>

definition rrr_length_inc_err :: "rrr_length \<Rightarrow> c_int \<times> rrr_length" where
  "rrr_length_inc_err a = (let r = a + 1 in if r = 0 then (1, r) else (0, r))"

definition rrr_length_mul_bug :: "rrr_length \<Rightarrow> rrr_length \<Rightarrow> rrr_length res" where
  "rrr_length_mul_bug a b =
     (let r = (ucast a :: u64) * ucast b in
      bug_if (unat r > RRR_LENGTH_MAX) (Inr (ucast r)))"

definition rrr_biglength_mul_err ::
    "rrr_biglength \<Rightarrow> rrr_biglength \<Rightarrow> c_int \<times> rrr_biglength" where
  "rrr_biglength_mul_err a b =
     (let r = a * b in if a \<noteq> 0 \<and> r div a \<noteq> b then (1, a) else (0, r))"

definition rrr_biglength_from_ssize_sub_bug :: "rrr_biglength \<Rightarrow> int \<Rightarrow> rrr_biglength res" where
  "rrr_biglength_from_ssize_sub_bug a b =
     bug_if (b < 0 \<or> word_of_int b > a) (Inr (a - word_of_int b))"

definition rrr_biglength_sub_bug_const ::
    "rrr_biglength \<Rightarrow> rrr_biglength \<Rightarrow> rrr_biglength res" where
  "rrr_biglength_sub_bug_const a b = bug_if (b > a) (Inr (a - b))"

text \<open>\<open>rrr_length_dec_bug\<close> checks for 0 and then leaves its target as it is.\<close>

definition rrr_length_dec_bug :: "rrr_length \<Rightarrow> rrr_length res" where
  "rrr_length_dec_bug a = bug_if (a = 0) (Inr a)"

definition rrr_length_dec_bug_const :: "rrr_length \<Rightarrow> rrr_length res" where
  "rrr_length_dec_bug_const a = rrr_length_dec_bug a"

definition rrr_length_inc_bug :: "rrr_length \<Rightarrow> rrr_length res" where
  "rrr_length_inc_bug a = (let r = a + 1 in bug_if (r = 0) (Inr r))"

definition rrr_biglength_inc_bug :: "rrr_biglength \<Rightarrow> rrr_biglength res" where
  "rrr_biglength_inc_bug a = (let r = a + 1 in bug_if (r = 0) (Inr r))"

definition rrr_size_t_inc_bug :: "u64 \<Rightarrow> u64 res" where
  "rrr_size_t_inc_bug a = (let r = a + 1 in bug_if (r = 0) (Inr r))"

definition rrr_length_inc_bug_const :: "rrr_length \<Rightarrow> rrr_length res" where
  "rrr_length_inc_bug_const a = rrr_length_inc_bug a"

definition rrr_size_t_inc_bug_const :: "u64 \<Rightarrow> u64 res" where
  "rrr_size_t_inc_bug_const a = rrr_size_t_inc_bug a"

text \<open>Both return the result and the new target.\<close>

definition rrr_length_inc_bug_new_value :: "rrr_length \<Rightarrow> (rrr_length \<times> rrr_length) res" where
  "rrr_length_inc_bug_new_value a = bindr (rrr_length_inc_bug a) (\<lambda>r. Inr (r, r))"

definition rrr_length_inc_bug_old_value :: "rrr_length \<Rightarrow> (rrr_length \<times> rrr_length) res" where
  "rrr_length_inc_bug_old_value a = bindr (rrr_length_inc_bug a) (\<lambda>r. Inr (r - 1, r))"

subsection \<open>Exactness of the checks\<close>

text \<open>The two overflow tests of the header, for any width.\<close>

lemma sub_wraps_iff: "a - b > a \<longleftrightarrow> a < (b :: 'a::len word)"
  by (metis not_le word_sub_le_iff)

lemma add_wraps_iff:
  "a + b < (a :: 'a::len word) \<longleftrightarrow> 2 ^ LENGTH('a) \<le> unat a + unat b"
  by (metis no_olen_add_nat not_le)

lemma mul_wraps_iff:
  fixes a b :: "'a::len word"
  assumes "a \<noteq> 0"
  shows "a * b div a \<noteq> b \<longleftrightarrow> 2 ^ LENGTH('a) \<le> unat a * unat b"
proof -
  have "a * b div a = b \<longleftrightarrow> unat (a * b) div unat a = unat b"
    by (simp add: word_unat_eq_iff unat_div)
  also have "\<dots> \<longleftrightarrow> unat a * unat b < 2 ^ LENGTH('a)"
  proof
    assume "unat (a * b) div unat a = unat b"
    then have "unat a * unat b \<le> unat (a * b)"
      by (metis times_div_less_eq_dividend)
    then show "unat a * unat b < 2 ^ LENGTH('a)"
      using unat_bound [of "a * b"] by (rule le_less_trans)
  next
    assume "unat a * unat b < 2 ^ LENGTH('a)"
    then have "unat (a * b) = unat a * unat b"
      by (simp add: unat_word_ariths)
    then show "unat (a * b) div unat a = unat b"
      using assms by (simp add: unat_eq_0)
  qed
  finally show ?thesis by (simp add: not_less)
qed

lemma inc_wraps_iff: "a + 1 = 0 \<longleftrightarrow> Suc (unat a) = 2 ^ LENGTH('a)" for a :: "'a::len word"
proof -
  have "a + 1 = 0 \<longleftrightarrow> Suc (unat a) mod 2 ^ LENGTH('a) = 0"
    by (simp add: word_unat_eq_iff unat_word_ariths)
  moreover have "Suc (unat a) \<le> 2 ^ LENGTH('a)"
    by (rule Suc_leI) (rule unat_bound)
  ultimately show ?thesis by (auto simp: le_less)
qed

lemma of_nat_unat_sub: "b \<le> a \<Longrightarrow> a - b = of_nat (unat a - unat b)" for a b :: "'a::len word"
  by (simp add: word_le_nat_alt)

lemma of_nat_unat_mult: "of_nat (unat a * unat b) = (a * b :: 'a::len word)"
  by simp

lemma word_greater_32: "unat (x :: u64) > RRR_LENGTH_MAX \<longleftrightarrow> 2 ^ 32 \<le> unat x"
  by (auto simp: RRR_LENGTH_MAX_def)

lemma unat_ucast_length [simp]: "unat (ucast (a :: rrr_length) :: u64) = unat a"
  using unat_bound [of a]
  by (simp add: unsigned_ucast_eq take_bit_nat_eq_self_iff)

lemma unat_length_product: "unat ((ucast a :: u64) * ucast b) = unat a * unat b" for a b :: rrr_length
proof -
  have "unat a * unat b < 2 ^ 32 * 2 ^ 32"
    using unat_bound [of a] unat_bound [of b] by (intro mult_strict_mono) auto
  then show ?thesis by (simp add: unat_word_ariths)
qed

lemma rrr_length_sub_bug_eq:
  "rrr_length_sub_bug a b =
     (if unat b \<le> unat a then Inr (of_nat (unat a - unat b)) else Inl Bug)"
proof -
  have "a < b \<longleftrightarrow> \<not> unat b \<le> unat a"
    by (simp add: word_less_nat_alt not_le)
  then show ?thesis
    by (simp add: rrr_length_sub_bug_def Let_def sub_wraps_iff bug_if_def)
qed

lemma rrr_length_sub_bug_nat:
  "unat c = n \<Longrightarrow> k \<le> n \<Longrightarrow> \<exists>r. rrr_length_sub_bug c (of_nat k) = Inr r \<and> unat r = n - k"
  by (auto simp: rrr_length_sub_bug_eq le_unat_uoi unat_sub_if')

lemma rrr_length_add_err_eq:
  "rrr_length_add_err a b =
     (if unat a + unat b < 2 ^ 32 then (0, of_nat (unat a + unat b)) else (1, a))"
  by (simp add: rrr_length_add_err_def Let_def add_wraps_iff)

lemma rrr_length_add_bug_const_eq:
  "rrr_length_add_bug_const a b =
     (if unat a + unat b < 2 ^ 32 then Inr (of_nat (unat a + unat b)) else Inl Bug)"
proof -
  have "a + b < b \<longleftrightarrow> a + b < a"
    by (metis add.commute add_wraps_iff)
  then show ?thesis
    by (simp add: rrr_length_add_bug_const_def Let_def add_wraps_iff bug_if_def)
qed

lemma rrr_length_mul_bug_eq:
  "rrr_length_mul_bug a b =
     (if unat a * unat b < 2 ^ 32 then Inr (of_nat (unat a * unat b)) else Inl Bug)"
proof -
  have "(ucast ((ucast a :: u64) * ucast b) :: rrr_length) = a * b"
    by (simp add: word_unat_eq_iff unsigned_ucast_eq unat_word_ariths take_bit_eq_mod
        mod_mod_cancel)
  then show ?thesis
    by (simp add: rrr_length_mul_bug_def Let_def bug_if_def unat_length_product
        not_less RRR_LENGTH_MAX_def)
qed

lemma rrr_biglength_mul_err_eq:
  "rrr_biglength_mul_err x y =
     (if unat x * unat y < 2 ^ 64 then (0, of_nat (unat x * unat y)) else (1, x))"
  using mul_wraps_iff [of x y]
  by (cases "x = 0") (auto simp: rrr_biglength_mul_err_def Let_def)

lemma rrr_length_inc_err_eq:
  "rrr_length_inc_err a = (if unat a < 2 ^ 32 - 1 then 0 else 1, a + 1)"
  using unat_bound [of a] by (auto simp: rrr_length_inc_err_def Let_def inc_wraps_iff)

lemma rrr_length_inc_bug_eq:
  "rrr_length_inc_bug a = (if unat a < 2 ^ 32 - 1 then Inr (a + 1) else Inl Bug)"
  using unat_bound [of a] by (auto simp: rrr_length_inc_bug_def Let_def inc_wraps_iff bug_if_def)

text \<open>The result of a check: the value when it fits, otherwise the process stops, or 1 is returned and the target keeps its value.\<close>

definition or_bug :: "bool \<Rightarrow> 'a \<Rightarrow> 'a res" where
  "or_bug fits x = (if fits then Inr x else Inl Bug)"

definition or_err :: "bool \<Rightarrow> 'a \<Rightarrow> 'a \<Rightarrow> c_int \<times> 'a" where
  "or_err fits x target = (if fits then (0, x) else (1, target))"

lemma sub_checks:
  "rrr_length_sub_bug a b = or_bug (unat b \<le> unat a) (of_nat (unat a - unat b))"
  "rrr_length_sub_bug_const a b = or_bug (unat b \<le> unat a) (of_nat (unat a - unat b))"
  "rrr_biglength_sub_bug x y = or_bug (unat y \<le> unat x) (of_nat (unat x - unat y))"
  "rrr_biglength_sub_bug_const x y = or_bug (unat y \<le> unat x) (of_nat (unat x - unat y))"
  using sub_wraps_iff [of a b] sub_wraps_iff [of x y]
  by (auto simp: rrr_length_sub_bug_def rrr_length_sub_bug_const_def rrr_biglength_sub_bug_def rrr_biglength_sub_bug_const_def
      or_bug_def bug_if_def word_less_nat_alt Let_def)

lemma add_checks:
  "rrr_length_add_err a b = or_err (unat a + unat b < 2 ^ 32) (of_nat (unat a + unat b)) a"
  "rrr_length_add_bug a b = or_bug (unat a + unat b < 2 ^ 32) (of_nat (unat a + unat b))"
  "rrr_length_add_bug_const a b = or_bug (unat a + unat b < 2 ^ 32) (of_nat (unat a + unat b))"
  "rrr_biglength_add_err x y = or_err (unat x + unat y < 2 ^ 64) (of_nat (unat x + unat y)) x"
  "rrr_biglength_add_bug x y = or_bug (unat x + unat y < 2 ^ 64) (of_nat (unat x + unat y))"
  by (simp_all add: rrr_length_add_err_eq rrr_length_add_bug_def rrr_length_add_bug_const_eq rrr_biglength_add_bug_def
      rrr_biglength_add_err_def or_bug_def or_err_def bug_if_def add_wraps_iff Let_def)

lemma mul_checks:
  "rrr_length_mul_bug a b = or_bug (unat a * unat b < 2 ^ 32) (of_nat (unat a * unat b))"
  "rrr_biglength_mul_err x y = or_err (unat x * unat y < 2 ^ 64) (of_nat (unat x * unat y)) x"
  by (simp_all add: rrr_length_mul_bug_eq rrr_biglength_mul_err_eq or_bug_def or_err_def)

lemma inc_checks:
  "rrr_length_inc_err a = (if unat a + 1 < 2 ^ 32 then (0, of_nat (unat a + 1)) else (1, 0))"
  "rrr_length_inc_bug a = or_bug (unat a + 1 < 2 ^ 32) (of_nat (unat a + 1))"
  "rrr_length_inc_bug_const a = or_bug (unat a + 1 < 2 ^ 32) (of_nat (unat a + 1))"
  "rrr_biglength_inc_bug x = or_bug (unat x + 1 < 2 ^ 64) (of_nat (unat x + 1))"
  "rrr_size_t_inc_bug x = or_bug (unat x + 1 < 2 ^ 64) (of_nat (unat x + 1))"
  "rrr_size_t_inc_bug_const x = or_bug (unat x + 1 < 2 ^ 64) (of_nat (unat x + 1))"
  using unat_bound [of a] unat_bound [of x] inc_wraps_iff [of a] inc_wraps_iff [of x]
  by (auto simp: rrr_length_inc_err_def rrr_length_inc_bug_def rrr_length_inc_bug_const_def rrr_biglength_inc_bug_def rrr_size_t_inc_bug_def
      rrr_size_t_inc_bug_const_def or_bug_def bug_if_def Let_def)

lemma conversion_checks:
  "rrr_length_from_biglength_err r x = or_err (unat x < 2 ^ 32) (of_nat (unat x)) r"
  "rrr_length_from_biglength_bug_const x = or_bug (unat x < 2 ^ 32) (of_nat (unat x))"
  "rrr_length_from_size_t_err r x = or_err (unat x < 2 ^ 32) (of_nat (unat x)) r"
  "rrr_length_from_size_t_bug_const x = or_bug (unat x < 2 ^ 32) (of_nat (unat x))"
  "rrr_length_from_slength_bug_const s = or_bug (0 \<le> s \<and> s < 2 ^ 32) (word_of_int s)"
  "rrr_length_from_ptr_sub_bug_const x y = or_bug (unat y \<le> unat x \<and> unat x - unat y < 2 ^ 32) (of_nat (unat x - unat y))"
proof -
  note narrow = word_greater_32 or_err_def or_bug_def bug_if_def not_le
  show "rrr_length_from_biglength_err r x = or_err (unat x < 2 ^ 32) (of_nat (unat x)) r"
    "rrr_length_from_size_t_err r x = or_err (unat x < 2 ^ 32) (of_nat (unat x)) r"
    "rrr_length_from_biglength_bug_const x = or_bug (unat x < 2 ^ 32) (of_nat (unat x))"
    "rrr_length_from_size_t_bug_const x = or_bug (unat x < 2 ^ 32) (of_nat (unat x))"
    by (auto simp: rrr_length_from_biglength_err_def rrr_length_from_size_t_err_def rrr_length_from_biglength_bug_const_def
        rrr_length_from_size_t_bug_const_def narrow)
  show "rrr_length_from_slength_bug_const s = or_bug (0 \<le> s \<and> s < 2 ^ 32) (word_of_int s)"
    by (auto simp: rrr_length_from_slength_bug_const_def or_bug_def bug_if_def RRR_LENGTH_MAX_def)
  have "(ucast (x - y) :: rrr_length) = of_nat (unat (x - y))" by simp
  then show "rrr_length_from_ptr_sub_bug_const x y = or_bug (unat y \<le> unat x \<and> unat x - unat y < 2 ^ 32) (of_nat (unat x - unat y))"
    using unat_sub [of y x] by (auto simp: rrr_length_from_ptr_sub_bug_const_def narrow word_less_nat_alt word_le_nat_alt simp del: of_nat_unat)
qed

lemma dec_checks:
  "rrr_length_dec_bug a = or_bug (0 < unat a) a"
  "rrr_length_dec_bug_const a = or_bug (0 < unat a) a"
  "rrr_biglength_from_ptr_sub_bug_const x y = or_bug (unat y \<le> unat x) (of_nat ((unat x - unat y) mod 2 ^ 32))"
proof -
  show "rrr_length_dec_bug a = or_bug (0 < unat a) a" "rrr_length_dec_bug_const a = or_bug (0 < unat a) a"
    by (auto simp: rrr_length_dec_bug_const_def rrr_length_dec_bug_def or_bug_def bug_if_def unat_gt_0)
  have "unat (ucast (ucast (x - y) :: rrr_length) :: u64) = unat (x - y) mod 2 ^ 32"
    by (simp add: unsigned_ucast_eq take_bit_eq_mod unat_mod)
  then have "(ucast (ucast (x - y) :: rrr_length) :: u64) = of_nat (unat (x - y) mod 2 ^ 32)" by (metis of_nat_unat ucast_id)
  then show "rrr_biglength_from_ptr_sub_bug_const x y = or_bug (unat y \<le> unat x) (of_nat ((unat x - unat y) mod 2 ^ 32))"
    using unat_sub [of y x]
    by (auto simp: rrr_biglength_from_ptr_sub_bug_const_def or_bug_def bug_if_def word_less_nat_alt word_le_nat_alt)
qed

text \<open>
  Claim C27: the checked additions, subtractions, multiplications and increments on 32-bit and 64-bit lengths and the conversions to 32 bits that are listed
  return the mathematical result when that fits the type. Otherwise those with \<open>_bug\<close> in their name abort, and those with \<open>_err\<close> return 1
  and leave their target alone, but \<open>rrr_length_inc_err\<close> stores the wrapped value 0. The
  tests in the code (\<^verbatim>\<open>r > a\<close>, \<^verbatim>\<open>r < a\<close>, \<^verbatim>\<open>r / a != b\<close>) miss no overflow and reject nothing that fits. Two functions are not exact: the
  decrement aborts at 0 but otherwise returns its argument as it is, and the difference of pointers as a 64-bit length keeps the low 32 bits only.
\<close>

theorem checked_arithmetic_exact:
  fixes a b r :: rrr_length and x y :: rrr_biglength and s :: rrr_slength
  shows
   "rrr_length_sub_bug a b = or_bug (unat b \<le> unat a) (of_nat (unat a - unat b))
    \<and> rrr_length_sub_bug_const a b = or_bug (unat b \<le> unat a) (of_nat (unat a - unat b))
    \<and> rrr_biglength_sub_bug x y = or_bug (unat y \<le> unat x) (of_nat (unat x - unat y))
    \<and> rrr_biglength_sub_bug_const x y = or_bug (unat y \<le> unat x) (of_nat (unat x - unat y))
    \<and> rrr_length_add_err a b = or_err (unat a + unat b < 2 ^ 32) (of_nat (unat a + unat b)) a
    \<and> rrr_length_add_bug a b = or_bug (unat a + unat b < 2 ^ 32) (of_nat (unat a + unat b))
    \<and> rrr_length_add_bug_const a b = or_bug (unat a + unat b < 2 ^ 32) (of_nat (unat a + unat b))
    \<and> rrr_biglength_add_err x y = or_err (unat x + unat y < 2 ^ 64) (of_nat (unat x + unat y)) x
    \<and> rrr_biglength_add_bug x y = or_bug (unat x + unat y < 2 ^ 64) (of_nat (unat x + unat y))
    \<and> rrr_length_mul_bug a b = or_bug (unat a * unat b < 2 ^ 32) (of_nat (unat a * unat b))
    \<and> rrr_biglength_mul_err x y = or_err (unat x * unat y < 2 ^ 64) (of_nat (unat x * unat y)) x
    \<and> rrr_length_inc_err a = (if unat a + 1 < 2 ^ 32 then (0, of_nat (unat a + 1)) else (1, 0))
    \<and> rrr_length_inc_bug a = or_bug (unat a + 1 < 2 ^ 32) (of_nat (unat a + 1))
    \<and> rrr_length_inc_bug_const a = or_bug (unat a + 1 < 2 ^ 32) (of_nat (unat a + 1))
    \<and> rrr_biglength_inc_bug x = or_bug (unat x + 1 < 2 ^ 64) (of_nat (unat x + 1))
    \<and> rrr_size_t_inc_bug x = or_bug (unat x + 1 < 2 ^ 64) (of_nat (unat x + 1))
    \<and> rrr_size_t_inc_bug_const x = or_bug (unat x + 1 < 2 ^ 64) (of_nat (unat x + 1))
    \<and> rrr_length_from_biglength_err r x = or_err (unat x < 2 ^ 32) (of_nat (unat x)) r
    \<and> rrr_length_from_size_t_err r x = or_err (unat x < 2 ^ 32) (of_nat (unat x)) r
    \<and> rrr_length_from_biglength_bug_const x = or_bug (unat x < 2 ^ 32) (of_nat (unat x))
    \<and> rrr_length_from_size_t_bug_const x = or_bug (unat x < 2 ^ 32) (of_nat (unat x))
    \<and> rrr_length_from_slength_bug_const s = or_bug (0 \<le> s \<and> s < 2 ^ 32) (word_of_int s)
    \<and> rrr_length_from_ptr_sub_bug_const x y = or_bug (unat y \<le> unat x \<and> unat x - unat y < 2 ^ 32) (of_nat (unat x - unat y))
    \<and> rrr_length_dec_bug a = or_bug (0 < unat a) a
    \<and> rrr_length_dec_bug_const a = or_bug (0 < unat a) a
    \<and> rrr_biglength_from_ptr_sub_bug_const x y = or_bug (unat y \<le> unat x) (of_nat ((unat x - unat y) mod 2 ^ 32))"
  by (intro conjI sub_checks add_checks mul_checks inc_checks conversion_checks dec_checks)

end
