(* ===== verification/RRR_Linked_List.thy ===== *)
theory RRR_Linked_List
  imports RRR_Prelude
begin

text \<open>
  The intrusive doubly linked list of \<^verbatim>\<open>src/lib/util/linked_list.h\<close>. The nodes live in a heap
  of records; a head holds the first and the last node and a count. Each macro is a
  function from the heap and the head to the new heap and head, statement by statement,
  and any access through a pointer that is NULL or freed is \<open>Bad_Access\<close>.
  \<open>dll h head as\<close> says that the head \<open>head\<close> holds the nodes \<open>as\<close>, in that order. The lemmas show that
  each macro, on such a list, is the list operation it stands for (a refinement), and that
  it touches no other node of the heap.
\<close>

record 'a ll_node =
  ptr_prev :: ptr
  ptr_next :: ptr
  payload :: 'a

record ll_head =
  ptr_first :: ptr
  ptr_last :: ptr
  node_count :: int

type_synonym 'a ll_heap = "'a ll_node heap"

subsection \<open>The macros\<close>

definition RRR_LL_VERIFY_HEAD :: "ll_head \<Rightarrow> unit res" where
  "RRR_LL_VERIFY_HEAD head =
     bug_if ((ptr_first head \<noteq> NULL \<and> ptr_last head = NULL) \<or>
             (ptr_last head \<noteq> NULL \<and> ptr_first head = NULL) \<or>
             (ptr_first head = NULL \<and> node_count head \<noteq> 0)) (Inr ())"

definition RRR_LL_VERIFY_NODE :: "'a ll_heap \<Rightarrow> ll_head \<Rightarrow> ptr \<Rightarrow> unit res" where
  "RRR_LL_VERIFY_NODE h head node =
     bindr (load h node) (\<lambda>n.
     bug_if ((ptr_prev n = NULL \<and> ptr_first head \<noteq> node) \<or>
             (ptr_next n = NULL \<and> ptr_last head \<noteq> node) \<or>
             (ptr_prev n \<noteq> NULL \<and> ptr_first head = node) \<or>
             (ptr_next n \<noteq> NULL \<and> ptr_last head = node) \<or>
             (ptr_first head \<noteq> node \<and> ptr_last head \<noteq> node \<and>
              (ptr_next n = NULL \<or> ptr_prev n = NULL))) (Inr ()))"

definition RRR_LL_IS_EMPTY :: "ll_head \<Rightarrow> bool" where
  "RRR_LL_IS_EMPTY head \<longleftrightarrow> ptr_first head = NULL"

definition RRR_LL_COUNT :: "ll_head \<Rightarrow> int" where
  "RRR_LL_COUNT head = node_count head"

definition RRR_LL_DANGEROUS_CLEAR_HEAD :: "ll_head \<Rightarrow> ll_head" where
  "RRR_LL_DANGEROUS_CLEAR_HEAD head = head\<lparr>ptr_first := NULL, ptr_last := NULL, node_count := 0\<rparr>"

definition RRR_LL_UNSHIFT :: "'a ll_heap \<Rightarrow> ll_head \<Rightarrow> ptr \<Rightarrow> ('a ll_heap \<times> ll_head) res" where
  "RRR_LL_UNSHIFT h head node =
     bindr (modify h node (\<lambda>n. n\<lparr>ptr_next := NULL\<rparr>)) (\<lambda>h.
     bindr (modify h node (\<lambda>n. n\<lparr>ptr_prev := NULL\<rparr>)) (\<lambda>h.
     bindr (if ptr_first head = NULL then Inr (h, head\<lparr>ptr_first := node, ptr_last := node\<rparr>)
            else bindr (modify h (ptr_first head) (\<lambda>n. n\<lparr>ptr_prev := node\<rparr>)) (\<lambda>h.
                 bindr (modify h node (\<lambda>n. n\<lparr>ptr_next := ptr_first head\<rparr>)) (\<lambda>h.
                 Inr (h, head\<lparr>ptr_first := node\<rparr>)))) (\<lambda>(h, head).
     bindr (int_inc (node_count head)) (\<lambda>c. Inr (h, head\<lparr>node_count := c\<rparr>)))))"

definition RRR_LL_APPEND :: "'a ll_heap \<Rightarrow> ll_head \<Rightarrow> ptr \<Rightarrow> ('a ll_heap \<times> ll_head) res" where
  "RRR_LL_APPEND h head node =
     bindr (modify h node (\<lambda>n. n\<lparr>ptr_next := NULL\<rparr>)) (\<lambda>h.
     bindr (modify h node (\<lambda>n. n\<lparr>ptr_prev := NULL\<rparr>)) (\<lambda>h.
     bindr (if ptr_first head = NULL \<or> ptr_last head = NULL
            then Inr (h, head\<lparr>ptr_first := node, ptr_last := node\<rparr>)
            else bindr (modify h (ptr_last head) (\<lambda>n. n\<lparr>ptr_next := node\<rparr>)) (\<lambda>h.
                 bindr (modify h node (\<lambda>n. n\<lparr>ptr_prev := ptr_last head\<rparr>)) (\<lambda>h.
                 Inr (h, head\<lparr>ptr_last := node\<rparr>)))) (\<lambda>(h, head).
     bindr (int_inc (node_count head)) (\<lambda>c. Inr (h, head\<lparr>node_count := c\<rparr>)))))"

definition RRR_LL_PUSH :: "'a ll_heap \<Rightarrow> ll_head \<Rightarrow> ptr \<Rightarrow> ('a ll_heap \<times> ll_head) res" where
  "RRR_LL_PUSH h head node = RRR_LL_APPEND h head node"

text \<open>The removal inside an iteration, from the loop's \<open>node\<close>, \<open>prev\<close> and \<open>next\<close>.\<close>

definition RRR_LL_ITERATE_REMOVE_NODE ::
    "'a ll_heap \<Rightarrow> ll_head \<Rightarrow> ptr \<Rightarrow> ptr \<Rightarrow> ptr \<Rightarrow> ('a ll_heap \<times> ll_head) res" where
  "RRR_LL_ITERATE_REMOVE_NODE h head node prev nxt =
     (let head = (if ptr_first head = node then head\<lparr>ptr_first := nxt\<rparr> else head);
          head = (if ptr_last head = node then head\<lparr>ptr_last := prev\<rparr> else head) in
      bindr (if nxt \<noteq> NULL then modify h nxt (\<lambda>n. n\<lparr>ptr_prev := prev\<rparr>) else Inr h) (\<lambda>h.
      bindr (if prev \<noteq> NULL then modify h prev (\<lambda>n. n\<lparr>ptr_next := nxt\<rparr>) else Inr h) (\<lambda>h.
      Inr (h, head\<lparr>node_count := node_count head - 1\<rparr>))))"

definition RRR_LL_REMOVE_NODE_NO_FREE ::
    "'a ll_heap \<Rightarrow> ll_head \<Rightarrow> ptr \<Rightarrow> ('a ll_heap \<times> ll_head) res" where
  "RRR_LL_REMOVE_NODE_NO_FREE h head find_node =
     bindr (load h find_node) (\<lambda>n.
     bindr (if ptr_prev n = NULL then Inr (h, head\<lparr>ptr_first := ptr_next n\<rparr>)
            else bindr (modify h (ptr_prev n) (\<lambda>m. m\<lparr>ptr_next := ptr_next n\<rparr>)) (\<lambda>h. Inr (h, head)))
       (\<lambda>(h, head).
     bindr (load h find_node) (\<lambda>n.
     bindr (if ptr_next n = NULL then Inr (h, head\<lparr>ptr_last := ptr_prev n\<rparr>)
            else bindr (modify h (ptr_next n) (\<lambda>m. m\<lparr>ptr_prev := ptr_prev n\<rparr>)) (\<lambda>h. Inr (h, head)))
       (\<lambda>(h, head). Inr (h, head\<lparr>node_count := node_count head - 1\<rparr>)))))"

text \<open>Shift and pop return the node taken off, NULL if there was none.\<close>

definition RRR_LL_SHIFT :: "'a ll_heap \<Rightarrow> ll_head \<Rightarrow> (ptr \<times> 'a ll_heap \<times> ll_head) res" where
  "RRR_LL_SHIFT h head =
     (let result = ptr_first head in
      if ptr_first head \<noteq> NULL then
        bindr (if ptr_last head = ptr_first head
               then Inr (h, head\<lparr>ptr_first := NULL, ptr_last := NULL\<rparr>)
               else bindr (load h (ptr_first head)) (\<lambda>n.
                    bindr (modify h (ptr_next n) (\<lambda>m. m\<lparr>ptr_prev := NULL\<rparr>)) (\<lambda>h.
                    Inr (h, head\<lparr>ptr_first := ptr_next n\<rparr>)))) (\<lambda>(h, head).
        Inr (result, h, head\<lparr>node_count := node_count head - 1\<rparr>))
      else Inr (result, h, head))"

definition RRR_LL_POP :: "'a ll_heap \<Rightarrow> ll_head \<Rightarrow> (ptr \<times> 'a ll_heap \<times> ll_head) res" where
  "RRR_LL_POP h head =
     (let result = ptr_last head in
      if ptr_last head \<noteq> NULL then
        bindr (if ptr_first head = ptr_last head
               then Inr (h, head\<lparr>ptr_last := NULL, ptr_first := NULL\<rparr>)
               else bindr (load h (ptr_last head)) (\<lambda>n.
                    bindr (modify h (ptr_prev n) (\<lambda>m. m\<lparr>ptr_next := NULL\<rparr>)) (\<lambda>h.
                    Inr (h, head\<lparr>ptr_last := ptr_prev n\<rparr>)))) (\<lambda>(h, head).
        Inr (result, h, head\<lparr>node_count := node_count head - 1\<rparr>))
      else Inr (result, h, head))"

text \<open>Returns the heap, the target and the emptied source.\<close>

definition RRR_LL_MERGE_AND_CLEAR_SOURCE_HEAD ::
    "'a ll_heap \<Rightarrow> ll_head \<Rightarrow> ll_head \<Rightarrow> ('a ll_heap \<times> ll_head \<times> ll_head) res" where
  "RRR_LL_MERGE_AND_CLEAR_SOURCE_HEAD h target source =
     (if ptr_first source \<noteq> NULL then
        bindr (if ptr_last target \<noteq> NULL
               then modify h (ptr_last target) (\<lambda>n. n\<lparr>ptr_next := ptr_first source\<rparr>)
               else Inr h) (\<lambda>h.
        bindr (modify h (ptr_first source) (\<lambda>n. n\<lparr>ptr_prev := ptr_last target\<rparr>)) (\<lambda>h.
        let target = target\<lparr>ptr_last := ptr_last source\<rparr>;
            target = (if ptr_first target = NULL then target\<lparr>ptr_first := ptr_first source\<rparr>
                      else target) in
        bindr (int_add (node_count target) (node_count source)) (\<lambda>c.
        Inr (h, target\<lparr>node_count := c\<rparr>,
             source\<lparr>ptr_first := NULL, ptr_last := NULL, node_count := 0\<rparr>))))
      else Inr (h, target, source))"

definition RRR_LL_ITERATE_INSERT ::
    "'a ll_heap \<Rightarrow> ll_head \<Rightarrow> ptr \<Rightarrow> ptr \<Rightarrow> ptr \<Rightarrow> ('a ll_heap \<times> ll_head) res" where
  "RRR_LL_ITERATE_INSERT h head node prev new_node =
     bindr (int_inc (node_count head)) (\<lambda>c.
     bindr (load h node) (\<lambda>n.
     bindr (modify h new_node (\<lambda>m. m\<lparr>ptr_prev := ptr_prev n\<rparr>)) (\<lambda>h.
     bindr (modify h new_node (\<lambda>m. m\<lparr>ptr_next := node\<rparr>)) (\<lambda>h.
     bindr (modify h node (\<lambda>m. m\<lparr>ptr_prev := new_node\<rparr>)) (\<lambda>h.
     if prev = NULL then Inr (h, head\<lparr>node_count := c, ptr_first := new_node\<rparr>)
     else bindr (modify h prev (\<lambda>m. m\<lparr>ptr_next := new_node\<rparr>)) (\<lambda>h.
          Inr (h, head\<lparr>node_count := c\<rparr>)))))))"

text \<open>\<open>rrr_ll_at\<close> walks \<open>i\<close> links; the walk stops by itself, so it needs no fuel.\<close>

fun rrr_ll_at_walk :: "'a ll_heap \<Rightarrow> ptr \<Rightarrow> nat \<Rightarrow> ptr res" where
  "rrr_ll_at_walk h node 0 = Inr node"
| "rrr_ll_at_walk h node (Suc i) = bindr (load h node) (\<lambda>n. rrr_ll_at_walk h (ptr_next n) i)"

definition rrr_ll_at :: "'a ll_heap \<Rightarrow> ll_head \<Rightarrow> int \<Rightarrow> ptr res" where
  "rrr_ll_at h head i = rrr_ll_at_walk h (ptr_first head) (nat i)"

subsection \<open>Iteration\<close>

text \<open>
  The flags a loop body can set: \<open>RRR_LL_ITERATE_BREAK\<close>, \<open>RRR_LL_ITERATE_LAST\<close>,
  \<open>RRR_LL_ITERATE_SET_DESTROY\<close>. A body sees \<open>node\<close>, \<open>prev\<close> and \<open>next\<close> as they were when the
  iteration reached the node.
\<close>

record ll_ctl =
  immediate_break :: bool
  iterate_stop :: bool
  iterate_destroy :: bool

definition ll_continue :: ll_ctl where
  "ll_continue = \<lparr>immediate_break = False, iterate_stop = False, iterate_destroy = False\<rparr>"

type_synonym ('a, 's) ll_state = "'a ll_heap \<times> ll_head \<times> 's"

type_synonym ('a, 's) ll_body =
  "ptr \<Rightarrow> ptr \<Rightarrow> ptr \<Rightarrow> ('a, 's) ll_state \<Rightarrow> (ll_ctl \<times> ('a, 's) ll_state) res"

definition RRR_LL_DID_DESTROY :: c_int where "RRR_LL_DID_DESTROY = 0"

definition RRR_LL_DESTROY_ERR :: c_int where "RRR_LL_DESTROY_ERR = 1"

definition RRR_LL_DIDNT_DESTROY :: c_int where "RRR_LL_DIDNT_DESTROY = 2"

text \<open>
  \<open>RRR_LL_ITERATE_BEGIN_AT\<close> with \<open>RRR_LL_ITERATE_END\<close> (\<open>destroy_func = None\<close>: asking for
  destruction is a bug) or with \<open>RRR_LL_ITERATE_END_CHECK_DESTROY\<close>
  (\<open>destroy_func = Some d\<close>, where \<open>d\<close> returns one of the three codes). A cyclic chain
  would loop; \<open>fuel\<close> bounds the number of nodes visited.
\<close>

fun RRR_LL_ITERATE_AT ::
    "nat \<Rightarrow> ('a, 's) ll_body \<Rightarrow>
     (ptr \<Rightarrow> ('a, 's) ll_state \<Rightarrow> (c_int \<times> ('a, 's) ll_state) res) option \<Rightarrow>
     bool \<Rightarrow> ptr \<Rightarrow> bool \<Rightarrow> ('a, 's) ll_state \<Rightarrow> ('a, 's) ll_state res" where
  "RRR_LL_ITERATE_AT 0 body destroy_func reverse node stop st = Inl Diverge"
| "RRR_LL_ITERATE_AT (Suc fuel) body destroy_func reverse node stop (h, head, s) =
     (if node = NULL \<or> stop then Inr (h, head, s)
      else
        bindr (load h node) (\<lambda>n.
        let nxt = ptr_next n; prev = ptr_prev n in
        bindr (body node prev nxt (h, head, s)) (\<lambda>(ctl, st).
        if immediate_break ctl then Inr st
        else
          bindr (if iterate_destroy ctl then
                   (case destroy_func of None \<Rightarrow> Inl Bug
                    | Some d \<Rightarrow>
                        bindr (d node st) (\<lambda>(code, h, head, s).
                        if code = RRR_LL_DID_DESTROY
                        then bindr (RRR_LL_ITERATE_REMOVE_NODE h head node prev nxt) (\<lambda>(h, head).
                             Inr (h, head, s))
                        else Inr (h, head, s)))
                 else Inr st) (\<lambda>st.
          RRR_LL_ITERATE_AT fuel body destroy_func reverse (if reverse then prev else nxt)
            (iterate_stop ctl) st))))"

definition RRR_LL_ITERATE ::
    "nat \<Rightarrow> ('a, 's) ll_body \<Rightarrow>
     (ptr \<Rightarrow> ('a, 's) ll_state \<Rightarrow> (c_int \<times> ('a, 's) ll_state) res) option \<Rightarrow>
     bool \<Rightarrow> ('a, 's) ll_state \<Rightarrow> ('a, 's) ll_state res" where
  "RRR_LL_ITERATE fuel body destroy_func reverse st =
     (case st of (h, head, s) \<Rightarrow>
        RRR_LL_ITERATE_AT fuel body destroy_func reverse
          (if reverse then ptr_last head else ptr_first head) False st)"

text \<open>\<open>RRR_LL_DESTROY\<close>: \<open>destroy_func\<close> runs on every node, then the head is emptied.\<close>

fun RRR_LL_DESTROY_loop ::
    "nat \<Rightarrow> (ptr \<Rightarrow> 'a ll_heap \<Rightarrow> 's \<Rightarrow> ('a ll_heap \<times> 's) res) \<Rightarrow> ptr \<Rightarrow> 'a ll_heap \<Rightarrow> int \<Rightarrow> 's \<Rightarrow>
     ('a ll_heap \<times> int \<times> 's) res" where
  "RRR_LL_DESTROY_loop 0 destroy_func node h count s = Inl Diverge"
| "RRR_LL_DESTROY_loop (Suc fuel) destroy_func node h count s =
     (if node = NULL then Inr (h, count, s)
      else bindr (load h node) (\<lambda>n.
           bindr (destroy_func node h s) (\<lambda>(h, s).
           RRR_LL_DESTROY_loop fuel destroy_func (ptr_next n) h (count - 1) s)))"

definition RRR_LL_DESTROY ::
    "nat \<Rightarrow> (ptr \<Rightarrow> 'a ll_heap \<Rightarrow> 's \<Rightarrow> ('a ll_heap \<times> 's) res) \<Rightarrow> ('a, 's) ll_state \<Rightarrow>
     ('a, 's) ll_state res" where
  "RRR_LL_DESTROY fuel destroy_func st =
     (case st of (h, head, s) \<Rightarrow>
        bindr (RRR_LL_DESTROY_loop fuel destroy_func (ptr_first head) h (node_count head) s)
          (\<lambda>(h, count, s).
        Inr (h, head\<lparr>node_count := count, ptr_first := NULL, ptr_last := NULL\<rparr>, s)))"

text \<open>
  \<open>RRR_LL_REMOVE_NODE_IF_EXISTS\<close>: the node equal to \<open>find\<close> is destroyed, then unlinked with
  the loop's own \<open>prev\<close>. The result is the pointer left in \<open>find\<close>.
\<close>

fun RRR_LL_REMOVE_NODE_IF_EXISTS_loop ::
    "nat \<Rightarrow> (ptr \<Rightarrow> 'a ll_heap \<Rightarrow> 's \<Rightarrow> ('a ll_heap \<times> 's) res) \<Rightarrow> ptr \<Rightarrow> ptr \<Rightarrow> ptr \<Rightarrow>
     ('a, 's) ll_state \<Rightarrow> (ptr \<times> ('a, 's) ll_state) res" where
  "RRR_LL_REMOVE_NODE_IF_EXISTS_loop 0 destroy_func find_node node prev st = Inl Diverge"
| "RRR_LL_REMOVE_NODE_IF_EXISTS_loop (Suc fuel) destroy_func find_node node prev (h, head, s) =
     (if node = NULL then Inr (find_node, h, head, s)
      else bindr (load h node) (\<lambda>n.
           let nxt = ptr_next n in
           if node = find_node then
             bindr (destroy_func node h s) (\<lambda>(h, s).
             bindr (RRR_LL_ITERATE_REMOVE_NODE h head node prev nxt) (\<lambda>(h, head).
             Inr (NULL, h, head, s)))
           else RRR_LL_REMOVE_NODE_IF_EXISTS_loop fuel destroy_func find_node nxt node (h, head, s)))"

definition RRR_LL_REMOVE_NODE_IF_EXISTS ::
    "nat \<Rightarrow> (ptr \<Rightarrow> 'a ll_heap \<Rightarrow> 's \<Rightarrow> ('a ll_heap \<times> 's) res) \<Rightarrow> ptr \<Rightarrow>
     ('a, 's) ll_state \<Rightarrow> (ptr \<times> ('a, 's) ll_state) res" where
  "RRR_LL_REMOVE_NODE_IF_EXISTS fuel destroy_func find_node st =
     (case st of (h, head, s) \<Rightarrow>
        RRR_LL_REMOVE_NODE_IF_EXISTS_loop fuel destroy_func find_node (ptr_first head) NULL st)"

text \<open>
  \<open>RRR_LL_ROTATE\<close>: the body runs at every node and acts at number \<open>pos\<close>. With \<open>pos = 0\<close> on
  two or more nodes it reads \<^verbatim>\<open>node->ptr_prev->ptr_next\<close> of the first node.
\<close>

definition RRR_LL_ROTATE_body :: "int \<Rightarrow> ('a, int) ll_body" where
  "RRR_LL_ROTATE_body pos node prev nxt st =
     (case st of (h, head, i) \<Rightarrow>
        if i \<noteq> pos then Inr (ll_continue, h, head, i + 1)
        else
          bindr (load h node) (\<lambda>n.
          bindr (modify h (ptr_prev n) (\<lambda>m. m\<lparr>ptr_next := NULL\<rparr>)) (\<lambda>h.
          bindr (modify h (ptr_last head) (\<lambda>m. m\<lparr>ptr_next := ptr_first head\<rparr>)) (\<lambda>h.
          bindr (modify h (ptr_first head) (\<lambda>m. m\<lparr>ptr_prev := ptr_last head\<rparr>)) (\<lambda>h.
          bindr (load h node) (\<lambda>n.
          let head = head\<lparr>ptr_last := ptr_prev n, ptr_first := node\<rparr> in
          bindr (modify h node (\<lambda>m. m\<lparr>ptr_prev := NULL\<rparr>)) (\<lambda>h.
          Inr (ll_continue\<lparr>immediate_break := True\<rparr>, h, head, i + 1))))))))"

definition RRR_LL_ROTATE ::
    "nat \<Rightarrow> 'a ll_heap \<Rightarrow> ll_head \<Rightarrow> int \<Rightarrow> ('a ll_heap \<times> ll_head) res" where
  "RRR_LL_ROTATE fuel h head pos =
     assertr (pos < RRR_LL_COUNT head) (assertr (pos \<ge> 0)
       (if RRR_LL_COUNT head \<le> 1 then Inr (h, head)
        else bindr (RRR_LL_ITERATE fuel (RRR_LL_ROTATE_body pos) None False (h, head, 0))
               (\<lambda>(h, head, i). Inr (h, head))))"

subsection \<open>Lists in the heap\<close>

text \<open>
  \<open>dseg h pv p as lt nx\<close>: starting from the pointer \<open>p\<close>, with \<open>pv\<close> the node before it, the
  nodes \<open>as\<close> are linked both ways; \<open>lt\<close> is the node before the end (\<open>pv\<close> when \<open>as\<close> is empty)
  and \<open>nx\<close> the pointer found there.
\<close>

primrec dseg :: "'a ll_heap \<Rightarrow> ptr \<Rightarrow> ptr \<Rightarrow> addr list \<Rightarrow> ptr \<Rightarrow> ptr \<Rightarrow> bool" where
  "dseg h pv p [] lt nx \<longleftrightarrow> p = nx \<and> lt = pv"
| "dseg h pv p (a # as) lt nx \<longleftrightarrow>
     p = Some a \<and> (\<exists>n. h a = Some n \<and> ptr_prev n = pv \<and> dseg h (Some a) (ptr_next n) as lt nx)"

definition dll :: "'a ll_heap \<Rightarrow> ll_head \<Rightarrow> addr list \<Rightarrow> bool" where
  "dll h head as \<longleftrightarrow>
     dseg h NULL (ptr_first head) as (ptr_last head) NULL \<and> distinct as \<and>
     node_count head = int (length as)"

text \<open>The payloads of a list of nodes: the sequence the program sees.\<close>

definition payloads :: "'a ll_heap \<Rightarrow> addr list \<Rightarrow> 'a list" where
  "payloads h as = map (\<lambda>a. payload (the (h a))) as"

lemma dseg_append [simp]:
  "dseg h pv p (as @ bs) lt nx \<longleftrightarrow> (\<exists>m q. dseg h pv p as m q \<and> dseg h m q bs lt nx)"
  by (induction as arbitrary: pv p) auto

lemma dseg_frame:
  "(\<And>a. a \<in> set as \<Longrightarrow> h' a = h a) \<Longrightarrow> dseg h' pv p as lt nx = dseg h pv p as lt nx"
  by (induction as arbitrary: pv p) auto

lemma dseg_upd [simp]: "a \<notin> set as \<Longrightarrow> dseg (h(a := v)) pv p as lt nx = dseg h pv p as lt nx"
  by (rule dseg_frame) auto

lemma dseg_dom: "dseg h pv p as lt nx \<Longrightarrow> a \<in> set as \<Longrightarrow> \<exists>n. h a = Some n"
  by (induction as arbitrary: pv p) auto

lemma dseg_NULL [simp]: "dseg h pv None as lt nx \<longleftrightarrow> as = [] \<and> nx = None \<and> lt = pv"
  by (cases as) auto

lemma dseg_unique: "dseg h pv p as lt None \<Longrightarrow> dseg h pv p bs lt' None \<Longrightarrow> as = bs"
proof (induction as arbitrary: pv p bs)
  case Nil
  then show ?case by simp
next
  case (Cons a as)
  then show ?case by (cases bs) auto
qed

lemma dseg_last:
  "dseg h pv p as lt nx \<Longrightarrow> lt = (if as = [] then pv else Some (last as))"
  by (induction as arbitrary: pv p) auto

lemma dll_first: "dll h head as \<Longrightarrow> ptr_first head = (case as of [] \<Rightarrow> None | a # _ \<Rightarrow> Some a)"
  by (cases as) (auto simp: dll_def)

lemma dll_last: "dll h head as \<Longrightarrow> ptr_last head = (if as = [] then None else Some (last as))"
  by (auto simp: dll_def dest: dseg_last)

lemma dll_unique: "dll h head as \<Longrightarrow> dll h head bs \<Longrightarrow> as = bs"
  by (auto simp: dll_def dest: dseg_unique)

text \<open>A node in the middle of a list, with its neighbours.\<close>

lemma dsegD_middle:
  assumes "dseg h pv p (as @ a # bs) lt nx"
  obtains n where "h a = Some n" "ptr_prev n = (if as = [] then pv else Some (last as))"
    "dseg h pv p as (ptr_prev n) (Some a)" "dseg h (Some a) (ptr_next n) bs lt nx"
  using assms by auto (metis dseg_last)

lemma dll_dom: "dll h head as \<Longrightarrow> a \<in> set as \<Longrightarrow> \<exists>n. h a = Some n"
  unfolding dll_def using dseg_dom by blast

lemma dll_middle:
  assumes "dll h head (as @ a # bs)"
  obtains n where "h a = Some n" "ptr_prev n = (if as = [] then NULL else Some (last as))"
    "ptr_next n = (case bs of [] \<Rightarrow> NULL | b # _ \<Rightarrow> Some b)"
proof -
  from assms have "dseg h NULL (ptr_first head) (as @ a # bs) (ptr_last head) NULL"
    by (simp only: dll_def)
  then obtain n where "h a = Some n" "ptr_prev n = (if as = [] then NULL else Some (last as))"
      "dseg h (Some a) (ptr_next n) bs (ptr_last head) NULL"
    by (rule dsegD_middle)
  then show thesis by (intro that) (cases bs; auto)+
qed

lemma dll_empty_iff: "dll h head as \<Longrightarrow> RRR_LL_IS_EMPTY head \<longleftrightarrow> as = []"
  by (cases as) (auto simp: dll_def RRR_LL_IS_EMPTY_def)

lemma dll_count: "dll h head as \<Longrightarrow> RRR_LL_COUNT head = int (length as)"
  by (simp add: dll_def RRR_LL_COUNT_def)

lemma dll_frame: "dll h head as \<Longrightarrow> (\<And>a. a \<in> set as \<Longrightarrow> h' a = h a) \<Longrightarrow> dll h' head as"
  using dseg_frame [of as h' h] by (simp add: dll_def)

lemma payloads_frame: "(\<And>a. a \<in> set as \<Longrightarrow> h' a = h a) \<Longrightarrow> payloads h' as = payloads h as"
  by (simp add: payloads_def)

lemma payloads_simps [simp]:
  "payloads h [] = []"
  "payloads h (a # as) = payload (the (h a)) # payloads h as"
  "payloads h (as @ bs) = payloads h as @ payloads h bs"
  by (simp_all add: payloads_def)

text \<open>
  \<open>relink S h h'\<close>: the step from \<open>h\<close> to \<open>h'\<close> changed at most the links of the nodes in \<open>S\<close>.
\<close>

definition relink :: "addr set \<Rightarrow> 'a ll_heap \<Rightarrow> 'a ll_heap \<Rightarrow> bool" where
  "relink S h h' \<longleftrightarrow>
     (\<forall>b. map_option payload (h' b) = map_option payload (h b)) \<and> (\<forall>b. b \<notin> S \<longrightarrow> h' b = h b)"

lemma relink_refl [simp]: "relink S h h"
  by (simp add: relink_def)

lemma relink_trans: "relink S h h' \<Longrightarrow> relink T h' h'' \<Longrightarrow> S \<union> T \<subseteq> U \<Longrightarrow> relink U h h''"
  by (auto simp: relink_def subset_iff) metis

lemma relink_the: "relink S h h' \<Longrightarrow> h b = Some n \<Longrightarrow> \<exists>n'. h' b = Some n' \<and> payload n' = payload n"
  by (metis map_option_eq_Some relink_def)

lemma relink_payloads:
  assumes "relink S h h'" "set as \<subseteq> dom h"
  shows "payloads h' as = payloads h as"
  unfolding payloads_def
proof (rule map_cong)
  fix a assume "a \<in> set as"
  with assms(2) obtain n where "h a = Some n" by auto
  moreover from relink_the [OF assms(1) this] obtain n' where "h' a = Some n'" "payload n' = payload n"
    by blast
  ultimately show "payload (the (h' a)) = payload (the (h a))" by simp
qed simp

lemma relink_dll:
  assumes "relink S h h'" "S \<inter> set as = {}" "dll h head as"
  shows "dll h' head as"
proof (rule dll_frame [OF assms(3)])
  fix a assume "a \<in> set as"
  with assms(1,2) show "h' a = h a" by (auto simp: relink_def)
qed

subsection \<open>Each macro is a list operation\<close>

lemma RRR_LL_UNSHIFT_ok:
  assumes "dll h head as" "h a = Some n" "a \<notin> set as" "int (length as) < INT_MAX"
  shows "\<exists>h' head'. RRR_LL_UNSHIFT h head (Some a) = Inr (h', head') \<and>
           dll h' head' (a # as) \<and> relink (set (a # as)) h h'"
proof (cases as)
  case Nil
  with assms show ?thesis
    by (auto simp: RRR_LL_UNSHIFT_def dll_def relink_def)
next
  case (Cons b bs)
  with assms show ?thesis
    by (auto simp: RRR_LL_UNSHIFT_def dll_def relink_def)
qed

lemma RRR_LL_APPEND_ok:
  assumes "dll h head as" "h a = Some n" "a \<notin> set as" "int (length as) < INT_MAX"
  shows "\<exists>h' head'. RRR_LL_APPEND h head (Some a) = Inr (h', head') \<and>
           dll h' head' (as @ [a]) \<and> relink (set (a # as)) h h'"
proof (cases as rule: rev_cases)
  case Nil
  with assms show ?thesis
    by (auto simp: RRR_LL_APPEND_def dll_def relink_def)
next
  case (snoc bs l)
  with dll_first [OF assms(1)] obtain f where "ptr_first head = Some f"
    by (cases bs) auto
  moreover from snoc dll_last [OF assms(1)] have "ptr_last head = Some l" by simp
  moreover note snoc assms
  ultimately show ?thesis
    by (auto simp: RRR_LL_APPEND_def dll_def relink_def)
qed

lemma RRR_LL_SHIFT_Nil: "dll h head [] \<Longrightarrow> RRR_LL_SHIFT h head = Inr (NULL, h, head)"
  by (simp add: RRR_LL_SHIFT_def dll_def)

lemma RRR_LL_SHIFT_ok:
  assumes "dll h head (a # as)"
  shows "\<exists>h' head'. RRR_LL_SHIFT h head = Inr (Some a, h', head') \<and>
           dll h' head' as \<and> relink (set as) h h'"
proof (cases as)
  case Nil
  with assms show ?thesis
    by (auto simp: RRR_LL_SHIFT_def dll_def)
next
  case (Cons b bs)
  with assms have "ptr_last head \<noteq> ptr_first head"
    using dll_first [OF assms] dll_last [OF assms] by (auto simp: dll_def)
  with Cons assms show ?thesis
    by (auto simp: RRR_LL_SHIFT_def dll_def relink_def)
qed

lemma RRR_LL_POP_Nil: "dll h head [] \<Longrightarrow> RRR_LL_POP h head = Inr (NULL, h, head)"
  by (auto simp: RRR_LL_POP_def dll_def)

lemma RRR_LL_POP_ok:
  assumes "dll h head (as @ [a])"
  shows "\<exists>h' head'. RRR_LL_POP h head = Inr (Some a, h', head') \<and>
           dll h' head' as \<and> relink (set as) h h'"
proof (cases as rule: rev_cases)
  case Nil
  with assms show ?thesis
    by (auto simp: RRR_LL_POP_def dll_def)
next
  case (snoc bs l)
  with assms have "ptr_last head \<noteq> ptr_first head" "ptr_last head = Some a"
    using dll_first [OF assms] dll_last [OF assms]
    by (cases bs; auto simp: dll_def split: list.splits)+
  with snoc assms show ?thesis
    by (auto simp: RRR_LL_POP_def dll_def relink_def)
qed

lemma RRR_LL_ITERATE_REMOVE_NODE_ok:
  assumes "dll h0 head (as @ a # bs)" "h = h0(a := v)"
    and "prev = (if as = [] then NULL else Some (last as))"
    and "nxt = (case bs of [] \<Rightarrow> NULL | b # _ \<Rightarrow> Some b)"
  shows "\<exists>h' head'. RRR_LL_ITERATE_REMOVE_NODE h head (Some a) prev nxt = Inr (h', head') \<and>
           dll h' head' (as @ bs) \<and> relink (set as \<union> set bs) h h'"
proof -
  have ends: "ptr_first head = Some a \<longleftrightarrow> as = []" "ptr_last head = Some a \<longleftrightarrow> bs = []"
    using dll_first [OF assms(1)] dll_last [OF assms(1)] assms(1)
    by (cases as; auto simp: dll_def split: list.splits)+
  show ?thesis
    using assms ends
    by (cases as rule: rev_cases; cases bs)
       (auto simp: RRR_LL_ITERATE_REMOVE_NODE_def dll_def relink_def Let_def)
qed

lemma RRR_LL_REMOVE_NODE_NO_FREE_ok:
  assumes "dll h head (as @ a # bs)"
  shows "\<exists>h' head'. RRR_LL_REMOVE_NODE_NO_FREE h head (Some a) = Inr (h', head') \<and>
           dll h' head' (as @ bs) \<and> relink (set as \<union> set bs) h h'"
  using assms
  by (cases as rule: rev_cases; cases bs)
     (auto simp: RRR_LL_REMOVE_NODE_NO_FREE_def dll_def relink_def)

lemma RRR_LL_MERGE_ok:
  assumes "dll h target as" "dll h source bs" "set as \<inter> set bs = {}"
    and "int (length as + length bs) \<le> INT_MAX"
  shows "\<exists>h' target' source'.
           RRR_LL_MERGE_AND_CLEAR_SOURCE_HEAD h target source = Inr (h', target', source') \<and>
           dll h' target' (as @ bs) \<and> dll h' source' [] \<and> relink (set as \<union> set bs) h h'"
  using assms dll_first [OF assms(1)] dll_last [OF assms(1)] dll_last [OF assms(2)]
  by (cases as rule: rev_cases; cases bs)
     (auto simp: RRR_LL_MERGE_AND_CLEAR_SOURCE_HEAD_def dll_def relink_def Let_def
        split: list.splits)

lemma RRR_LL_ITERATE_INSERT_ok:
  assumes "dll h head (as @ b # bs)" "h a = Some n" "a \<notin> set (as @ b # bs)"
    and "int (length (as @ b # bs)) < INT_MAX" "prev = (if as = [] then NULL else Some (last as))"
  shows "\<exists>h' head'. RRR_LL_ITERATE_INSERT h head (Some b) prev (Some a) = Inr (h', head') \<and>
           dll h' head' (as @ a # b # bs) \<and> relink (insert a (set (as @ b # bs))) h h'"
  using assms
  by (cases as rule: rev_cases)
     (auto simp: RRR_LL_ITERATE_INSERT_def dll_def relink_def)

lemma rrr_ll_at_walk_ok:
  "dseg h pv p as lt None \<Longrightarrow> i \<le> length as \<Longrightarrow>
   rrr_ll_at_walk h p i = Inr (if i < length as then Some (as ! i) else NULL)"
proof (induction as arbitrary: pv p i)
  case Nil
  then show ?case by simp
next
  case (Cons a as)
  then show ?case by (cases i) auto
qed

lemma rrr_ll_at_ok:
  "dll h head as \<Longrightarrow> 0 \<le> i \<Longrightarrow> nat i \<le> length as \<Longrightarrow>
   rrr_ll_at h head i = Inr (if nat i < length as then Some (as ! nat i) else NULL)"
  unfolding rrr_ll_at_def dll_def using rrr_ll_at_walk_ok by blast

subsection \<open>Iteration is a left-to-right visit\<close>

text \<open>
  The reference for a loop whose body looks at the payload and its own state only: the
  nodes that are left, and the state at the end.
\<close>

fun ll_visit :: "(addr \<Rightarrow> 's \<Rightarrow> ll_ctl \<times> 's) \<Rightarrow> addr list \<Rightarrow> 's \<Rightarrow> addr list \<times> 's" where
  "ll_visit v [] s = ([], s)"
| "ll_visit v (a # as) s =
     (let (c, s') = v a s; kept = (if iterate_destroy c then [] else [a]) in
      if immediate_break c then (a # as, s')
      else if iterate_stop c then (kept @ as, s')
      else let (rest, s'') = ll_visit v as s' in (kept @ rest, s''))"

lemma ll_visit_cong:
  "(\<And>a s. a \<in> set as \<Longrightarrow> v a s = w a s) \<Longrightarrow> ll_visit v as s = ll_visit w as s"
  by (induction as arbitrary: s) (auto simp: Let_def split: prod.splits)

text \<open>What a body and a destructor must be for the visit to describe the loop.\<close>

definition pure_body :: "('a, 's) ll_body \<Rightarrow> ('a \<Rightarrow> 's \<Rightarrow> ll_ctl \<times> 's) \<Rightarrow> bool" where
  "pure_body body vp \<longleftrightarrow>
     (\<forall>h head s a n. h a = Some n \<longrightarrow>
        body (Some a) (ptr_prev n) (ptr_next n) (h, head, s) =
        Inr (fst (vp (payload n) s), h, head, snd (vp (payload n) s)))"

definition frees_node ::
    "(ptr \<Rightarrow> ('a, 's) ll_state \<Rightarrow> (c_int \<times> ('a, 's) ll_state) res) \<Rightarrow> bool" where
  "frees_node d \<longleftrightarrow>
     (\<forall>h head s a n. h a = Some n \<longrightarrow>
        d (Some a) (h, head, s) = Inr (RRR_LL_DID_DESTROY, h(a := None), head, s))"

abbreviation (input) visits :: "('a \<Rightarrow> 's \<Rightarrow> ll_ctl \<times> 's) \<Rightarrow> 'a ll_heap \<Rightarrow> addr \<Rightarrow> 's \<Rightarrow> ll_ctl \<times> 's" where
  "visits vp h \<equiv> \<lambda>a. vp (payload (the (h a)))"

lemma ITERATE_AT_stopped:
  "RRR_LL_ITERATE_AT (Suc fuel) body d rev_dir node True (h, head, s) = Inr (h, head, s)"
  by simp

lemma ITERATE_AT_destroy_step:
  assumes "frees_node d" "dll h head (xs @ a # as)" "h a = Some n"
    and "body (Some a) (ptr_prev n) (ptr_next n) (h, head, s) = Inr (c, h, head, s')"
    and "\<not> immediate_break c" "iterate_destroy c"
  shows "\<exists>h' head'.
     RRR_LL_ITERATE_AT (Suc fuel) body (Some d) False (Some a) False (h, head, s) =
     RRR_LL_ITERATE_AT fuel body (Some d) False (ptr_next n) (iterate_stop c) (h', head', s') \<and>
     dll h' head' (xs @ as) \<and> (\<forall>b. b \<notin> set (xs @ a # as) \<longrightarrow> h' b = h b) \<and>
     (\<forall>b. b \<noteq> a \<longrightarrow> map_option payload (h' b) = map_option payload (h b))"
proof -
  from assms(2) have links: "ptr_prev n = (if xs = [] then NULL else Some (last xs))"
      "ptr_next n = (case as of [] \<Rightarrow> NULL | b # _ \<Rightarrow> Some b)"
    using assms(3) by (auto elim: dll_middle)
  have "d (Some a) (h, head, s') = Inr (RRR_LL_DID_DESTROY, h(a := None), head, s')"
    using assms(1,3) by (simp add: frees_node_def)
  moreover obtain h' head' where
    "RRR_LL_ITERATE_REMOVE_NODE (h(a := None)) head (Some a) (ptr_prev n) (ptr_next n) = Inr (h', head')"
    "dll h' head' (xs @ as)" "relink (set xs \<union> set as) (h(a := None)) h'"
    using RRR_LL_ITERATE_REMOVE_NODE_ok [OF assms(2) refl links] by blast
  ultimately show ?thesis
    using assms(3-6)
    by (intro exI [of _ h'] exI [of _ head']) (auto simp: Let_def relink_def)
qed

lemma RRR_LL_ITERATE_AT_ok:
  assumes "pure_body body vp" "frees_node d"
    and "dll h head (xs @ as)" "length as < fuel"
  shows "\<exists>h' head'.
     RRR_LL_ITERATE_AT fuel body (Some d) False (case as of [] \<Rightarrow> None | a # _ \<Rightarrow> Some a) False (h, head, s)
       = Inr (h', head', snd (ll_visit (visits vp h) as s)) \<and>
     dll h' head' (xs @ fst (ll_visit (visits vp h) as s)) \<and>
     (\<forall>b. b \<notin> set (xs @ as) \<longrightarrow> h' b = h b)"
  using assms(3,4)
proof (induction as arbitrary: xs h head s fuel)
  case Nil
  then show ?case by (cases fuel) auto
next
  case (Cons a as)
  then obtain g where g: "fuel = Suc (Suc g)" "length as < Suc g"
    by (cases fuel; cases "fuel - 1") auto
  from Cons.prems(1) obtain n where n: "h a = Some n"
      and nx: "ptr_next n = (case as of [] \<Rightarrow> NULL | b # _ \<Rightarrow> Some b)"
    by (rule dll_middle)
  obtain c s' where vc: "vp (payload n) s = (c, s')" by fastforce
  then have body: "body (Some a) (ptr_prev n) (ptr_next n) (h, head, s) = Inr (c, h, head, s')"
    using assms(1) n by (simp add: pure_body_def)
  show ?case
  proof (cases "immediate_break c \<or> \<not> iterate_destroy c")
    case True
    have "dll h head ((xs @ [a]) @ as)" using Cons.prems(1) by simp
    from Cons.IH [OF this g(2), of s'] True g body vc n nx Cons.prems(1) show ?thesis
      by (auto simp: Let_def ITERATE_AT_stopped split: prod.splits)
  next
    case False
    then obtain h1 head1 where step:
      "RRR_LL_ITERATE_AT fuel body (Some d) False (Some a) False (h, head, s) =
       RRR_LL_ITERATE_AT (Suc g) body (Some d) False (ptr_next n) (iterate_stop c) (h1, head1, s')"
      "dll h1 head1 (xs @ as)" "\<And>b. b \<notin> set (xs @ a # as) \<Longrightarrow> h1 b = h b"
      "\<And>b. b \<noteq> a \<Longrightarrow> map_option payload (h1 b) = map_option payload (h b)"
      using ITERATE_AT_destroy_step [where body = body, OF assms(2) Cons.prems(1) n body] g(1)
      by blast
    have "payload (the (h1 b)) = payload (the (h b))" if "b \<in> set as" for b
    proof -
      have "b \<noteq> a" using that Cons.prems(1) by (auto simp: dll_def)
      with step(4) dll_dom [OF step(2), of b] that show ?thesis by (cases "h b") fastforce+
    qed
    then have "ll_visit (visits vp h1) as s' = ll_visit (visits vp h) as s'"
      by (intro ll_visit_cong) simp
    then obtain h2 head2 where
      "RRR_LL_ITERATE_AT (Suc g) body (Some d) False (ptr_next n) False (h1, head1, s') =
         Inr (h2, head2, snd (ll_visit (visits vp h) as s'))"
      "dll h2 head2 (xs @ fst (ll_visit (visits vp h) as s'))"
      "\<And>b. b \<notin> set (xs @ as) \<Longrightarrow> h2 b = h1 b"
      using Cons.IH [OF step(2) g(2), of s'] nx by auto
    with False step vc n show ?thesis
      by (cases "iterate_stop c") (auto simp: Let_def ITERATE_AT_stopped split: prod.splits)
  qed
qed

text \<open>With more fuel than nodes, the forward loop is the visit.\<close>

lemma RRR_LL_ITERATE_ok:
  assumes "pure_body body vp" "frees_node d" "dll h head as" "length as < fuel"
  shows "\<exists>h' head'.
     RRR_LL_ITERATE fuel body (Some d) False (h, head, s)
       = Inr (h', head', snd (ll_visit (visits vp h) as s)) \<and>
     dll h' head' (fst (ll_visit (visits vp h) as s)) \<and>
     (\<forall>b. b \<notin> set as \<longrightarrow> h' b = h b)"
  using RRR_LL_ITERATE_AT_ok [OF assms(1,2), of h head "[]" as fuel s] assms(3,4)
    dll_first [OF assms(3)]
  by (simp add: RRR_LL_ITERATE_def)

text \<open>A destructor that frees exactly the node it is given.\<close>

definition free_node :: "ptr \<Rightarrow> 'a ll_heap \<Rightarrow> 's \<Rightarrow> ('a ll_heap \<times> 's) res" where
  "free_node p h s = bindr (release h p) (\<lambda>h. Inr (h, s))"

lemma free_node_Some [simp]: "h a = Some n \<Longrightarrow> free_node (Some a) h s = Inr (h(a := None), s)"
  by (simp add: free_node_def)

lemma RRR_LL_DESTROY_loop_ok:
  "dseg h pv p as lt NULL \<Longrightarrow> distinct as \<Longrightarrow> length as < fuel \<Longrightarrow>
   RRR_LL_DESTROY_loop fuel free_node p h c s = Inr (h |` (- set as), c - int (length as), s)"
proof (induction as arbitrary: fuel pv p h c)
  case Nil
  then show ?case by (cases fuel) auto
next
  case (Cons a as)
  from Cons.prems(3) obtain f where f: "fuel = Suc f" "length as < f" by (cases fuel) auto
  have eq: "- set as - {a} = - insert a (set as)"
    by auto
  from Cons.prems obtain n where n: "h a = Some n" "p = Some a"
    "dseg h (Some a) (ptr_next n) as lt NULL" by auto
  have "RRR_LL_DESTROY_loop f free_node (ptr_next n) (h(a := None)) (c - 1) s =
        Inr (h |` (- set (a # as)), c - 1 - int (length as), s)"
    using Cons.IH [of "h(a := None)" "Some a" "ptr_next n" f "c - 1"] Cons.prems n f
    by (simp add: eq del: fun_upd_apply)
  then show ?case using n f by simp
qed

lemma RRR_LL_DESTROY_ok:
  assumes "dll h head as" "length as < fuel"
  shows "\<exists>head'. RRR_LL_DESTROY fuel free_node (h, head, s) = Inr (h |` (- set as), head', s) \<and>
           dll (h |` (- set as)) head' []"
proof -
  have "RRR_LL_DESTROY_loop fuel free_node (ptr_first head) h (node_count head) s =
        Inr (h |` (- set as), 0, s)"
    using assms by (auto simp: dll_def intro: RRR_LL_DESTROY_loop_ok [THEN trans])
  then show ?thesis by (simp add: RRR_LL_DESTROY_def dll_def)
qed

lemma RRR_LL_REMOVE_NODE_IF_EXISTS_loop_absent:
  "dseg h pv p as lt NULL \<Longrightarrow> find_node \<notin> Some ` set as \<Longrightarrow> length as < fuel \<Longrightarrow>
   RRR_LL_REMOVE_NODE_IF_EXISTS_loop fuel d find_node p pv (h, head, s) = Inr (find_node, h, head, s)"
proof (induction as arbitrary: fuel pv p)
  case Nil
  then show ?case by (cases fuel) auto
next
  case (Cons a as)
  then show ?case by (cases fuel) (auto simp: Let_def)
qed

lemma RRR_LL_REMOVE_NODE_IF_EXISTS_loop_found:
  "dseg h pv p as q (Some a) \<Longrightarrow> a \<notin> set as \<Longrightarrow> h a = Some n \<Longrightarrow> length as < fuel \<Longrightarrow>
   RRR_LL_REMOVE_NODE_IF_EXISTS_loop fuel free_node (Some a) p pv (h, head, s) =
   bindr (RRR_LL_ITERATE_REMOVE_NODE (h(a := None)) head (Some a) q (ptr_next n))
     (\<lambda>(h, head). Inr (NULL, h, head, s))"
proof (induction as arbitrary: fuel pv p)
  case Nil
  then show ?case by (cases fuel) (auto simp: Let_def simp del: fun_upd_apply)
next
  case (Cons b as)
  then show ?case by (cases fuel) (auto simp: Let_def simp del: fun_upd_apply)
qed

lemma RRR_LL_REMOVE_NODE_IF_EXISTS_absent:
  assumes "dll h head as" "a \<notin> set as" "length as < fuel"
  shows "RRR_LL_REMOVE_NODE_IF_EXISTS fuel d (Some a) (h, head, s) = Inr (Some a, h, head, s)"
  using assms by (auto simp: RRR_LL_REMOVE_NODE_IF_EXISTS_def dll_def
      intro: RRR_LL_REMOVE_NODE_IF_EXISTS_loop_absent)

lemma RRR_LL_REMOVE_NODE_IF_EXISTS_ok:
  assumes "dll h head (as @ a # bs)" "length as < fuel"
  shows "\<exists>h' head'. RRR_LL_REMOVE_NODE_IF_EXISTS fuel free_node (Some a) (h, head, s)
             = Inr (NULL, h', head', s) \<and>
           dll h' head' (as @ bs) \<and> relink (set as \<union> set bs) (h(a := None)) h'"
proof -
  from assms(1) obtain n where n: "h a = Some n"
    "ptr_prev n = (if as = [] then NULL else Some (last as))"
    "ptr_next n = (case bs of [] \<Rightarrow> NULL | b # _ \<Rightarrow> Some b)" by (rule dll_middle)
  from assms(1) have "dseg h NULL (ptr_first head) (as @ a # bs) (ptr_last head) NULL" "a \<notin> set as"
    by (simp_all add: dll_def)
  with n(1) have "dseg h NULL (ptr_first head) as (ptr_prev n) (Some a)" "a \<notin> set as"
    by simp_all
  note loop = RRR_LL_REMOVE_NODE_IF_EXISTS_loop_found [OF this n(1) assms(2)]
  obtain h' head' where "dll h' head' (as @ bs)" "relink (set as \<union> set bs) (h(a := None)) h'"
    "RRR_LL_ITERATE_REMOVE_NODE (h(a := None)) head (Some a) (ptr_prev n) (ptr_next n) = Inr (h', head')"
    using RRR_LL_ITERATE_REMOVE_NODE_ok [OF assms(1) refl n(2,3)] by blast
  then show ?thesis by (simp add: RRR_LL_REMOVE_NODE_IF_EXISTS_def loop del: fun_upd_apply)
qed

text \<open>
  Two more kinds of body that run on every node: one that only reads the heap, whose loop is
  a fold, and one that updates the payload of the node it visits.
\<close>

lemma ITERATE_AT_fold:
  assumes "\<And>a n s. h a = Some n \<Longrightarrow> a \<in> S \<Longrightarrow> P s \<Longrightarrow>
             body (Some a) (ptr_prev n) (ptr_next n) (h, head, s) = Inr (ll_continue, h, head, v a s) \<and>
             P (v a s)"
  shows "dseg h pv p as lt NULL \<Longrightarrow> set as \<subseteq> S \<Longrightarrow> length as < fuel \<Longrightarrow> P s \<Longrightarrow>
     RRR_LL_ITERATE_AT fuel body d False p False (h, head, s) = Inr (h, head, fold v as s)"
proof (induction as arbitrary: pv p s fuel)
  case Nil
  then show ?case by (cases fuel) auto
next
  case (Cons a as)
  then show ?case using assms [of a] by (cases fuel) (auto simp: Let_def ll_continue_def)
qed

lemma RRR_LL_ITERATE_fold:
  assumes "dll h head as" "length as < fuel" "P s"
    and "\<And>a n s. h a = Some n \<Longrightarrow> a \<in> set as \<Longrightarrow> P s \<Longrightarrow>
           body (Some a) (ptr_prev n) (ptr_next n) (h, head, s) = Inr (ll_continue, h, head, v a s) \<and>
           P (v a s)"
  shows "RRR_LL_ITERATE fuel body d False (h, head, s) = Inr (h, head, fold v as s)"
proof -
  have "dseg h NULL (ptr_first head) as (ptr_last head) NULL" using assms(1) by (simp add: dll_def)
  then show ?thesis
    using ITERATE_AT_fold [where S = "set as" and P = P and body = body and h = h and head = head
        and v = v, OF assms(4)] assms(2,3)
    by (simp add: RRR_LL_ITERATE_def)
qed

definition upd_payloads :: "('a \<Rightarrow> 'a) \<Rightarrow> addr set \<Rightarrow> 'a ll_heap \<Rightarrow> 'a ll_heap" where
  "upd_payloads f S h = (\<lambda>b. if b \<in> S then map_option (payload_update f) (h b) else h b)"

lemma upd_payloads_empty [simp]: "upd_payloads f {} h = h"
  by (simp add: upd_payloads_def)

lemma upd_payloads_step:
  "a \<notin> S \<Longrightarrow> h a = Some n \<Longrightarrow>
   upd_payloads f S (h(a \<mapsto> payload_update f n)) = upd_payloads f (insert a S) h"
  by (auto simp: upd_payloads_def fun_eq_iff)

lemma dseg_upd_payloads [simp]:
  "dseg (upd_payloads f S h) pv p as lt nx = dseg h pv p as lt nx"
  by (induction as arbitrary: pv p) (auto simp: upd_payloads_def)

lemma dll_upd_payloads [simp]: "dll (upd_payloads f S h) head as = dll h head as"
  by (simp add: dll_def)

lemma ITERATE_AT_update:
  assumes "\<And>h a n s. h a = Some n \<Longrightarrow> P (payload n) \<Longrightarrow>
             body (Some a) (ptr_prev n) (ptr_next n) (h, head, s) =
             Inr (ll_continue, h(a \<mapsto> payload_update f n), head, s)"
  shows "dseg h pv p as lt NULL \<Longrightarrow> distinct as \<Longrightarrow> length as < fuel \<Longrightarrow>
     \<forall>a \<in> set as. P (payload (the (h a))) \<Longrightarrow>
     RRR_LL_ITERATE_AT fuel body d False p False (h, head, s) =
       Inr (upd_payloads f (set as) h, head, s)"
proof (induction as arbitrary: pv p h fuel)
  case Nil
  then show ?case by (cases fuel) auto
next
  case (Cons a as)
  then obtain n g where n: "h a = Some n" "p = Some a" "dseg h (Some a) (ptr_next n) as lt NULL"
      "fuel = Suc g" "P (payload n)"
    by (cases fuel) auto
  let ?h = "h(a \<mapsto> payload_update f n)"
  have "\<forall>b \<in> set as. P (payload (the (?h b)))" using Cons.prems(2,4) by auto
  with Cons.IH [of ?h "Some a" "ptr_next n" g] Cons.prems n
  have "RRR_LL_ITERATE_AT g body d False (ptr_next n) False (?h, head, s) =
          Inr (upd_payloads f (set as) ?h, head, s)"
    by (simp del: fun_upd_apply)
  with n assms [of h a n] Cons.prems(2) show ?case
    by (simp add: Let_def ll_continue_def upd_payloads_step del: fun_upd_apply)
qed

lemma RRR_LL_ITERATE_update:
  assumes "dll h head as" "length as < fuel" "\<forall>a \<in> set as. P (payload (the (h a)))"
    and "\<And>h a n s. h a = Some n \<Longrightarrow> P (payload n) \<Longrightarrow>
           body (Some a) (ptr_prev n) (ptr_next n) (h, head, s) =
           Inr (ll_continue, h(a \<mapsto> payload_update f n), head, s)"
  shows "RRR_LL_ITERATE fuel body d False (h, head, s) = Inr (upd_payloads f (set as) h, head, s)"
proof -
  have "dseg h NULL (ptr_first head) as (ptr_last head) NULL" "distinct as"
    using assms(1) by (simp_all add: dll_def)
  then show ?thesis
    using ITERATE_AT_update [where P = P and f = f and body = body and head = head, OF assms(4)]
      assms(2,3)
    by (simp add: RRR_LL_ITERATE_def)
qed

subsection \<open>Rotation\<close>

lemma ROTATE_walk:
  "dseg h pv p xs q r \<Longrightarrow> i + int (length xs) = pos \<Longrightarrow>
   RRR_LL_ITERATE_AT (length xs + fuel) (RRR_LL_ROTATE_body pos) None False p False (h, head, i) =
   RRR_LL_ITERATE_AT fuel (RRR_LL_ROTATE_body pos) None False r False (h, head, pos)"
proof (induction xs arbitrary: pv p i)
  case (Cons a xs)
  then show ?case
    by (auto simp: RRR_LL_ROTATE_body_def ll_continue_def Let_def)
qed simp

lemma ROTATE_body_ok:
  assumes "dll h head (xs @ b # zs)" "xs \<noteq> []"
  shows "\<exists>h' head'. RRR_LL_ROTATE_body pos (Some b) prev nxt (h, head, pos) =
             Inr (ll_continue\<lparr>immediate_break := True\<rparr>, h', head', pos + 1) \<and>
           dll h' head' ((b # zs) @ xs) \<and> relink (set (xs @ b # zs)) h h'"
proof -
  consider (one) p where "xs = [p]" | (more) a xs' p where "xs = a # xs' @ [p]"
    using assms(2) by (metis append_Cons append_self_conv2 list.exhaust rev_exhaust)
  then show ?thesis
    using assms(1)
    by cases (cases zs rule: rev_cases;
      auto simp: RRR_LL_ROTATE_body_def dll_def relink_def Let_def)+
qed

lemma RRR_LL_ROTATE_ok:
  assumes "dll h head as" "0 < pos" "pos < length as" "length as < fuel"
  shows "\<exists>h' head'. RRR_LL_ROTATE fuel h head (int pos) = Inr (h', head') \<and>
           dll h' head' (rotate pos as) \<and> relink (set as) h h'"
proof -
  define xs b zs where "xs = take pos as" and "b = as ! pos" and "zs = drop (Suc pos) as"
  then have split: "as = xs @ b # zs" "length xs = pos" "xs \<noteq> []"
    using assms(2,3) by (auto simp: id_take_nth_drop)
  then have rot: "rotate pos as = (b # zs) @ xs"
    by (metis rotate_append)
  from assms(4) split obtain g where fuel: "fuel = length xs + Suc g"
    by (metis add_Suc_right assms(3) less_imp_Suc_add add.commute less_trans)
  have "dseg h NULL (ptr_first head) as (ptr_last head) NULL" using assms(1) by (simp add: dll_def)
  then obtain q where pre: "dseg h NULL (ptr_first head) xs q (Some b)" unfolding split(1) by auto
  from assms(1) obtain n where n: "h b = Some n" unfolding split(1) by (rule dll_middle)
  from ROTATE_body_ok [OF assms(1) [unfolded split(1)] split(3)] obtain h' head' where
    "RRR_LL_ROTATE_body (int pos) (Some b) (ptr_prev n) (ptr_next n) (h, head, int pos) =
       Inr (ll_continue\<lparr>immediate_break := True\<rparr>, h', head', int pos + 1)"
    "dll h' head' ((b # zs) @ xs)" "relink (set as) h h'"
    unfolding split(1) by blast
  moreover have "RRR_LL_COUNT head = int (length as)" using assms(1) by (rule dll_count)
  ultimately show ?thesis
    using ROTATE_walk [OF pre, of 0 "int pos" "Suc g" head] n assms(2,3) split(2)
    by (simp add: RRR_LL_ROTATE_def RRR_LL_ITERATE_def fuel rot)
qed

lemma RRR_LL_ROTATE_zero:
  assumes "dll h head as" "2 \<le> length as" "0 < fuel"
  shows "RRR_LL_ROTATE fuel h head 0 = Inl Bad_Access"
proof -
  obtain f where f: "fuel = Suc f" using assms(3) by (cases fuel) auto
  from assms(1,2) obtain a bs n where "as = a # bs" "h a = Some n" "ptr_first head = Some a"
      "ptr_prev n = NULL"
    by (cases as) (auto simp: dll_def)
  then show ?thesis
    using dll_count [OF assms(1)] assms(2)
    by (auto simp: RRR_LL_ROTATE_def RRR_LL_ITERATE_def RRR_LL_ROTATE_body_def f)
qed

subsection \<open>The checks made by the debug macros\<close>

lemma RRR_LL_VERIFY_HEAD_ok:
  assumes "dll h head as"
  shows "RRR_LL_VERIFY_HEAD head = Inr ()"
  using dll_first [OF assms] dll_last [OF assms] assms
  by (cases as) (simp_all add: RRR_LL_VERIFY_HEAD_def dll_def)

lemma RRR_LL_VERIFY_NODE_ok:
  assumes "dll h head (as @ a # bs)"
  shows "RRR_LL_VERIFY_NODE h head (Some a) = Inr ()"
proof -
  obtain n where n: "h a = Some n" "ptr_prev n = (if as = [] then NULL else Some (last as))"
    "ptr_next n = (case bs of [] \<Rightarrow> NULL | b # _ \<Rightarrow> Some b)" using assms by (rule dll_middle)
  have "ptr_first head = Some a \<longleftrightarrow> as = []" "ptr_last head = Some a \<longleftrightarrow> bs = []"
    using dll_first [OF assms] dll_last [OF assms] assms
    by (cases as; cases bs rule: rev_cases; auto simp: dll_def)+
  then show ?thesis
    using n by (cases bs) (simp_all add: RRR_LL_VERIFY_NODE_def)
qed

subsection \<open>The list as a sequence\<close>

text \<open>Append at the end and shift from the front, on the nodes' addresses.\<close>

definition ll_rep :: "'a ll_heap \<times> ll_head \<Rightarrow> addr list \<Rightarrow> bool" where
  "ll_rep c as = dll (fst c) (snd c) as"

definition ll_room :: "'a ll_heap \<times> ll_head \<Rightarrow> addr list \<Rightarrow> bool" where
  "ll_room c bs \<longleftrightarrow>
     (\<exists>as. dll (fst c) (snd c) as \<and> distinct (as @ bs) \<and> set bs \<subseteq> dom (fst c) \<and>
           int (length as + length bs) \<le> INT_MAX)"

definition ll_append :: "'a ll_heap \<times> ll_head \<Rightarrow> addr \<Rightarrow> ('a ll_heap \<times> ll_head) res" where
  "ll_append c a = RRR_LL_APPEND (fst c) (snd c) (Some a)"

interpretation ll: seq_container ll_rep ll_room ll_append "\<lambda>c. RRR_LL_SHIFT (fst c) (snd c)"
proof
  fix c :: "'a ll_heap \<times> ll_head" and xs :: "addr list" and y ys
  assume rep: "ll_rep c xs" and room: "ll_room c (y # ys)"
  obtain h head where c: "c = (h, head)" by (cases c)
  from rep room have *: "dll h head xs" "distinct (xs @ y # ys)" "set (y # ys) \<subseteq> dom h"
      "int (length xs + length (y # ys)) \<le> INT_MAX"
    unfolding ll_rep_def ll_room_def c by (auto dest: dll_unique)
  then obtain n where "h y = Some n" by auto
  with * RRR_LL_APPEND_ok [of h head xs y n] obtain h' head' where
    app: "RRR_LL_APPEND h head (Some y) = Inr (h', head')" "dll h' head' (xs @ [y])"
         "relink (set (y # xs)) h h'"
    by auto
  have "set ys \<subseteq> dom h'"
    using *(3) relink_the [OF app(3)] by fastforce
  with app * show "\<exists>c'. ll_append c y = Inr c' \<and> ll_rep c' (xs @ [y]) \<and> ll_room c' ys"
    unfolding ll_append_def ll_rep_def ll_room_def c
    by (intro exI [of _ "(h', head')"]) fastforce
next
  fix c :: "'a ll_heap \<times> ll_head" and xs :: "addr list"
  assume rep: "ll_rep c xs"
  show "\<exists>c'. RRR_LL_SHIFT (fst c) (snd c) = Inr (case xs of [] \<Rightarrow> None | x # _ \<Rightarrow> Some x, c') \<and>
          ll_rep c' (tl xs)"
    using rep RRR_LL_SHIFT_ok [of "fst c" "snd c"] RRR_LL_SHIFT_Nil [of "fst c" "snd c"]
    by (cases xs) (auto simp: ll_rep_def, metis fst_conv snd_conv)
qed

subsection \<open>Properties\<close>

text \<open>A list of two nodes and a free node, used by the witnesses.\<close>

definition demo_node :: "ptr \<Rightarrow> ptr \<Rightarrow> nat \<Rightarrow> nat ll_node" where
  "demo_node p n x = \<lparr>ptr_prev = p, ptr_next = n, payload = x\<rparr>"

definition demo_list_heap :: "nat ll_heap" where
  "demo_list_heap = [1 \<mapsto> demo_node NULL (Some 2) 10, 2 \<mapsto> demo_node (Some 1) NULL 20,
     3 \<mapsto> demo_node NULL NULL 30]"

definition demo_list_head :: ll_head where
  "demo_list_head = \<lparr>ptr_first = Some 1, ptr_last = Some 2, node_count = 2\<rparr>"

lemma demo_list: "dll demo_list_heap demo_list_head [1, 2]" "demo_list_heap 3 = Some (demo_node NULL NULL 30)"
  by (simp_all add: dll_def demo_list_heap_def demo_list_head_def demo_node_def)

text \<open>
  Claim C6: the macros that insert and remove a node refine the list operations. On a well linked
  list, empty or not and of fewer than \<open>INT_MAX\<close> nodes, and for a node \<open>x\<close> of the heap outside it, unshift and append put \<open>x\<close> at the front and at the end. For every node \<open>a\<close> of the list,
  insertion before \<open>a\<close> puts \<open>x\<close> there and removal takes exactly \<open>a\<close> out. The
  result is well linked, its count is right, and only links of the nodes involved change.
\<close>

theorem ll_insert_remove_refine:
  assumes "dll h head cs" "h x = Some n" "x \<notin> set cs" "int (length cs) < INT_MAX"
  shows "(\<exists>h' head'. RRR_LL_UNSHIFT h head (Some x) = Inr (h', head') \<and> dll h' head' (x # cs) \<and> relink (insert x (set cs)) h h') \<and>
     (\<exists>h' head'. RRR_LL_PUSH h head (Some x) = Inr (h', head') \<and> dll h' head' (cs @ [x]) \<and> relink (insert x (set cs)) h h') \<and>
     (\<forall>as a bs. cs = as @ a # bs \<longrightarrow>
        (\<exists>h' head'. RRR_LL_ITERATE_INSERT h head (Some a) (if as = [] then NULL else Some (last as)) (Some x) = Inr (h', head') \<and>
           dll h' head' (as @ x # a # bs) \<and> relink (insert x (set cs)) h h') \<and>
        (\<exists>h' head'. RRR_LL_REMOVE_NODE_NO_FREE h head (Some a) = Inr (h', head') \<and>
           dll h' head' (as @ bs) \<and> relink (set as \<union> set bs) h h'))"
proof (intro conjI allI impI)
  show "\<exists>h' head'. RRR_LL_UNSHIFT h head (Some x) = Inr (h', head') \<and> dll h' head' (x # cs) \<and> relink (insert x (set cs)) h h'"
    using RRR_LL_UNSHIFT_ok [OF assms] by simp
  show "\<exists>h' head'. RRR_LL_PUSH h head (Some x) = Inr (h', head') \<and> dll h' head' (cs @ [x]) \<and> relink (insert x (set cs)) h h'"
    using RRR_LL_APPEND_ok [OF assms] by (simp add: RRR_LL_PUSH_def)
next
  fix as a bs
  assume cs: "cs = as @ a # bs"
  show "\<exists>h' head'. RRR_LL_ITERATE_INSERT h head (Some a) (if as = [] then NULL else Some (last as)) (Some x) = Inr (h', head') \<and>
      dll h' head' (as @ x # a # bs) \<and> relink (insert x (set cs)) h h'"
    using RRR_LL_ITERATE_INSERT_ok [OF assms [unfolded cs] refl] unfolding cs .
  show "\<exists>h' head'. RRR_LL_REMOVE_NODE_NO_FREE h head (Some a) = Inr (h', head') \<and> dll h' head' (as @ bs) \<and> relink (set as \<union> set bs) h h'"
    by (rule RRR_LL_REMOVE_NODE_NO_FREE_ok [OF assms(1) [unfolded cs]])
qed

theorem ll_insert_remove_refine_witness:
  "(\<exists>h' head'. RRR_LL_UNSHIFT demo_list_heap demo_list_head (Some 3) = Inr (h', head') \<and>
      dll h' head' [3, 1, 2] \<and> relink {1, 2, 3} demo_list_heap h') \<and>
   (\<exists>h' head'. RRR_LL_PUSH demo_list_heap demo_list_head (Some 3) = Inr (h', head') \<and>
      dll h' head' [1, 2, 3] \<and> relink {1, 2, 3} demo_list_heap h') \<and>
   (\<exists>h' head'. RRR_LL_ITERATE_INSERT demo_list_heap demo_list_head (Some 2) (Some 1) (Some 3)
        = Inr (h', head') \<and>
      dll h' head' [1, 3, 2] \<and> relink {1, 2, 3} demo_list_heap h') \<and>
   (\<exists>h' head'. RRR_LL_REMOVE_NODE_NO_FREE demo_list_heap demo_list_head (Some 2) = Inr (h', head') \<and>
      dll h' head' [1] \<and> relink {1} demo_list_heap h')"
proof -
  have "3 \<notin> set [1, 2 :: addr]" "int (length [1, 2 :: addr]) < INT_MAX" by (simp_all add: INT_MAX_def)
  note refine = ll_insert_remove_refine [OF demo_list this]
  note parts = refine [THEN conjunct1] refine [THEN conjunct2, THEN conjunct1]
    refine [THEN conjunct2, THEN conjunct2, rule_format, of "[1]" 2 "[]"]
  have sets: "insert 3 (set [1, 2]) = {1, 2, 3 :: addr}" by auto
  show ?thesis using parts unfolding sets by simp
qed

text \<open>
  A list is a first-in first-out queue. Nodes appended one after the other to a list
  come out of repeated shifts in the order of arrival, after those that were in it, and the list
  is empty then.
\<close>

theorem ll_first_in_first_out:
  assumes "ll_rep c as" "ll_room c bs"
  shows "\<exists>c' c''. append_all ll_append c bs = Inr c' \<and>
    shift_many (\<lambda>c. RRR_LL_SHIFT (fst c) (snd c)) (length as + length bs) c' =
      Inr (map Some (as @ bs), c'') \<and> ll_rep c'' []"
  using assms by (rule ll.fifo_order)

theorem ll_first_in_first_out_witness:
  "\<exists>c' c''. append_all ll_append (demo_list_heap, demo_list_head) [3] = Inr c' \<and>
    shift_many (\<lambda>c. RRR_LL_SHIFT (fst c) (snd c)) 3 c' = Inr ([Some 1, Some 2, Some 3], c'') \<and>
    ll_rep c'' []"
proof -
  have "ll_room (demo_list_heap, demo_list_head) [3]"
    using demo_list unfolding ll_room_def by (intro exI [of _ "[1, 2]"]) (auto simp: INT_MAX_def)
  with ll_first_in_first_out [of "(demo_list_heap, demo_list_head)" "[1, 2]" "[3]"] demo_list
  show ?thesis by (simp add: ll_rep_def eval_nat_numeral)
qed

text \<open>
  Claim C8: the loop \<open>RRR_LL_ITERATE_BEGIN ... RRR_LL_ITERATE_END_CHECK_DESTROY\<close>, with a body that
  decides from the payload and its own state, and a destructor that frees the node, returns and is
  the left-to-right visit of the list: the same final state, the nodes kept are exactly those the
  body did not destroy, a stop or an immediate break ends it at the right node, the list is well
  linked and nothing outside it changes.
\<close>

theorem ll_iterate_is_visit:
  assumes "pure_body body vp" "frees_node d" "dll h head as" "length as < fuel"
  shows "\<exists>h' head'.
     RRR_LL_ITERATE fuel body (Some d) False (h, head, s)
       = Inr (h', head', snd (ll_visit (\<lambda>a. vp (payload (the (h a)))) as s)) \<and>
     dll h' head' (fst (ll_visit (\<lambda>a. vp (payload (the (h a)))) as s)) \<and>
     (\<forall>b. b \<notin> set as \<longrightarrow> h' b = h b)"
  using assms by (rule RRR_LL_ITERATE_ok)

definition demo_body :: "(nat, nat) ll_body" where
  "demo_body node prev nxt st = (case st of (h, head, s) \<Rightarrow>
     bindr (load h node) (\<lambda>n. Inr (ll_continue\<lparr>iterate_destroy := payload n < 15\<rparr>, h, head, s + payload n)))"

definition demo_destroy :: "ptr \<Rightarrow> (nat, nat) ll_state \<Rightarrow> (c_int \<times> (nat, nat) ll_state) res" where
  "demo_destroy node st = (case st of (h, head, s) \<Rightarrow>
     bindr (release h node) (\<lambda>h. Inr (RRR_LL_DID_DESTROY, h, head, s)))"

theorem ll_iterate_is_visit_witness:
  "\<exists>h' head'. RRR_LL_ITERATE 3 demo_body (Some demo_destroy) False (demo_list_heap, demo_list_head, 0)
       = Inr (h', head', 30) \<and> dll h' head' [2]"
proof -
  let ?v = "\<lambda>x s. (ll_continue\<lparr>iterate_destroy := x < 15\<rparr>, s + x)"
  have "pure_body demo_body ?v" "frees_node demo_destroy"
    by (simp_all add: pure_body_def demo_body_def frees_node_def demo_destroy_def)
  from ll_iterate_is_visit [OF this demo_list(1), of 3 0]
  have "\<exists>h' head'. RRR_LL_ITERATE 3 demo_body (Some demo_destroy) False (demo_list_heap, demo_list_head, 0)
       = Inr (h', head', snd (ll_visit (\<lambda>a. ?v (payload (the (demo_list_heap a)))) [1, 2] 0)) \<and>
      dll h' head' (fst (ll_visit (\<lambda>a. ?v (payload (the (demo_list_heap a)))) [1, 2] 0))"
    by auto
  moreover have "ll_visit (\<lambda>a. ?v (payload (the (demo_list_heap a)))) [1, 2] 0 = ([2], 30)"
    by (simp add: demo_list_heap_def demo_node_def ll_continue_def Let_def)
  ultimately show ?thesis by simp
qed

text \<open>
  Claim C32: \<open>RRR_LL_DESTROY\<close> with a destructor that frees its node returns, frees every node of the
  list once and no other, and leaves an empty, usable head.
\<close>

theorem ll_destroy_frees_all:
  assumes "dll h head as" "length as < fuel"
  shows "\<exists>head'. RRR_LL_DESTROY fuel free_node (h, head, s) = Inr (h |` (- set as), head', s) \<and>
           dll (h |` (- set as)) head' [] \<and> RRR_LL_IS_EMPTY head' \<and> RRR_LL_COUNT head' = 0"
  using RRR_LL_DESTROY_ok [OF assms, of s] dll_empty_iff dll_count by fastforce

theorem ll_destroy_frees_all_witness:
  "\<exists>head'. RRR_LL_DESTROY 3 free_node (demo_list_heap, demo_list_head, ()) =
      Inr ([3 \<mapsto> demo_node NULL NULL 30], head', ()) \<and> RRR_LL_COUNT head' = 0"
proof -
  have "demo_list_heap |` (- set [1, 2]) = [3 \<mapsto> demo_node NULL NULL 30]"
    by (auto simp: demo_list_heap_def restrict_map_def fun_eq_iff)
  then show ?thesis using ll_destroy_frees_all [OF demo_list(1), of 3 "()"] by auto
qed

text \<open>
  \<open>RRR_LL_ROTATE\<close> accepts position 0 (its assertions are \<open>pos < count\<close> and \<open>pos \<ge> 0\<close>), and
  on every list of two or more nodes that call reads through the first node's NULL \<open>ptr_prev\<close>.
\<close>

theorem ll_rotate_zero_crashes:
  assumes "dll h head as" "2 \<le> length as" "0 < fuel"
  shows "RRR_LL_ROTATE fuel h head 0 = Inl Bad_Access"
  using assms by (rule RRR_LL_ROTATE_zero)

theorem ll_rotate_zero_crashes_witness: "RRR_LL_ROTATE 3 demo_list_heap demo_list_head 0 = Inl Bad_Access"
  using ll_rotate_zero_crashes [OF demo_list(1), of 3] by simp

end
