(* ===== verification/RRR_Instance_Friends.thy ===== *)
theory RRR_Instance_Friends
  imports RRR_Types
begin

text \<open>
  Collections of instance friends, \<^verbatim>\<open>src/lib/instance_friends.c\<close>: the senders of an instance and the next hops of a message. An
  instance is a number here, which stands for its address. The collection is the list of its nodes. A collection has each instance at most once.
\<close>

record instance_friend =
  finstance :: nat
  parameter :: ptr

definition rrr_instance_friend_collection_check_empty :: "instance_friend list \<Rightarrow> bool" where
  "rrr_instance_friend_collection_check_empty collection \<longleftrightarrow> collection = []"

fun rrr_instance_friend_collection_check_exists :: "instance_friend list \<Rightarrow> nat \<Rightarrow> bool" where
  "rrr_instance_friend_collection_check_exists [] sender = False"
| "rrr_instance_friend_collection_check_exists (node # collection) sender =
     (finstance node = sender \<or> rrr_instance_friend_collection_check_exists collection sender)"

fun rrr_instance_friend_collection_remove :: "instance_friend list \<Rightarrow> nat \<Rightarrow> instance_friend list" where
  "rrr_instance_friend_collection_remove [] sender = []"
| "rrr_instance_friend_collection_remove (node # collection) sender =
     (if finstance node = sender then collection else node # rrr_instance_friend_collection_remove collection sender)"

definition rrr_instance_friend_collection_append ::
    "bool \<Rightarrow> instance_friend list \<Rightarrow> nat \<Rightarrow> ptr \<Rightarrow> c_int \<times> instance_friend list" where
  "rrr_instance_friend_collection_append have_memory collection sender p =
     (if rrr_instance_friend_collection_check_exists collection sender then (1, collection)
      else if \<not> have_memory then (1, collection)
      else (0, collection @ [\<lparr>finstance = sender, parameter = p\<rparr>]))"

fun rrr_instance_friend_collection_append_from ::
    "(nat \<Rightarrow> bool) \<Rightarrow> nat \<Rightarrow> instance_friend list \<Rightarrow> instance_friend list \<Rightarrow> c_int \<times> instance_friend list" where
  "rrr_instance_friend_collection_append_from mem n target [] = (0, target)"
| "rrr_instance_friend_collection_append_from mem n target (node # source) =
     (case rrr_instance_friend_collection_append (mem n) target (finstance node) (parameter node) of (ret, target) \<Rightarrow>
        if ret \<noteq> 0 then (ret, target) else rrr_instance_friend_collection_append_from mem (n + 1) target source)"

definition rrr_instance_friend_collection_clear :: "instance_friend list \<Rightarrow> instance_friend list" where
  "rrr_instance_friend_collection_clear collection = []"

definition rrr_instance_friend_collection_count :: "instance_friend list \<Rightarrow> nat" where
  "rrr_instance_friend_collection_count collection = length collection"

fun rrr_instance_friend_collection_iterate ::
    "(nat \<Rightarrow> ptr \<Rightarrow> 'w \<Rightarrow> c_int \<times> 'w) \<Rightarrow> instance_friend list \<Rightarrow> 'w \<Rightarrow> c_int \<times> 'w" where
  "rrr_instance_friend_collection_iterate callback [] w = (0, w)"
| "rrr_instance_friend_collection_iterate callback (node # collection) w =
     (case callback (finstance node) (parameter node) w of (ret, w) \<Rightarrow>
        if ret \<noteq> 0 then (ret, w) else rrr_instance_friend_collection_iterate callback collection w)"

definition rrr_instance_friend_collection_iterate_const ::
    "(nat \<Rightarrow> ptr \<Rightarrow> 'w \<Rightarrow> c_int \<times> 'w) \<Rightarrow> instance_friend list \<Rightarrow> 'w \<Rightarrow> c_int \<times> 'w" where
  "rrr_instance_friend_collection_iterate_const callback collection w = rrr_instance_friend_collection_iterate callback collection w"

subsection \<open>Each instance at most once\<close>

abbreviation members :: "instance_friend list \<Rightarrow> nat list" where
  "members \<equiv> map finstance"

lemma check_exists_iff [simp]: "rrr_instance_friend_collection_check_exists c i \<longleftrightarrow> i \<in> set (members c)"
  by (induction c) auto

lemma remove_members: "members (rrr_instance_friend_collection_remove c i) = remove1 i (members c)"
  by (induction c) auto

lemma append_ok:
  assumes "distinct (members c)"
  shows "case rrr_instance_friend_collection_append ok c i p of (ret, c') \<Rightarrow> distinct (members c') \<and>
    (ret = 0 \<and> members c' = members c @ [i] \<or> ret = 1 \<and> c' = c \<and> (i \<in> set (members c) \<or> \<not> ok))"
  using assms by (auto simp: rrr_instance_friend_collection_append_def)

lemma append_from_copies:
  "distinct (members (target @ source)) \<Longrightarrow>
   (\<exists>c. rrr_instance_friend_collection_append_from mem n target source = (1, target @ take c source) \<and> \<not> mem (n + c) \<and> (\<forall>i < c. mem (n + i)) \<and> c < length source) \<or>
   rrr_instance_friend_collection_append_from mem n target source = (0, target @ source) \<and> (\<forall>i < length source. mem (n + i))"
proof (induction mem n target source rule: rrr_instance_friend_collection_append_from.induct)
  case (2 mem n target node source)
  show ?case
  proof (cases "mem n")
    case True
    have a: "rrr_instance_friend_collection_append True target (finstance node) (parameter node) = (0, target @ [node])"
      using 2(2) by (auto simp: rrr_instance_friend_collection_append_def)
    from 2(1) [of 0 "target @ [node]"] True a 2(2)
    consider c where "rrr_instance_friend_collection_append_from mem (Suc n) (target @ [node]) source = (1, target @ node # take c source)"
        "\<not> mem (Suc (n + c))" "\<forall>i < c. mem (Suc (n + i))" "c < length source"
      | "rrr_instance_friend_collection_append_from mem (Suc n) (target @ [node]) source = (0, target @ node # source)"
        "\<forall>i < length source. mem (Suc (n + i))" by auto
    then show ?thesis
    proof cases
      case 1
      with True a show ?thesis by (intro disjI1 exI [of _ "Suc c"]) (simp add: All_less_Suc2)
    qed (use True a in \<open>simp add: All_less_Suc2\<close>)
  next
    case False
    with 2(2) show ?thesis by (intro disjI1 exI [of _ 0]) (auto simp: rrr_instance_friend_collection_append_def)
  qed
qed simp

end
