(* ===== verification/RRR_Msg_Holder.thy ===== *)
theory RRR_Msg_Holder
  imports RRR_Linked_List RRR_Instance_Friends
begin

text \<open>
  Message holders and collections of them: \<^verbatim>\<open>src/lib/message_holder/message_holder.c\<close>,
  \<^verbatim>\<open>message_holder_util.c\<close> and \<^verbatim>\<open>message_holder_collection.c\<close>. A holder is the payload of a list
  node. Its mutex is recursive; \<open>lock_depth\<close> counts how often the running thread holds it.
  \<open>rrr_msg_holder_lock\<close> waits until no other thread holds the mutex, so what it does to this
  thread's view is to add one to the depth. Unlocking a mutex that is not held fails in
  \<^verbatim>\<open>pthread_mutex_unlock\<close>, and the code ignores that. The message and the next hops are values
  here; the memory they occupy goes away with the holder. The fields \<^verbatim>\<open>source\<close>, \<^verbatim>\<open>bytes_sent\<close>, \<^verbatim>\<open>bytes_to_send\<close>,
  \<^verbatim>\<open>endian_indicator\<close> and \<^verbatim>\<open>private_data_destroy\<close> are left out: the functions here only clear them, and the destructor of private
  data is code of the modules.
\<close>

record msg_holder =
  lock_depth :: nat
  usercount :: int
  data_length :: u64
  addr :: "u8 list"
  addr_len :: u32
  protocol :: u8
  message :: "u8 list option"
  buffer_time :: u64
  nexthops :: "instance_friend list"
  send_time :: u64
  send_index :: u64
  private_data :: ptr

type_synonym holder_heap = "msg_holder ll_heap"

subsection \<open>Locks and references\<close>

definition rrr_msg_holder_lock :: "holder_heap \<Rightarrow> ptr \<Rightarrow> holder_heap res" where
  "rrr_msg_holder_lock h entry =
     bindr (load h entry) (\<lambda>n.
     bug_if (usercount (payload n) \<le> 0)
       (modify h entry (payload_update (\<lambda>e. e\<lparr>lock_depth := lock_depth e + 1\<rparr>))))"

definition rrr_msg_holder_lock_double :: "holder_heap \<Rightarrow> ptr \<Rightarrow> holder_heap res" where
  "rrr_msg_holder_lock_double h entry =
     bindr (rrr_msg_holder_lock h entry) (\<lambda>h.
     modify h entry (payload_update (\<lambda>e. e\<lparr>lock_depth := lock_depth e + 1\<rparr>)))"

definition rrr_msg_holder_unlock :: "holder_heap \<Rightarrow> ptr \<Rightarrow> holder_heap res" where
  "rrr_msg_holder_unlock h entry =
     bindr (load h entry) (\<lambda>n.
     bug_if (usercount (payload n) \<le> 0)
       (modify h entry (payload_update (\<lambda>e. e\<lparr>lock_depth := lock_depth e - 1\<rparr>))))"

definition rrr_msg_holder_private_data_clear :: "msg_holder \<Rightarrow> msg_holder" where
  "rrr_msg_holder_private_data_clear e = e\<lparr>private_data := NULL\<rparr>"

definition rrr_msg_holder_decref_while_locked_and_unlock ::
    "holder_heap \<Rightarrow> ptr \<Rightarrow> holder_heap res" where
  "rrr_msg_holder_decref_while_locked_and_unlock h entry =
     bindr (load h entry) (\<lambda>n.
     bug_if (usercount (payload n) \<le> 0)
       (if usercount (payload n) - 1 = 0 then
          bindr (modify h entry (payload_update (\<lambda>e.
            (rrr_msg_holder_private_data_clear (e\<lparr>message := None\<rparr>))\<lparr>nexthops := [], usercount := 1\<rparr>)))
            (\<lambda>h.
          bindr (rrr_msg_holder_unlock h entry) (\<lambda>h.
          bindr (modify h entry (payload_update (\<lambda>e. e\<lparr>usercount := -1\<rparr>))) (\<lambda>h.
          release h entry)))
        else
          bindr (modify h entry (payload_update (\<lambda>e. e\<lparr>usercount := usercount e - 1\<rparr>))) (\<lambda>h.
          rrr_msg_holder_unlock h entry)))"

definition rrr_msg_holder_incref_while_locked :: "holder_heap \<Rightarrow> ptr \<Rightarrow> holder_heap res" where
  "rrr_msg_holder_incref_while_locked h entry =
     bindr (load h entry) (\<lambda>n.
     bug_if (usercount (payload n) \<le> 0)
       (bindr (int_inc (usercount (payload n))) (\<lambda>c.
        modify h entry (payload_update (\<lambda>e. e\<lparr>usercount := c\<rparr>)))))"

definition rrr_msg_holder_incref :: "holder_heap \<Rightarrow> ptr \<Rightarrow> holder_heap res" where
  "rrr_msg_holder_incref h entry =
     bindr (rrr_msg_holder_lock h entry) (\<lambda>h.
     bindr (rrr_msg_holder_incref_while_locked h entry) (\<lambda>h.
     rrr_msg_holder_unlock h entry))"

definition rrr_msg_holder_decref :: "holder_heap \<Rightarrow> ptr \<Rightarrow> holder_heap res" where
  "rrr_msg_holder_decref h entry =
     bindr (rrr_msg_holder_lock h entry) (\<lambda>h.
     rrr_msg_holder_decref_while_locked_and_unlock h entry)"

text \<open>
  The allocator picks the address: \<open>entry\<close> is what \<open>rrr_allocate_group\<close> returned, NULL when
  it is out of memory; \<open>lock_init\<close> is the return value of the mutex initialisation. The
  address buffer holds 128 bytes (\<^verbatim>\<open>struct sockaddr_storage\<close>).
\<close>

definition sockaddr_storage_size :: nat where "sockaddr_storage_size = 128"

definition zero_addr :: "u8 list" where "zero_addr = replicate sockaddr_storage_size 0"

definition rrr_msg_holder_new ::
    "holder_heap \<Rightarrow> ptr \<Rightarrow> c_int \<Rightarrow> u64 \<Rightarrow> u8 list option \<Rightarrow> u32 \<Rightarrow> u8 \<Rightarrow> u8 list option \<Rightarrow>
     (c_int \<times> ptr \<times> holder_heap) res" where
  "rrr_msg_holder_new h entry lock_init data_len address address_len proto msg =
     (case entry of
        None \<Rightarrow> Inr (1, NULL, h)
      | Some a \<Rightarrow>
          if lock_init \<noteq> 0 then Inr (1, NULL, h)
          else bug_if (unat address_len > sockaddr_storage_size)
            (let stored = (case address of None \<Rightarrow> zero_addr
                           | Some bs \<Rightarrow> take (unat address_len) bs @ drop (unat address_len) zero_addr);
                 e = \<lparr>lock_depth = 0, usercount = 1, data_length = data_len, addr = stored,
                      addr_len = address_len, protocol = proto, message = msg, buffer_time = 0,
                      nexthops = [], send_time = 0, send_index = 0, private_data = NULL\<rparr> in
             Inr (0, Some a, h(a \<mapsto> \<lparr>ptr_prev = NULL, ptr_next = NULL, payload = e\<rparr>))))"

definition rrr_msg_holder_nexthops_reset :: "msg_holder \<Rightarrow> msg_holder" where
  "rrr_msg_holder_nexthops_reset e = e\<lparr>nexthops := rrr_instance_friend_collection_clear (nexthops e)\<rparr>"

definition rrr_msg_holder_nexthops_set ::
    "(nat \<Rightarrow> bool) \<Rightarrow> msg_holder \<Rightarrow> instance_friend list option \<Rightarrow> c_int \<times> msg_holder" where
  "rrr_msg_holder_nexthops_set mem e hops =
     (let e = rrr_msg_holder_nexthops_reset e in
      case hops of None \<Rightarrow> (0, e)
      | Some hops \<Rightarrow>
          if hops = [] then (0, e)
          else case rrr_instance_friend_collection_append_from mem 0 (nexthops e) hops of (ret, hops) \<Rightarrow> (ret, e\<lparr>nexthops := hops\<rparr>))"

definition rrr_msg_holder_nexthop_ok :: "msg_holder \<Rightarrow> nat \<Rightarrow> bool" where
  "rrr_msg_holder_nexthop_ok e instance_id \<longleftrightarrow>
     rrr_instance_friend_collection_check_empty (nexthops e) \<or> rrr_instance_friend_collection_check_exists (nexthops e) instance_id"

definition rrr_msg_holder_nexthop_count :: "msg_holder \<Rightarrow> nat" where
  "rrr_msg_holder_nexthop_count e = rrr_instance_friend_collection_count (nexthops e)"

definition rrr_msg_holder_address_matches :: "msg_holder \<Rightarrow> msg_holder \<Rightarrow> bool" where
  "rrr_msg_holder_address_matches a b \<longleftrightarrow>
     addr_len a = addr_len b \<and>
     (addr_len a = 0 \<or> take (unat (addr_len a)) (addr a) = take (unat (addr_len a)) (addr b)) \<and>
     protocol a = protocol b"

definition rrr_msg_holder_util_index_compare :: "msg_holder \<Rightarrow> msg_holder \<Rightarrow> int" where
  "rrr_msg_holder_util_index_compare a b =
     (if send_index a > send_index b then 1 else 0) - (if send_index a < send_index b then 1 else 0)"

text \<open>
  \<open>now\<close> is what \<open>rrr_time_get_64\<close> returns. The check of both timeouts can call it twice, and \<open>now'\<close> is what the second call
  returns. The timestamp of the message is a parameter, as the
  message is only a byte string here. The result is \<open>(ttl_timeout, timeout)\<close>.
\<close>

definition rrr_msg_msg_ttl_ok :: "u64 \<Rightarrow> u64 \<Rightarrow> u64 \<Rightarrow> bool" where
  "rrr_msg_msg_ttl_ok now timestamp ttl \<longleftrightarrow> ttl > now \<or> \<not> timestamp < now - ttl"

definition rrr_msg_holder_util_timeout_check ::
    "u64 \<Rightarrow> u64 \<Rightarrow> u64 \<Rightarrow> u64 \<Rightarrow> u64 \<Rightarrow> msg_holder \<Rightarrow> bool \<times> bool" where
  "rrr_msg_holder_util_timeout_check now now' timestamp ttl_us timeout_us e =
     (if ttl_us > 0 \<and> \<not> rrr_msg_msg_ttl_ok now timestamp ttl_us then (True, False)
      else if timeout_us > 0 \<and> send_time e > 0 \<and> send_time e < now' - timeout_us then (False, True)
      else (False, False))"

subsection \<open>Collections\<close>

definition rrr_msg_holder_collection_clear ::
    "nat \<Rightarrow> holder_heap \<Rightarrow> ll_head \<Rightarrow> (holder_heap \<times> ll_head) res" where
  "rrr_msg_holder_collection_clear fuel h collection =
     bindr (RRR_LL_DESTROY fuel (\<lambda>node h s. bindr (rrr_msg_holder_decref h node) (\<lambda>h. Inr (h, s)))
              (h, collection, ()))
       (\<lambda>(h, collection, s). Inr (h, collection))"

definition lock_body :: "(msg_holder, unit) ll_body" where
  "lock_body node prev nxt st =
     (case st of (h, head, s) \<Rightarrow>
        bindr (rrr_msg_holder_lock h node) (\<lambda>h. Inr (ll_continue, h, head, s)))"

definition unlock_body :: "(msg_holder, unit) ll_body" where
  "unlock_body node prev nxt st =
     (case st of (h, head, s) \<Rightarrow>
        bindr (rrr_msg_holder_unlock h node) (\<lambda>h. Inr (ll_continue, h, head, s)))"

text \<open>The two loops that lock and unlock every holder, when \<open>do_lock\<close> is set.\<close>

definition collection_lock_all ::
    "nat \<Rightarrow> (msg_holder, unit) ll_body \<Rightarrow> bool \<Rightarrow> holder_heap \<Rightarrow> ll_head \<Rightarrow> (holder_heap \<times> ll_head) res" where
  "collection_lock_all fuel body do_lock h target =
     (if do_lock then
        bindr (RRR_LL_ITERATE fuel body None False (h, target, ())) (\<lambda>(h, target, s). Inr (h, target))
      else Inr (h, target))"

definition smallest_body :: "(msg_holder \<Rightarrow> msg_holder \<Rightarrow> int) \<Rightarrow> (msg_holder, ptr) ll_body" where
  "smallest_body compare node prev nxt st =
     (case st of (h, head, smallest) \<Rightarrow>
        bindr (load h node) (\<lambda>a.
        bindr (load h smallest) (\<lambda>b.
        Inr (ll_continue, h, head, if compare (payload a) (payload b) < 0 then node else smallest))))"

fun collection_sort_loop ::
    "nat \<Rightarrow> nat \<Rightarrow> (msg_holder \<Rightarrow> msg_holder \<Rightarrow> int) \<Rightarrow> holder_heap \<Rightarrow> ll_head \<Rightarrow> ll_head \<Rightarrow>
     (holder_heap \<times> ll_head \<times> ll_head) res" where
  "collection_sort_loop 0 iterate_fuel compare h target tmp = Inl Diverge"
| "collection_sort_loop (Suc fuel) iterate_fuel compare h target tmp =
     (if RRR_LL_COUNT target \<noteq> 0 then
        bindr (RRR_LL_ITERATE iterate_fuel (smallest_body compare) None False (h, target, ptr_first target))
          (\<lambda>(h, target, smallest).
        bindr (RRR_LL_REMOVE_NODE_NO_FREE h target smallest) (\<lambda>(h, target).
        bindr (RRR_LL_APPEND h tmp smallest) (\<lambda>(h, tmp).
        collection_sort_loop fuel iterate_fuel compare h target tmp)))
      else Inr (h, target, tmp))"

definition rrr_msg_holder_collection_sort ::
    "nat \<Rightarrow> holder_heap \<Rightarrow> ll_head \<Rightarrow> bool \<Rightarrow> (msg_holder \<Rightarrow> msg_holder \<Rightarrow> int) \<Rightarrow>
     (holder_heap \<times> ll_head) res" where
  "rrr_msg_holder_collection_sort fuel h target do_lock compare =
     bindr (collection_lock_all fuel lock_body do_lock h target) (\<lambda>(h, target).
     bindr (collection_sort_loop fuel fuel compare h target
              \<lparr>ptr_first = NULL, ptr_last = NULL, node_count = 0\<rparr>) (\<lambda>(h, target, tmp).
     collection_lock_all fuel unlock_body do_lock h tmp))"

definition rrr_msg_holder_collection_rotate ::
    "nat \<Rightarrow> holder_heap \<Rightarrow> ll_head \<Rightarrow> int \<Rightarrow> bool \<Rightarrow> (holder_heap \<times> ll_head) res" where
  "rrr_msg_holder_collection_rotate fuel h target pos do_lock =
     bindr (collection_lock_all fuel lock_body do_lock h target) (\<lambda>(h, target).
     bindr (RRR_LL_ROTATE fuel h target pos) (\<lambda>(h, target).
     collection_lock_all fuel unlock_body do_lock h target))"

subsection \<open>Reference counting\<close>

lemma rrr_msg_holder_lock_ok:
  "h a = Some n \<Longrightarrow> 0 < usercount (payload n) \<Longrightarrow>
   rrr_msg_holder_lock h (Some a) =
   Inr (h(a \<mapsto> payload_update (\<lambda>e. e\<lparr>lock_depth := lock_depth e + 1\<rparr>) n))"
  by (simp add: rrr_msg_holder_lock_def)

lemma rrr_msg_holder_unlock_ok:
  "h a = Some n \<Longrightarrow> 0 < usercount (payload n) \<Longrightarrow>
   rrr_msg_holder_unlock h (Some a) =
   Inr (h(a \<mapsto> payload_update (\<lambda>e. e\<lparr>lock_depth := lock_depth e - 1\<rparr>) n))"
  by (simp add: rrr_msg_holder_unlock_def)

lemma payload_update_id [simp]: "payload_update (\<lambda>e. e) n = n"
  by (cases n) simp

lemma rrr_msg_holder_incref_ok:
  "h a = Some n \<Longrightarrow> 0 < usercount (payload n) \<Longrightarrow> usercount (payload n) < INT_MAX \<Longrightarrow>
   rrr_msg_holder_incref h (Some a) =
   Inr (h(a \<mapsto> payload_update (\<lambda>e. e\<lparr>usercount := usercount e + 1\<rparr>) n))"
  by (cases n)
     (simp add: rrr_msg_holder_incref_def rrr_msg_holder_lock_def rrr_msg_holder_unlock_def
       rrr_msg_holder_incref_while_locked_def)

lemma rrr_msg_holder_decref_last:
  "h a = Some n \<Longrightarrow> usercount (payload n) = 1 \<Longrightarrow>
   rrr_msg_holder_decref h (Some a) = Inr (h(a := None))"
  by (simp add: rrr_msg_holder_decref_def rrr_msg_holder_lock_def rrr_msg_holder_unlock_def
      rrr_msg_holder_decref_while_locked_and_unlock_def rrr_msg_holder_private_data_clear_def)

lemma rrr_msg_holder_decref_more:
  "h a = Some n \<Longrightarrow> 1 < usercount (payload n) \<Longrightarrow>
   rrr_msg_holder_decref h (Some a) =
   Inr (h(a \<mapsto> payload_update (\<lambda>e. e\<lparr>usercount := usercount e - 1\<rparr>) n))"
  by (cases n)
     (simp add: rrr_msg_holder_decref_def rrr_msg_holder_lock_def rrr_msg_holder_unlock_def
       rrr_msg_holder_decref_while_locked_and_unlock_def)

text \<open>A dead holder: a count that is not positive stops the program in every operation.\<close>

lemma rrr_msg_holder_dead:
  assumes "h a = Some n" "usercount (payload n) \<le> 0"
  shows "rrr_msg_holder_incref h (Some a) = Inl Bug" "rrr_msg_holder_decref h (Some a) = Inl Bug"
  using assms
  by (simp_all add: rrr_msg_holder_incref_def rrr_msg_holder_decref_def rrr_msg_holder_lock_def)

primrec repeat_op :: "nat \<Rightarrow> (holder_heap \<Rightarrow> holder_heap res) \<Rightarrow> holder_heap \<Rightarrow> holder_heap res" where
  "repeat_op 0 f h = Inr h"
| "repeat_op (Suc k) f h = bindr (f h) (repeat_op k f)"

lemma repeat_incref:
  "h a = Some n \<Longrightarrow> 0 < usercount (payload n) \<Longrightarrow> usercount (payload n) + int k \<le> INT_MAX \<Longrightarrow>
   repeat_op k (\<lambda>h. rrr_msg_holder_incref h (Some a)) h =
   Inr (h(a \<mapsto> payload_update (\<lambda>e. e\<lparr>usercount := usercount e + int k\<rparr>) n))"
proof (induction k arbitrary: h n)
  case 0
  then show ?case by (simp add: fun_upd_idem)
next
  case (Suc k)
  let ?n = "payload_update (\<lambda>e. e\<lparr>usercount := usercount e + 1\<rparr>) n"
  from Suc.prems Suc.IH [of "h(a \<mapsto> ?n)" ?n] show ?case
    by (cases n) (simp add: rrr_msg_holder_incref_ok add.assoc fun_upd_same del: fun_upd_apply)
qed

lemma repeat_decref:
  "h a = Some n \<Longrightarrow> int k < usercount (payload n) \<Longrightarrow>
   repeat_op k (\<lambda>h. rrr_msg_holder_decref h (Some a)) h =
   Inr (h(a \<mapsto> payload_update (\<lambda>e. e\<lparr>usercount := usercount e - int k\<rparr>) n))"
proof (induction k arbitrary: h n)
  case 0
  then show ?case by (simp add: fun_upd_idem)
next
  case (Suc k)
  let ?n = "payload_update (\<lambda>e. e\<lparr>usercount := usercount e - 1\<rparr>) n"
  from Suc.prems Suc.IH [of "h(a \<mapsto> ?n)" ?n] show ?case
    by (cases n) (simp add: rrr_msg_holder_decref_more diff_diff_eq fun_upd_same del: fun_upd_apply)
qed

lemma repeat_op_Suc:
  "repeat_op (Suc k) f h = bindr (repeat_op k f h) f"
proof (induction k arbitrary: h)
  case 0
  show ?case by (cases "f h") simp_all
next
  case (Suc k)
  show ?case by (cases "f h") (use Suc.IH in simp_all)
qed

text \<open>
  Claim C26: the life of a holder. From the call that creates it, with any number \<open>k\<close> of further
  references taken, exactly \<open>k + 1\<close> releases free it: after \<open>k\<close> releases it is alive and as it was
  created, the next one takes it out of the heap and touches nothing else, and one more is an
  access to freed memory.
\<close>

theorem holder_lifetime:
  assumes "h a = None" "unat alen \<le> sockaddr_storage_size" "1 + int k \<le> INT_MAX"
  shows "\<exists>h1 h2. rrr_msg_holder_new h (Some a) 0 dlen address alen proto msg = Inr (0, Some a, h1) \<and>
     repeat_op k (\<lambda>h. rrr_msg_holder_incref h (Some a)) h1 = Inr h2 \<and>
     repeat_op k (\<lambda>h. rrr_msg_holder_decref h (Some a)) h2 = Inr h1 \<and>
     repeat_op (Suc k) (\<lambda>h. rrr_msg_holder_decref h (Some a)) h2 = Inr h \<and>
     repeat_op (Suc (Suc k)) (\<lambda>h. rrr_msg_holder_decref h (Some a)) h2 = Inl Bad_Access"
proof -
  obtain n where n: "rrr_msg_holder_new h (Some a) 0 dlen address alen proto msg
       = Inr (0, Some a, h(a \<mapsto> n))" "usercount (payload n) = 1"
    using assms(2) by (simp add: rrr_msg_holder_new_def Let_def)
  let ?h1 = "h(a \<mapsto> n)" and ?n = "payload_update (\<lambda>e. e\<lparr>usercount := usercount e + int k\<rparr>) n"
  have inc: "repeat_op k (\<lambda>h. rrr_msg_holder_incref h (Some a)) ?h1 = Inr (h(a \<mapsto> ?n))"
    using repeat_incref [of ?h1 a n k] n(2) assms(3) by (simp add: fun_upd_same del: fun_upd_apply)
  have dec: "repeat_op k (\<lambda>h. rrr_msg_holder_decref h (Some a)) (h(a \<mapsto> ?n)) = Inr ?h1"
    using repeat_decref [of "h(a \<mapsto> ?n)" a ?n k] n(2)
    by (cases n) (simp add: fun_upd_same del: fun_upd_apply)
  have last: "rrr_msg_holder_decref ?h1 (Some a) = Inr h"
    using rrr_msg_holder_decref_last [of ?h1 a n] n(2) assms(1)
    by (simp add: fun_upd_same fun_upd_idem del: fun_upd_apply)
  have gone: "rrr_msg_holder_decref h (Some a) = Inl Bad_Access"
    using assms(1) by (simp add: rrr_msg_holder_decref_def rrr_msg_holder_lock_def load_def)
  show ?thesis
    using n(1) inc dec last gone by (auto simp: repeat_op_Suc simp del: repeat_op.simps)
qed

theorem holder_lifetime_witness:
  "\<exists>h1 h2. rrr_msg_holder_new Map.empty (Some 7) 0 3 None 0 1 (Some [1, 2, 3]) = Inr (0, Some 7, h1) \<and>
     repeat_op 2 (\<lambda>h. rrr_msg_holder_incref h (Some 7)) h1 = Inr h2 \<and>
     repeat_op 2 (\<lambda>h. rrr_msg_holder_decref h (Some 7)) h2 = Inr h1 \<and>
     repeat_op (Suc 2) (\<lambda>h. rrr_msg_holder_decref h (Some 7)) h2 = Inr Map.empty \<and>
     repeat_op (Suc (Suc 2)) (\<lambda>h. rrr_msg_holder_decref h (Some 7)) h2 = Inl Bad_Access"
  by (rule holder_lifetime) (simp_all add: sockaddr_storage_size_def INT_MAX_def)

subsection \<open>Sorting and rotating a collection\<close>

text \<open>The loop that finds the smallest holder finds the first of the smallest.\<close>

definition first_min :: "('a \<Rightarrow> 'k::linorder) \<Rightarrow> 'a list \<Rightarrow> 'a \<Rightarrow> 'a list \<Rightarrow> 'a list \<Rightarrow> bool" where
  "first_min k as m xs ys \<longleftrightarrow>
     as = xs @ m # ys \<and> (\<forall>x \<in> set xs. k m < k x) \<and> (\<forall>y \<in> set ys. k m \<le> k y)"

lemma fold_first_min:
  "\<exists>m xs ys. fold (\<lambda>a s. if k a < k s then a else s) (a # as) a = m \<and> first_min k (a # as) m xs ys"
proof (induction as rule: rev_induct)
  case Nil
  show ?case by (auto simp: first_min_def intro: exI [of _ "[]"])
next
  case (snoc b as)
  then obtain m xs ys where m: "fold (\<lambda>a s. if k a < k s then a else s) (a # as) a = m"
    "first_min k (a # as) m xs ys" by blast
  show ?case
  proof (cases "k b < k m")
    case True
    with m(2) have "first_min k (a # as @ [b]) b (a # as) []"
      by (auto simp: first_min_def simp flip: append_Cons)
    with True m(1) show ?thesis by auto
  next
    case False
    with m(2) have "first_min k (a # as @ [b]) m xs (ys @ [b])"
      by (auto simp: first_min_def simp flip: append_Cons)
    with False m(1) show ?thesis by auto
  qed
qed

lemma sort_key_first_min: "first_min k as m xs ys \<Longrightarrow> sort_key k as = m # sort_key k (xs @ ys)"
proof (induction xs arbitrary: as)
  case Nil
  then show ?case by (auto simp: first_min_def insort_is_Cons)
next
  case (Cons x xs)
  then have "sort_key k (xs @ m # ys) = m # sort_key k (xs @ ys)"
    by (auto simp: first_min_def)
  with Cons.prems show ?case by (auto simp: first_min_def)
qed

lemma insort_key_cong': "(\<And>y. y \<in> set (x # ys) \<Longrightarrow> k y = k' y) \<Longrightarrow> insort_key k x ys = insort_key k' x ys"
  by (induction ys) auto

lemma sort_key_cong': "(\<And>x. x \<in> set xs \<Longrightarrow> k x = k' x) \<Longrightarrow> sort_key k xs = sort_key k' xs"
  by (induction xs) (auto intro: insort_key_cong')

lemma fold_Some_ptr:
  "fold (\<lambda>a s. if k a < k (the s) then Some a else s) as (Some b) =
   Some (fold (\<lambda>a s. if k a < k s then a else s) as b)"
  by (induction as arbitrary: b) auto

lemma find_smallest:
  assumes "dll h head as" "length as < fuel" "as \<noteq> []"
    and "\<And>e f. compare e f < 0 \<longleftrightarrow> key e < (key f :: 'k::linorder)"
  shows "\<exists>m xs ys. RRR_LL_ITERATE fuel (smallest_body compare) None False (h, head, ptr_first head)
             = Inr (h, head, Some m) \<and> first_min (\<lambda>a. key (payload (the (h a)))) as m xs ys"
proof -
  let ?k = "\<lambda>a. key (payload (the (h a)))"
  obtain b bs where as: "as = b # bs" using assms(3) by (cases as) auto
  then have first: "ptr_first head = Some b" using dll_first [OF assms(1)] by simp
  have "RRR_LL_ITERATE fuel (smallest_body compare) None False (h, head, Some b) =
        Inr (h, head, fold (\<lambda>a s. if ?k a < ?k (the s) then Some a else s) as (Some b))"
  proof (rule RRR_LL_ITERATE_fold [where P = "\<lambda>s. s \<in> Some ` set as", OF assms(1,2)])
    fix a n s assume *: "h a = Some n" "a \<in> set as" "s \<in> Some ` set as"
    then obtain c where c: "s = Some c" "c \<in> set as" by auto
    with dll_dom [OF assms(1)] obtain m where "h c = Some m" by blast
    with * c show "smallest_body compare (Some a) (ptr_prev n) (ptr_next n) (h, head, s) =
        Inr (ll_continue, h, head, if ?k a < ?k (the s) then Some a else s) \<and>
        (if ?k a < ?k (the s) then Some a else s) \<in> Some ` set as"
      by (auto simp: smallest_body_def assms(4))
  qed (simp add: as)
  with first fold_first_min [of ?k b bs] as fold_Some_ptr [of ?k as b] show ?thesis
    by auto
qed

lemma collection_sort_loop_ok:
  assumes "\<And>e f. compare e f < 0 \<longleftrightarrow> key e < (key f :: 'k::linorder)"
  shows "dll h target as \<Longrightarrow> dll h tmp bs \<Longrightarrow> set as \<inter> set bs = {} \<Longrightarrow>
    int (length as + length bs) \<le> INT_MAX \<Longrightarrow> length as < fuel \<Longrightarrow> length as < iterate_fuel \<Longrightarrow>
    \<exists>h' target' tmp'. collection_sort_loop fuel iterate_fuel compare h target tmp
        = Inr (h', target', tmp') \<and>
      dll h' tmp' (bs @ sort_key (\<lambda>a. key (payload (the (h a)))) as) \<and>
      relink (set as \<union> set bs) h h'"
proof (induction fuel arbitrary: h target tmp as bs)
  case 0
  then show ?case by simp
next
  case (Suc fuel)
  show ?case
  proof (cases "as = []")
    case True
    with Suc.prems show ?thesis by (auto simp: dll_count)
  next
    case False
    let ?k = "\<lambda>h a. key (payload (the (h a)))"
    obtain m xs ys where sm: "RRR_LL_ITERATE iterate_fuel (smallest_body compare) None False
        (h, target, ptr_first target) = Inr (h, target, Some m)" "first_min (?k h) as m xs ys"
      using find_smallest [where compare = compare and key = key, OF Suc.prems(1,6) False assms] by blast
    then have as: "as = xs @ m # ys" by (simp add: first_min_def)
    obtain h1 target1 where rm: "RRR_LL_REMOVE_NODE_NO_FREE h target (Some m) = Inr (h1, target1)"
      "dll h1 target1 (xs @ ys)" "relink (set xs \<union> set ys) h h1"
      using RRR_LL_REMOVE_NODE_NO_FREE_ok [of h target xs m ys] Suc.prems(1) as by blast
    have tmp1: "dll h1 tmp bs" using relink_dll [OF rm(3) _ Suc.prems(2)] Suc.prems(3) as by auto
    have dist: "distinct as" using Suc.prems(1) by (simp add: dll_def)
    obtain n where "h1 m = Some n"
      using dll_dom [OF Suc.prems(1), of m] relink_the [OF rm(3)] as by fastforce
    with RRR_LL_APPEND_ok [OF tmp1 this] Suc.prems(3,4) as obtain h2 tmp2 where
      app: "RRR_LL_APPEND h1 tmp (Some m) = Inr (h2, tmp2)" "dll h2 tmp2 (bs @ [m])"
        "relink (set (m # bs)) h1 h2" by auto
    have target2: "dll h2 target1 (xs @ ys)"
      using relink_dll [OF app(3) _ rm(2)] Suc.prems(3) dist as by auto
    have rl: "relink (set as \<union> set bs) h h2"
      by (rule relink_trans [OF rm(3) app(3)]) (auto simp: as)
    have key: "?k h2 a = ?k h a" if "a \<in> set as" for a
      using dll_dom [OF Suc.prems(1) that] relink_the [OF rl] by fastforce
    have "\<exists>h' target' tmp'. collection_sort_loop fuel iterate_fuel compare h2 target1 tmp2
        = Inr (h', target', tmp') \<and>
      dll h' tmp' ((bs @ [m]) @ sort_key (?k h2) (xs @ ys)) \<and>
      relink (set (xs @ ys) \<union> set (bs @ [m])) h2 h'"
      using Suc.prems dist as by (intro Suc.IH [OF target2 app(2)]) auto
    then obtain h' target' tmp' where ih:
      "collection_sort_loop fuel iterate_fuel compare h2 target1 tmp2 = Inr (h', target', tmp')"
      "dll h' tmp' ((bs @ [m]) @ sort_key (?k h2) (xs @ ys))"
      "relink (set (xs @ ys) \<union> set (bs @ [m])) h2 h'" by blast
    have "sort_key (?k h2) (xs @ ys) = sort_key (?k h) (xs @ ys)"
      using key as by (intro sort_key_cong') auto
    moreover have "relink (set as \<union> set bs) h h'"
      by (rule relink_trans [OF rl ih(3)]) (auto simp: as)
    moreover have "RRR_LL_COUNT target \<noteq> 0" using dll_count [OF Suc.prems(1)] False by simp
    ultimately show ?thesis
      using sm(1) rm(1) app(1) ih(1,2) sort_key_first_min [OF sm(2)] by simp
  qed
qed

definition locked :: "msg_holder \<Rightarrow> msg_holder" where
  "locked e = e\<lparr>lock_depth := lock_depth e + 1\<rparr>"

definition unlocked :: "msg_holder \<Rightarrow> msg_holder" where
  "unlocked e = e\<lparr>lock_depth := lock_depth e - 1\<rparr>"

lemma locked_simps [simp]:
  "unlocked (locked e) = e" "usercount (locked e) = usercount e" "send_index (locked e) = send_index e"
  by (simp_all add: locked_def unlocked_def)

lemma collection_lock_all_lock:
  assumes "dll h head as" "length as < fuel" "\<forall>a \<in> set as. 0 < usercount (payload (the (h a)))"
  shows "collection_lock_all fuel lock_body do_lock h head =
         Inr (if do_lock then upd_payloads locked (set as) h else h, head)"
proof -
  have "RRR_LL_ITERATE fuel lock_body None False (h, head, ()) =
        Inr (upd_payloads locked (set as) h, head, ())"
    by (rule RRR_LL_ITERATE_update [where P = "\<lambda>e. 0 < usercount e", OF assms])
       (simp add: lock_body_def rrr_msg_holder_lock_ok locked_def [abs_def])
  then show ?thesis by (simp add: collection_lock_all_def)
qed

lemma collection_lock_all_unlock:
  assumes "dll h head as" "length as < fuel" "\<forall>a \<in> set as. 0 < usercount (payload (the (h a)))"
  shows "collection_lock_all fuel unlock_body do_lock h head =
         Inr (if do_lock then upd_payloads unlocked (set as) h else h, head)"
proof -
  have "RRR_LL_ITERATE fuel unlock_body None False (h, head, ()) =
        Inr (upd_payloads unlocked (set as) h, head, ())"
    by (rule RRR_LL_ITERATE_update [where P = "\<lambda>e. 0 < usercount e", OF assms])
       (simp add: unlock_body_def rrr_msg_holder_unlock_ok unlocked_def [abs_def])
  then show ?thesis by (simp add: collection_lock_all_def)
qed

text \<open>
  The pattern of both operations: lock all, permute the nodes, unlock all. \<open>perm\<close> is the
  permutation in the middle. The holders end up as they were, locks included.
\<close>

lemma with_all_locked:
  assumes "dll h head as" "length as < fuel"
    and "do_lock \<longrightarrow> (\<forall>a \<in> set as. 0 < usercount (payload (the (h a))))"
    and mid: "\<And>h1. h1 = (if do_lock then upd_payloads locked (set as) h else h) \<Longrightarrow> dll h1 head as \<Longrightarrow>
       \<exists>h2 head2. f h1 head = Inr (h2, head2) \<and> dll h2 head2 bs \<and> relink (set as) h1 h2"
    and perm: "set bs = set as" "length bs = length as"
  shows "\<exists>h' head'. bindr (collection_lock_all fuel lock_body do_lock h head) (\<lambda>(h, head).
       bindr (f h head) (\<lambda>(h, head). collection_lock_all fuel unlock_body do_lock h head)) =
         Inr (h', head') \<and> dll h' head' bs \<and> relink (set as) h h'"
proof -
  define h1 where "h1 = (if do_lock then upd_payloads locked (set as) h else h)"
  have "dll h1 head as" using assms(1) by (simp add: h1_def)
  with mid [OF h1_def] obtain h2 head2 where
    f: "f h1 head = Inr (h2, head2)" "dll h2 head2 bs" "relink (set as) h1 h2" by blast
  have lock: "collection_lock_all fuel lock_body do_lock h head = Inr (h1, head)"
    using assms(1-3) by (cases do_lock) (simp_all add: h1_def collection_lock_all_lock, simp add: collection_lock_all_def)
  show ?thesis
  proof (cases do_lock)
    case False
    with f lock show ?thesis by (simp add: collection_lock_all_def h1_def)
  next
    case True
    have pl: "map_option payload (h2 b) = map_option (locked \<circ> payload) (h b)" if "b \<in> set as" for b
      using f(3) that True by (simp add: relink_def h1_def upd_payloads_def option.map_comp comp_def)
    have "0 < usercount (payload (the (h2 b)))" if "b \<in> set bs" for b
      using pl [of b] that perm(1) assms(3) True dll_dom [OF assms(1), of b] by fastforce
    then have un: "collection_lock_all fuel unlock_body do_lock h2 head2 =
        Inr (upd_payloads unlocked (set as) h2, head2)"
      using collection_lock_all_unlock [OF f(2), of fuel do_lock] True assms(2) perm by auto
    have "relink (set as) h (upd_payloads unlocked (set as) h2)"
      unfolding relink_def
    proof (intro conjI allI impI)
      fix b
      show "map_option payload (upd_payloads unlocked (set as) h2 b) = map_option payload (h b)"
      proof (cases "b \<in> set as")
        case True
        then show ?thesis using pl [OF True] by (cases "h b"; cases "h2 b") (auto simp: upd_payloads_def)
      next
        case False
        then show ?thesis using f(3) \<open>do_lock\<close> by (auto simp: upd_payloads_def relink_def h1_def)
      qed
      show "upd_payloads unlocked (set as) h2 b = h b" if "b \<notin> set as"
        using f(3) that by (auto simp: upd_payloads_def relink_def h1_def)
    qed
    with f lock un show ?thesis by simp
  qed
qed

lemma index_compare_less: "rrr_msg_holder_util_index_compare e f < 0 \<longleftrightarrow> send_index e < send_index f"
  by (auto simp: rrr_msg_holder_util_index_compare_def)

lemma dll_fresh_head: "dll h \<lparr>ptr_first = NULL, ptr_last = NULL, node_count = 0\<rparr> []"
  by (simp add: dll_def)

text \<open>A collection of three holders, used by the witnesses.\<close>

definition demo_holder :: "ptr \<Rightarrow> ptr \<Rightarrow> u64 \<Rightarrow> msg_holder ll_node" where
  "demo_holder p n i = \<lparr>ptr_prev = p, ptr_next = n,
     payload = \<lparr>lock_depth = 0, usercount = 1, data_length = 0, addr = zero_addr, addr_len = 0,
       protocol = 0, message = None, buffer_time = 0, nexthops = [], send_time = 0, send_index = i,
       private_data = NULL\<rparr>\<rparr>"

definition demo_heap :: holder_heap where
  "demo_heap = [1 \<mapsto> demo_holder NULL (Some 2) 9, 2 \<mapsto> demo_holder (Some 1) (Some 3) 4,
     3 \<mapsto> demo_holder (Some 2) NULL 4]"

definition demo_head :: ll_head where
  "demo_head = \<lparr>ptr_first = Some 1, ptr_last = Some 3, node_count = 3\<rparr>"

lemma demo_dll: "dll demo_heap demo_head [1, 2, 3]"
  by (simp add: dll_def demo_heap_def demo_head_def demo_holder_def)

text \<open>
  Claim C11: \<open>rrr_msg_holder_collection_sort\<close> with \<open>rrr_msg_holder_util_index_compare\<close> is the stable
  sort of the collection by send index. It returns for every list it can count, no node is lost
  or changed, locks taken on the way are given back, and no other node of the heap is touched.
\<close>

theorem collection_sort_stable:
  assumes "dll h head as" "length as < fuel" "int (length as) \<le> INT_MAX"
    and "do_lock \<longrightarrow> (\<forall>a \<in> set as. 0 < usercount (payload (the (h a))))"
  shows "\<exists>h' head'.
     rrr_msg_holder_collection_sort fuel h head do_lock rrr_msg_holder_util_index_compare
       = Inr (h', head') \<and>
     dll h' head' (sort_key (\<lambda>a. send_index (payload (the (h a)))) as) \<and> relink (set as) h h'"
proof -
  let ?bs = "sort_key (\<lambda>a. send_index (payload (the (h a)))) as"
  let ?sort = "\<lambda>h target. bindr (collection_sort_loop fuel fuel rrr_msg_holder_util_index_compare h target
        \<lparr>ptr_first = NULL, ptr_last = NULL, node_count = 0\<rparr>) (\<lambda>(h, target, tmp). Inr (h, tmp))"
  have mid: "\<exists>h2 head2. ?sort h1 head = Inr (h2, head2) \<and> dll h2 head2 ?bs \<and> relink (set as) h1 h2"
    if h1: "h1 = (if do_lock then upd_payloads locked (set as) h else h)" "dll h1 head as" for h1
  proof -
    have "sort_key (\<lambda>a. send_index (payload (the (h1 a)))) as = ?bs"
      using dll_dom [OF assms(1)]
      by (intro sort_key_cong') (fastforce simp: h1(1) upd_payloads_def)
    then show ?thesis
      using collection_sort_loop_ok [where compare = rrr_msg_holder_util_index_compare
          and key = send_index, OF index_compare_less h1(2) dll_fresh_head, of fuel fuel] assms(2,3)
      by auto
  qed
  have "rrr_msg_holder_collection_sort fuel h head do_lock rrr_msg_holder_util_index_compare =
      bindr (collection_lock_all fuel lock_body do_lock h head) (\<lambda>(h, head).
       bindr (?sort h head) (\<lambda>(h, head). collection_lock_all fuel unlock_body do_lock h head))"
    by (simp add: rrr_msg_holder_collection_sort_def bindr_assoc case_prod_unfold)
  with with_all_locked [where f = ?sort, OF assms(1,2,4) mid] show ?thesis by simp
qed

theorem collection_sort_stable_witness:
  "\<exists>h' head'.
     rrr_msg_holder_collection_sort 4 demo_heap demo_head True rrr_msg_holder_util_index_compare
       = Inr (h', head') \<and>
     dll h' head' [2, 3, 1] \<and> relink {1, 2, 3} demo_heap h'"
  using collection_sort_stable [OF demo_dll, of 4 True]
  by (simp add: INT_MAX_def demo_heap_def demo_holder_def)

text \<open>
  \<open>rrr_msg_holder_collection_rotate\<close> at a position inside the list, other than 0, moves the
  first \<open>pos\<close> holders to the end and changes nothing else.
\<close>

theorem collection_rotate_correct:
  assumes "dll h head as" "length as < fuel" "0 < pos" "pos < length as"
    and "do_lock \<longrightarrow> (\<forall>a \<in> set as. 0 < usercount (payload (the (h a))))"
  shows "\<exists>h' head'. rrr_msg_holder_collection_rotate fuel h head (int pos) do_lock = Inr (h', head') \<and>
     dll h' head' (drop pos as @ take pos as) \<and> relink (set as) h h'"
proof -
  have rot: "rotate pos as = drop pos as @ take pos as"
    using assms(4) by (simp add: rotate_drop_take)
  have "\<exists>h2 head2. RRR_LL_ROTATE fuel h1 head (int pos) = Inr (h2, head2) \<and>
      dll h2 head2 (drop pos as @ take pos as) \<and> relink (set as) h1 h2"
    if "dll h1 head as" for h1
    using RRR_LL_ROTATE_ok [OF that assms(3,4,2)] by (simp add: rot)
  then show ?thesis
    unfolding rrr_msg_holder_collection_rotate_def
    using assms by (intro with_all_locked) (auto simp flip: rot)
qed

theorem collection_rotate_correct_witness:
  "\<exists>h' head'. rrr_msg_holder_collection_rotate 4 demo_heap demo_head (int 2) True = Inr (h', head') \<and>
     dll h' head' [3, 1, 2] \<and> relink {1, 2, 3} demo_heap h'"
  using collection_rotate_correct [OF demo_dll, of 4 2 True]
  by (simp add: demo_heap_def demo_holder_def)

end
