(* ===== verification/RRR_Fifo.thy ===== *)
theory RRR_Fifo
  imports RRR_Types
begin

text \<open>
  The message buffer of \<^verbatim>\<open>src/lib/fifo.c\<close>: a singly linked queue with a pointer to its last entry
  and an entry count. Entries live in a heap. The data an entry points to, the reference counts on
  it and the state of the callbacks are one world \<open>'s\<close>; a callback is a function on that world,
  \<open>incref\<close> and \<open>decref\<close> are the two function pointers of the buffer. Callbacks do not call back into
  the buffer they are called from.
  \<open>fifo_ok h buf as\<close> says that the buffer holds the entries at the addresses \<open>as\<close>, in order, and
  that the count is right; \<open>items\<close> is what they hold. Each operation refines a function on items.
\<close>

subsection \<open>Flags\<close>

definition RRR_FIFO_OK :: c_int where "RRR_FIFO_OK = 0"
definition RRR_FIFO_GLOBAL_ERR :: c_int where "RRR_FIFO_GLOBAL_ERR = 1"
definition RRR_FIFO_CALLBACK_ERR :: c_int where "RRR_FIFO_CALLBACK_ERR = 2"
definition RRR_FIFO_SEARCH_KEEP :: c_int where "RRR_FIFO_SEARCH_KEEP = 0"
definition RRR_FIFO_SEARCH_STOP :: c_int where "RRR_FIFO_SEARCH_STOP = 8"
definition RRR_FIFO_SEARCH_GIVE :: c_int where "RRR_FIFO_SEARCH_GIVE = 16"
definition RRR_FIFO_SEARCH_FREE :: c_int where "RRR_FIFO_SEARCH_FREE = 32"
definition RRR_FIFO_SEARCH_REPLACE :: c_int where "RRR_FIFO_SEARCH_REPLACE = 64"
definition RRR_FIFO_WRITE_AGAIN :: c_int where "RRR_FIFO_WRITE_AGAIN = 1024"
definition RRR_FIFO_WRITE_DROP :: c_int where "RRR_FIFO_WRITE_DROP = 2048"
definition RRR_FIFO_WRITE_ORDERED :: c_int where "RRR_FIFO_WRITE_ORDERED = 4096"

definition RRR_FIFO_MAX_READS :: nat where "RRR_FIFO_MAX_READS = 500"

lemmas fifo_flag_defs = RRR_FIFO_OK_def RRR_FIFO_GLOBAL_ERR_def RRR_FIFO_CALLBACK_ERR_def
  RRR_FIFO_SEARCH_KEEP_def RRR_FIFO_SEARCH_STOP_def RRR_FIFO_SEARCH_GIVE_def
  RRR_FIFO_SEARCH_FREE_def RRR_FIFO_SEARCH_REPLACE_def RRR_FIFO_WRITE_AGAIN_def
  RRR_FIFO_WRITE_DROP_def RRR_FIFO_WRITE_ORDERED_def

subsection \<open>State\<close>

record fifo_entry =
  data :: ptr
  size :: u64
  order :: u64
  nxt :: ptr

record 's fifo =
  gptr_first :: ptr
  gptr_last :: ptr
  entry_count :: rrr_length
  incref :: "addr \<Rightarrow> 's \<Rightarrow> 's"
  decref :: "addr \<Rightarrow> 's \<Rightarrow> 's"

type_synonym 's fifo_st = "fifo_entry heap \<times> 's fifo \<times> 's"

text \<open>Reading callbacks, and writing callbacks (which return data, size and order as well).\<close>

type_synonym 's read_cb = "ptr \<Rightarrow> u64 \<Rightarrow> 's \<Rightarrow> c_int \<times> 's"
type_synonym 's write_cb = "ptr \<Rightarrow> u64 \<Rightarrow> u64 \<Rightarrow> 's \<Rightarrow> c_int \<times> ptr \<times> u64 \<times> u64 \<times> 's"

subsection \<open>Entries\<close>

definition rrr_fifo_entry_incref_data :: "'s fifo \<Rightarrow> fifo_entry \<Rightarrow> 's \<Rightarrow> 's" where
  "rrr_fifo_entry_incref_data buf e w = (case data e of None \<Rightarrow> w | Some d \<Rightarrow> incref buf d w)"

definition rrr_fifo_entry_decref_data ::
    "fifo_entry heap \<Rightarrow> 's fifo \<Rightarrow> ptr \<Rightarrow> 's \<Rightarrow> (fifo_entry heap \<times> 's) res" where
  "rrr_fifo_entry_decref_data h buf entry w =
     bindr (load h entry) (\<lambda>e.
     case data e of None \<Rightarrow> Inr (h, w)
     | Some d \<Rightarrow> bindr (modify h entry (\<lambda>e. e\<lparr>data := NULL\<rparr>)) (\<lambda>h. Inr (h, decref buf d w)))"

definition rrr_fifo_entry_destroy ::
    "fifo_entry heap \<Rightarrow> 's fifo \<Rightarrow> ptr \<Rightarrow> 's \<Rightarrow> (fifo_entry heap \<times> 's) res" where
  "rrr_fifo_entry_destroy h buf entry w =
     bindr (rrr_fifo_entry_decref_data h buf entry w) (\<lambda>(h, w).
     bindr (release h entry) (\<lambda>h. Inr (h, w)))"

definition rrr_fifo_entry_release_data :: "fifo_entry heap \<Rightarrow> ptr \<Rightarrow> fifo_entry heap res" where
  "rrr_fifo_entry_release_data h entry = modify h entry (\<lambda>e. e\<lparr>data := NULL, size := 0\<rparr>)"

text \<open>\<open>alloc h\<close> is the address \<open>rrr_allocate\<close> returns, NULL when there is no memory.\<close>

definition rrr_fifo_entry_new ::
    "(fifo_entry heap \<Rightarrow> ptr) \<Rightarrow> fifo_entry heap \<Rightarrow> c_int \<times> ptr \<times> fifo_entry heap" where
  "rrr_fifo_entry_new alloc h =
     (case alloc h of None \<Rightarrow> (1, NULL, h)
      | Some a \<Rightarrow> (0, Some a, h(a \<mapsto> \<lparr>data = NULL, size = 0, order = 0, nxt = NULL\<rparr>)))"

definition rrr_fifo_init_custom_refcount :: "(addr \<Rightarrow> 's \<Rightarrow> 's) \<Rightarrow> (addr \<Rightarrow> 's \<Rightarrow> 's) \<Rightarrow> 's fifo" where
  "rrr_fifo_init_custom_refcount custom_incref custom_decref =
     \<lparr>gptr_first = NULL, gptr_last = NULL, entry_count = 0,
      incref = custom_incref, decref = custom_decref\<rparr>"

definition rrr_fifo_get_entry_count :: "'s fifo \<Rightarrow> rrr_length" where
  "rrr_fifo_get_entry_count buf = entry_count buf"

subsection \<open>Clearing\<close>

text \<open>The callback of a clear may take the data over by setting the data pointer to NULL.\<close>

fun rrr_fifo_clear_loop ::
    "nat \<Rightarrow> (ptr \<Rightarrow> u64 \<Rightarrow> 's \<Rightarrow> c_int \<times> ptr \<times> 's) option \<Rightarrow> ptr \<Rightarrow> 's fifo_st \<Rightarrow> 's fifo_st res" where
  "rrr_fifo_clear_loop 0 callback entry st = Inl Diverge"
| "rrr_fifo_clear_loop (Suc fuel) callback entry (h, buf, w) =
     (if entry = NULL then Inr (h, buf, w)
      else bindr (load h entry) (\<lambda>e.
        bindr (case callback of None \<Rightarrow> Inr (h, w)
               | Some cb \<Rightarrow> (case cb (data e) (size e) w of (ret_tmp, d, w) \<Rightarrow>
                   bindr (modify h entry (\<lambda>e. e\<lparr>data := d\<rparr>)) (\<lambda>h.
                   bug_if (ret_tmp \<noteq> RRR_FIFO_OK) (Inr (h, w))))) (\<lambda>(h, w).
        bindr (rrr_fifo_entry_destroy h buf entry w) (\<lambda>(h, w).
        rrr_fifo_clear_loop fuel callback (nxt e) (h, buf, w)))))"

definition rrr_fifo_clear_with_callback ::
    "nat \<Rightarrow> 's fifo_st \<Rightarrow> (ptr \<Rightarrow> u64 \<Rightarrow> 's \<Rightarrow> c_int \<times> ptr \<times> 's) option \<Rightarrow> 's fifo_st res" where
  "rrr_fifo_clear_with_callback fuel st callback =
     (case st of (h, buf, w) \<Rightarrow>
        bindr (rrr_fifo_clear_loop fuel callback (gptr_first buf) st) (\<lambda>(h, buf, w).
        Inr (h, buf\<lparr>gptr_first := NULL, gptr_last := NULL, entry_count := 0\<rparr>, w)))"

definition rrr_fifo_clear :: "nat \<Rightarrow> 's fifo_st \<Rightarrow> 's fifo_st res" where
  "rrr_fifo_clear fuel st = rrr_fifo_clear_with_callback fuel st None"

definition rrr_fifo_destroy :: "nat \<Rightarrow> 's fifo_st \<Rightarrow> 's fifo_st res" where
  "rrr_fifo_destroy fuel st = rrr_fifo_clear_with_callback fuel st None"

subsection \<open>Searching\<close>

record search_flags =
  do_keep :: bool
  do_give :: bool
  do_free :: bool
  do_stop :: bool

definition rrr_fifo_search_return_value_process :: "c_int \<Rightarrow> (c_int \<times> search_flags) res" where
  "rrr_fifo_search_return_value_process actions =
     (let none = \<lparr>do_keep = False, do_give = False, do_free = False, do_stop = False\<rparr> in
      if actions = RRR_FIFO_SEARCH_KEEP then Inr (RRR_FIFO_OK, none\<lparr>do_keep := True\<rparr>)
      else if has_flag actions RRR_FIFO_CALLBACK_ERR then Inr (RRR_FIFO_CALLBACK_ERR, none)
      else
        let give = has_flag actions RRR_FIFO_SEARCH_GIVE;
            free = (give \<and> has_flag actions RRR_FIFO_SEARCH_FREE);
            stop = has_flag actions RRR_FIFO_SEARCH_STOP in
        bug_if (\<not> free \<and> \<not> stop)
          (Inr (RRR_FIFO_OK, none\<lparr>do_give := give, do_free := free, do_stop := stop\<rparr>)))"

text \<open>The three updates that take \<open>entry\<close>, whose predecessor is \<open>prev\<close>, out of the chain.\<close>

definition fifo_unlink ::
    "fifo_entry heap \<Rightarrow> 's fifo \<Rightarrow> ptr \<Rightarrow> ptr \<Rightarrow> (fifo_entry heap \<times> 's fifo) res" where
  "fifo_unlink h buf entry prev =
     bindr (load h entry) (\<lambda>e.
     let buf = (if entry = gptr_first buf then buf\<lparr>gptr_first := nxt e\<rparr> else buf);
         buf = (if entry = gptr_last buf then buf\<lparr>gptr_last := prev\<rparr> else buf) in
     bindr (if prev \<noteq> NULL then modify h prev (\<lambda>p. p\<lparr>nxt := nxt e\<rparr>) else Inr h) (\<lambda>h.
     Inr (h, buf)))"

fun rrr_fifo_search_loop ::
    "nat \<Rightarrow> 's read_cb \<Rightarrow> ptr \<Rightarrow> ptr \<Rightarrow> rrr_length \<Rightarrow> 's fifo_st \<Rightarrow>
     (c_int \<times> rrr_length \<times> 's fifo_st) res" where
  "rrr_fifo_search_loop 0 callback entry prev cleared_entries st = Inl Diverge"
| "rrr_fifo_search_loop (Suc fuel) callback entry prev cleared_entries (h, buf, w) =
     (if entry = NULL then Inr (0, cleared_entries, h, buf, w)
      else bindr (load h entry) (\<lambda>e.
        case callback (data e) (size e) w of (actions, w) \<Rightarrow>
        if actions = RRR_FIFO_SEARCH_KEEP
        then rrr_fifo_search_loop fuel callback (nxt e) entry cleared_entries (h, buf, w)
        else if has_flag actions RRR_FIFO_CALLBACK_ERR
        then Inr (RRR_FIFO_CALLBACK_ERR, cleared_entries, h, buf, w)
        else
          bindr (if has_flag actions RRR_FIFO_SEARCH_GIVE then
                   bindr (fifo_unlink h buf entry prev) (\<lambda>(h, buf).
                   bindr (rrr_length_inc_bug cleared_entries) (\<lambda>cleared_entries.
                   bindr (if has_flag actions RRR_FIFO_SEARCH_FREE then Inr h
                          else rrr_fifo_entry_release_data h entry) (\<lambda>h.
                   bindr (rrr_fifo_entry_destroy h buf entry w) (\<lambda>(h, w).
                   Inr (prev, cleared_entries, True, h, buf, w)))))
                 else Inr (entry, cleared_entries, False, h, buf, w))
            (\<lambda>(entry, cleared_entries, did_something, st).
          if has_flag actions RRR_FIFO_SEARCH_STOP then Inr (0, cleared_entries, st)
          else bug_if (\<not> did_something)
            (rrr_fifo_search_loop fuel callback (nxt e) entry cleared_entries st))))"

definition rrr_fifo_search :: "nat \<Rightarrow> 's fifo_st \<Rightarrow> 's read_cb \<Rightarrow> (c_int \<times> 's fifo_st) res" where
  "rrr_fifo_search fuel st callback =
     (case st of (h, buf, w) \<Rightarrow>
        if rrr_fifo_get_entry_count buf = 0 then Inr (0, st)
        else bindr (rrr_fifo_search_loop fuel callback (gptr_first buf) NULL 0 st)
               (\<lambda>(ret, cleared_entries, h, buf, w).
             bindr (rrr_length_sub_bug (entry_count buf) cleared_entries) (\<lambda>c.
             Inr (ret, h, buf\<lparr>entry_count := c\<rparr>, w))))"

subsection \<open>Writing\<close>

text \<open>The result is \<open>(ret, do_ordered_write, write_again, do_drop)\<close>.\<close>

definition rrr_fifo_write_callback_return_check :: "c_int \<Rightarrow> (c_int \<times> bool \<times> bool \<times> bool) res" where
  "rrr_fifo_write_callback_return_check r =
     (if r = 0 then Inr (0, False, False, False)
      else
        let legal = RRR_FIFO_WRITE_AGAIN OR RRR_FIFO_WRITE_ORDERED OR RRR_FIFO_WRITE_DROP;
            ordered = (r AND RRR_FIFO_WRITE_ORDERED = RRR_FIFO_WRITE_ORDERED);
            again = (r AND RRR_FIFO_WRITE_AGAIN = RRR_FIFO_WRITE_AGAIN) in
        bug_if (ordered \<and> r AND NOT legal \<noteq> 0)
       (bug_if (again \<and> r AND NOT legal \<noteq> 0)
       (if r AND RRR_FIFO_GLOBAL_ERR = RRR_FIFO_GLOBAL_ERR then
          bug_if (r AND NOT RRR_FIFO_GLOBAL_ERR \<noteq> 0) (Inr (1, ordered, again, False))
        else if r AND RRR_FIFO_WRITE_DROP = RRR_FIFO_WRITE_DROP then
          bug_if (r AND NOT (RRR_FIFO_WRITE_DROP OR RRR_FIFO_WRITE_AGAIN) \<noteq> 0)
            (Inr (0, ordered, again, True))
        else bug_if (r AND NOT legal \<noteq> 0) (Inr (0, ordered, again, False)))))"

text \<open>The walk to the first entry whose order is not below \<open>ord\<close>: that entry and its predecessor.\<close>

fun fifo_find_pos :: "nat \<Rightarrow> fifo_entry heap \<Rightarrow> u64 \<Rightarrow> ptr \<Rightarrow> ptr \<Rightarrow> (ptr \<times> ptr) res" where
  "fifo_find_pos 0 h ord pos prev = Inl Diverge"
| "fifo_find_pos (Suc fuel) h ord pos prev =
     (if pos = NULL then Inr (pos, prev)
      else bindr (load h pos) (\<lambda>e.
        if order e < ord then fifo_find_pos fuel h ord (nxt e) pos else Inr (pos, prev)))"

definition rrr_fifo_write_update_pointers ::
    "nat \<Rightarrow> fifo_entry heap \<Rightarrow> 's fifo \<Rightarrow> ptr \<Rightarrow> u64 \<Rightarrow> bool \<Rightarrow> (fifo_entry heap \<times> 's fifo) res" where
  "rrr_fifo_write_update_pointers fuel h buf entry ord do_ordered_write =
     (let insert_at_end = (\<lambda>h.
            bindr (modify h (gptr_last buf) (\<lambda>l. l\<lparr>nxt := entry\<rparr>)) (\<lambda>h.
            bindr (modify h entry (\<lambda>e. e\<lparr>nxt := NULL\<rparr>)) (\<lambda>h.
            Inr (h, buf\<lparr>gptr_last := entry\<rparr>)))) in
      bindr (modify h entry (\<lambda>e. e\<lparr>order := ord\<rparr>)) (\<lambda>h.
      if gptr_first buf = NULL then
        bindr (modify h entry (\<lambda>e. e\<lparr>nxt := NULL\<rparr>)) (\<lambda>h.
        Inr (h, buf\<lparr>gptr_first := entry, gptr_last := entry\<rparr>))
      else if do_ordered_write then
        bindr (load h (gptr_last buf)) (\<lambda>l.
        if order l < ord then insert_at_end h
        else
          bindr (fifo_find_pos fuel h ord (gptr_first buf) NULL) (\<lambda>(pos, prev).
          if pos = NULL then insert_at_end h
          else if prev \<noteq> NULL then
            bindr (modify h prev (\<lambda>p. p\<lparr>nxt := entry\<rparr>)) (\<lambda>h.
            bindr (modify h entry (\<lambda>e. e\<lparr>nxt := pos\<rparr>)) (\<lambda>h. Inr (h, buf)))
          else
            bindr (modify h entry (\<lambda>e. e\<lparr>nxt := gptr_first buf\<rparr>)) (\<lambda>h.
            Inr (h, buf\<lparr>gptr_first := entry\<rparr>))))
      else insert_at_end h))"

text \<open>
  The loop of \<open>rrr_fifo_write\<close>; \<open>walk\<close> is the fuel of the search for the insertion point. An entry
  that is dropped is freed without touching its data.
\<close>

fun rrr_fifo_write_loop ::
    "nat \<Rightarrow> nat \<Rightarrow> (fifo_entry heap \<Rightarrow> ptr) \<Rightarrow> 's write_cb \<Rightarrow> 's fifo_st \<Rightarrow> (c_int \<times> 's fifo_st) res" where
  "rrr_fifo_write_loop 0 walk alloc callback st = Inl Diverge"
| "rrr_fifo_write_loop (Suc fuel) walk alloc callback (h, buf, w) =
     (case rrr_fifo_entry_new alloc h of (ret, entry, h) \<Rightarrow>
      if ret \<noteq> 0 then Inr (1, h, buf, w)
      else case callback NULL 0 0 w of (ret, d, sz, ord, w) \<Rightarrow>
        bindr (modify h entry (\<lambda>e. e\<lparr>data := d, size := sz\<rparr>)) (\<lambda>h.
        bindr (rrr_fifo_write_callback_return_check ret) (\<lambda>(ret, do_ordered_write, write_again, do_drop).
        bindr (if ret \<noteq> 0 \<or> do_drop then bindr (release h entry) (\<lambda>h. Inr (ret, h, buf, w))
               else bug_if (d = NULL)
                 (bindr (load h entry) (\<lambda>e.
                  bindr (rrr_fifo_write_update_pointers walk h buf entry ord do_ordered_write) (\<lambda>(h, buf').
                  case rrr_length_inc_err (entry_count buf') of (ret, c) \<Rightarrow>
                    Inr (ret, h, buf'\<lparr>entry_count := c\<rparr>, rrr_fifo_entry_incref_data buf e w)))))
          (\<lambda>(ret, st). if write_again then rrr_fifo_write_loop fuel walk alloc callback st
                       else Inr (ret, st)))))"

definition rrr_fifo_write ::
    "nat \<Rightarrow> nat \<Rightarrow> (fifo_entry heap \<Rightarrow> ptr) \<Rightarrow> 's fifo_st \<Rightarrow> 's write_cb \<Rightarrow> (c_int \<times> 's fifo_st) res" where
  "rrr_fifo_write fuel walk alloc st callback = rrr_fifo_write_loop fuel walk alloc callback st"

subsection \<open>Search and replace\<close>

fun rrr_fifo_search_and_replace_call_again ::
    "nat \<Rightarrow> (fifo_entry heap \<Rightarrow> ptr) \<Rightarrow> 's write_cb \<Rightarrow> 's fifo_st \<Rightarrow> (c_int \<times> 's fifo_st) res" where
  "rrr_fifo_search_and_replace_call_again 0 alloc callback st = Inl Diverge"
| "rrr_fifo_search_and_replace_call_again (Suc fuel) alloc callback (h, buf, w) =
     (case rrr_fifo_entry_new alloc h of (ret, entry, h) \<Rightarrow>
      if ret \<noteq> 0 then Inr (1, h, buf, w)
      else case callback NULL 0 0 w of (ret, d, sz, ord, w) \<Rightarrow>
        bindr (modify h entry (\<lambda>e. e\<lparr>data := d, size := sz\<rparr>)) (\<lambda>h.
        bindr (rrr_fifo_write_callback_return_check ret) (\<lambda>(ret, do_ordered_write, do_loop, do_drop).
        bindr (if ret \<noteq> 0 \<or> do_drop then bindr (release h entry) (\<lambda>h. Inr (ret, h, buf, w))
               else bug_if (d = NULL)
                 (bindr (load h entry) (\<lambda>e.
                  bindr (rrr_fifo_write_update_pointers 0 h buf entry ord False) (\<lambda>(h, buf').
                  case rrr_length_inc_err (entry_count buf') of (ret, c) \<Rightarrow>
                    Inr (ret, h, buf'\<lparr>entry_count := c\<rparr>, rrr_fifo_entry_incref_data buf e w)))))
          (\<lambda>(ret, st). if ret = 0 \<and> do_loop
                       then rrr_fifo_search_and_replace_call_again fuel alloc callback st
                       else Inr (ret, st)))))"

text \<open>After a replacement, too, \<open>entry\<close> is set back to \<open>prev\<close>, so \<open>prev\<close> does not move on.\<close>

fun rrr_fifo_search_and_replace_loop ::
    "nat \<Rightarrow> 's write_cb \<Rightarrow> ptr \<Rightarrow> ptr \<Rightarrow> 's fifo_st \<Rightarrow> (c_int \<times> 's fifo_st) res" where
  "rrr_fifo_search_and_replace_loop 0 callback entry prev st = Inl Diverge"
| "rrr_fifo_search_and_replace_loop (Suc fuel) callback entry prev (h, buf, w) =
     (if entry = NULL then Inr (0, h, buf, w)
      else bindr (load h entry) (\<lambda>e.
        case callback (data e) (size e) (order e) w of (actions, d, sz, ord, w) \<Rightarrow>
        if actions = RRR_FIFO_SEARCH_KEEP
        then rrr_fifo_search_and_replace_loop fuel callback (nxt e) entry (h, buf, w)
        else if has_flag actions RRR_FIFO_CALLBACK_ERR then Inr (RRR_FIFO_CALLBACK_ERR, h, buf, w)
        else
          bindr (if has_flag actions (RRR_FIFO_SEARCH_REPLACE OR RRR_FIFO_SEARCH_GIVE) then
                   bindr (if has_flag actions RRR_FIFO_SEARCH_FREE then Inr h
                          else rrr_fifo_entry_release_data h entry) (\<lambda>h.
                   if has_flag actions RRR_FIFO_SEARCH_GIVE then
                     bug_if (has_flag actions RRR_FIFO_SEARCH_REPLACE)
                       (bindr (fifo_unlink h buf entry prev) (\<lambda>(h, buf).
                        bindr (rrr_fifo_entry_destroy h buf entry w) (\<lambda>(h, w).
                        bindr (rrr_length_dec_bug (entry_count buf)) (\<lambda>c.
                        Inr (0, prev, True, h, buf\<lparr>entry_count := c\<rparr>, w)))))
                   else
                     bindr (load h entry) (\<lambda>e.
                     bug_if (data e = d)
                       (bindr (rrr_fifo_entry_decref_data h buf entry w) (\<lambda>(h, w).
                        bindr (modify h entry (\<lambda>e. e\<lparr>data := d, size := sz, order := ord\<rparr>)) (\<lambda>h.
                        bindr (load h entry) (\<lambda>e.
                        let w = rrr_fifo_entry_incref_data buf e w in
                        case rrr_length_inc_err (entry_count buf) of (ret, c) \<Rightarrow>
                          if ret \<noteq> 0 then Inr (ret, prev, True, h, buf\<lparr>entry_count := c\<rparr>, w)
                          else bindr (rrr_length_dec_bug c) (\<lambda>c.
                               Inr (0, prev, True, h, buf\<lparr>entry_count := c\<rparr>, w))))))))
                 else Inr (0, entry, False, h, buf, w))
            (\<lambda>(ret, entry, did_something, st).
          if ret \<noteq> 0 then Inr (ret, st)
          else if has_flag actions RRR_FIFO_SEARCH_STOP then Inr (0, st)
          else bug_if (\<not> did_something)
            (rrr_fifo_search_and_replace_loop fuel callback (nxt e) entry st))))"

definition rrr_fifo_search_and_replace ::
    "nat \<Rightarrow> (fifo_entry heap \<Rightarrow> ptr) \<Rightarrow> 's fifo_st \<Rightarrow> 's write_cb \<Rightarrow> bool \<Rightarrow> (c_int \<times> 's fifo_st) res" where
  "rrr_fifo_search_and_replace fuel alloc st callback call_again_after_looping =
     (case st of (h, buf, w) \<Rightarrow>
        bindr (rrr_fifo_search_and_replace_loop fuel callback (gptr_first buf) NULL st) (\<lambda>(ret, st).
        if ret = RRR_FIFO_OK \<and> call_again_after_looping
        then rrr_fifo_search_and_replace_call_again fuel alloc callback st
        else Inr (ret, st)))"

subsection \<open>Reading\<close>

fun rrr_fifo_read_clear_forward_loop ::
    "nat \<Rightarrow> 's read_cb \<Rightarrow> ptr \<Rightarrow> ptr \<Rightarrow> rrr_length \<Rightarrow> c_int \<Rightarrow> 's fifo_st \<Rightarrow>
     (c_int \<times> rrr_length \<times> 's fifo_st) res" where
  "rrr_fifo_read_clear_forward_loop 0 callback current last_element processed ret st = Inl Diverge"
| "rrr_fifo_read_clear_forward_loop (Suc fuel) callback current last_element processed ret (h, buf, w) =
     (if current = NULL then Inr (ret, processed, h, buf, w)
      else bindr (load h current) (\<lambda>e.
        case callback (data e) (size e) w of (ret_tmp, w) \<Rightarrow>
        bindr (rrr_length_inc_bug processed) (\<lambda>processed.
        bindr (if ret_tmp \<noteq> 0 then
                 bindr (if has_flag ret_tmp RRR_FIFO_SEARCH_FREE
                        then bindr (rrr_fifo_entry_decref_data h buf current w) (\<lambda>(h, w).
                             Inr (ret_tmp AND NOT RRR_FIFO_SEARCH_FREE, h, w))
                        else bindr (rrr_fifo_entry_release_data h current) (\<lambda>h. Inr (ret_tmp, h, w)))
                   (\<lambda>(ret_tmp, h, w).
                 bug_if (has_flag ret_tmp RRR_FIFO_SEARCH_GIVE)
                   (if has_flag ret_tmp (RRR_FIFO_SEARCH_STOP OR RRR_FIFO_CALLBACK_ERR OR RRR_FIFO_GLOBAL_ERR)
                    then
                      bindr (if nxt e = NULL then Inr (h, buf)
                             else bindr (modify h last_element (\<lambda>l. l\<lparr>nxt := gptr_first buf\<rparr>)) (\<lambda>h.
                                  let buf = buf\<lparr>gptr_first := nxt e\<rparr> in
                                  Inr (h, if gptr_last buf = NULL then buf\<lparr>gptr_last := last_element\<rparr>
                                          else buf))) (\<lambda>(h, buf).
                      bindr (rrr_fifo_entry_destroy h buf current w) (\<lambda>(h, w).
                      Inr (Some (ret_tmp AND NOT RRR_FIFO_SEARCH_STOP), h, buf, w)))
                    else bug_if (ret_tmp AND NOT (RRR_FIFO_SEARCH_GIVE OR RRR_FIFO_SEARCH_FREE OR
                           RRR_FIFO_SEARCH_STOP OR RRR_FIFO_CALLBACK_ERR OR RRR_FIFO_GLOBAL_ERR) \<noteq> 0)
                      (Inr (None, h, buf, w))))
               else Inr (None, h, buf, w)) (\<lambda>(stop, h, buf, w).
        case stop of Some ret \<Rightarrow> Inr (ret, processed, h, buf, w)
        | None \<Rightarrow>
            bindr (rrr_fifo_entry_release_data h current) (\<lambda>h.
            bindr (rrr_fifo_entry_destroy h buf current w) (\<lambda>(h, w).
            rrr_fifo_read_clear_forward_loop fuel callback (nxt e) last_element processed ret (h, buf, w)))))))"

definition rrr_fifo_read_clear_forward_all ::
    "nat \<Rightarrow> 's fifo_st \<Rightarrow> 's read_cb \<Rightarrow> (c_int \<times> 's fifo_st) res" where
  "rrr_fifo_read_clear_forward_all fuel st callback =
     (case st of (h, buf, w) \<Rightarrow>
        if rrr_fifo_get_entry_count buf = 0 then Inr (RRR_FIFO_OK, st)
        else bindr (rrr_fifo_read_clear_forward_loop fuel callback (gptr_first buf) (gptr_last buf) 0
                 RRR_FIFO_OK (h, buf\<lparr>gptr_first := NULL, gptr_last := NULL\<rparr>, w))
               (\<lambda>(ret, processed, h, buf, w).
             bindr (rrr_length_sub_bug (entry_count buf) processed) (\<lambda>c.
             Inr (ret, h, buf\<lparr>entry_count := c\<rparr>, w))))"

fun rrr_fifo_read_loop ::
    "nat \<Rightarrow> fifo_entry heap \<Rightarrow> 's read_cb \<Rightarrow> ptr \<Rightarrow> c_int \<Rightarrow> 's \<Rightarrow> (c_int \<times> 's) res" where
  "rrr_fifo_read_loop 0 h callback first ret w = Inl Diverge"
| "rrr_fifo_read_loop (Suc fuel) h callback first ret w =
     (if first = NULL then Inr (ret, w)
      else bindr (load h first) (\<lambda>e.
        case callback (data e) (size e) w of (ret_tmp, w) \<Rightarrow>
        if ret_tmp = 0 then rrr_fifo_read_loop fuel h callback (nxt e) ret w
        else if has_flag ret_tmp RRR_FIFO_SEARCH_STOP
        then Inr (ret OR (ret_tmp AND NOT RRR_FIFO_SEARCH_STOP), w)
        else if has_flag ret_tmp (RRR_FIFO_SEARCH_GIVE OR RRR_FIFO_SEARCH_FREE) then Inl Bug
        else if has_flag ret_tmp RRR_FIFO_GLOBAL_ERR then Inr (RRR_FIFO_GLOBAL_ERR, w)
        else bug_if (ret_tmp AND NOT (RRR_FIFO_SEARCH_GIVE OR RRR_FIFO_SEARCH_FREE OR
                       RRR_FIFO_SEARCH_STOP OR RRR_FIFO_CALLBACK_ERR OR RRR_FIFO_GLOBAL_ERR) \<noteq> 0)
               (rrr_fifo_read_loop fuel h callback (nxt e) (ret OR ret_tmp) w)))"

definition rrr_fifo_read :: "nat \<Rightarrow> 's fifo_st \<Rightarrow> 's read_cb \<Rightarrow> (c_int \<times> 's fifo_st) res" where
  "rrr_fifo_read fuel st callback =
     (case st of (h, buf, w) \<Rightarrow>
        if rrr_fifo_get_entry_count buf = 0 then Inr (RRR_FIFO_OK, st)
        else bindr (rrr_fifo_read_loop fuel h callback (gptr_first buf) RRR_FIFO_OK w)
               (\<lambda>(ret, w). Inr (ret, h, buf, w)))"

fun rrr_fifo_read_minimum_loop ::
    "nat \<Rightarrow> fifo_entry heap \<Rightarrow> ptr \<Rightarrow> 's read_cb \<Rightarrow> u64 \<Rightarrow> ptr \<Rightarrow> nat \<Rightarrow> 's \<Rightarrow> (c_int \<times> 's) res" where
  "rrr_fifo_read_minimum_loop 0 h last_element callback minimum_order first processed w = Inl Diverge"
| "rrr_fifo_read_minimum_loop (Suc fuel) h last_element callback minimum_order first processed w =
     (if first = NULL then Inr (RRR_FIFO_OK, w)
      else bindr (load h first) (\<lambda>e.
        if order e > minimum_order then
          case callback (data e) (size e) w of (res, w) \<Rightarrow>
          if processed + 1 = RRR_FIFO_MAX_READS \<or> first = last_element then Inr (RRR_FIFO_OK, w)
          else if res = RRR_FIFO_OK then
            rrr_fifo_read_minimum_loop fuel h last_element callback minimum_order (nxt e) (processed + 1) w
          else if has_flag res RRR_FIFO_SEARCH_STOP then Inr (res AND NOT RRR_FIFO_SEARCH_STOP, w)
          else bug_if (has_flag res (RRR_FIFO_SEARCH_GIVE OR RRR_FIFO_SEARCH_FREE)) (Inr (res, w))
        else rrr_fifo_read_minimum_loop fuel h last_element callback minimum_order (nxt e) processed w))"

definition rrr_fifo_read_minimum ::
    "nat \<Rightarrow> 's fifo_st \<Rightarrow> ptr \<Rightarrow> 's read_cb \<Rightarrow> u64 \<Rightarrow> (c_int \<times> 's fifo_st) res" where
  "rrr_fifo_read_minimum fuel st last_element callback minimum_order =
     (case st of (h, buf, w) \<Rightarrow>
        if rrr_fifo_get_entry_count buf = 0 then Inr (RRR_FIFO_OK, st)
        else bindr (rrr_fifo_read_minimum_loop fuel h last_element callback minimum_order (gptr_first buf) 0 w)
               (\<lambda>(ret, w). Inr (ret, h, buf, w)))"

definition rrr_fifo_merge ::
    "fifo_entry heap \<Rightarrow> 's fifo \<Rightarrow> 's fifo \<Rightarrow> (c_int \<times> fifo_entry heap \<times> 's fifo \<times> 's fifo) res" where
  "rrr_fifo_merge h target source =
     (if entry_count source = 0 then Inr (0, h, target, source)
      else case rrr_length_add_err (entry_count target) (entry_count source) of (err, c) \<Rightarrow>
        if err \<noteq> 0 then Inr (1, h, target\<lparr>entry_count := c\<rparr>, source)
        else
          let target = target\<lparr>entry_count := c\<rparr> in
          bindr (if gptr_last target \<noteq> NULL
                 then bindr (modify h (gptr_last target) (\<lambda>l. l\<lparr>nxt := gptr_first source\<rparr>)) (\<lambda>h. Inr (h, target))
                 else Inr (h, target\<lparr>gptr_first := gptr_first source\<rparr>)) (\<lambda>(h, target).
          Inr (0, h, target\<lparr>gptr_last := gptr_last source\<rparr>,
               source\<lparr>entry_count := 0, gptr_first := NULL, gptr_last := NULL\<rparr>)))"

subsection \<open>Chains of entries\<close>

primrec fseg :: "fifo_entry heap \<Rightarrow> ptr \<Rightarrow> addr list \<Rightarrow> ptr \<Rightarrow> bool" where
  "fseg h p [] q \<longleftrightarrow> p = q"
| "fseg h p (a # as) q \<longleftrightarrow> p = Some a \<and> (\<exists>e. h a = Some e \<and> fseg h (nxt e) as q)"

definition last_ptr :: "addr list \<Rightarrow> ptr" where
  "last_ptr as = (if as = [] then NULL else Some (last as))"

definition first_ptr :: "addr list \<Rightarrow> ptr" where
  "first_ptr as = (case as of [] \<Rightarrow> NULL | a # _ \<Rightarrow> Some a)"

definition fifo_chain :: "fifo_entry heap \<Rightarrow> 's fifo \<Rightarrow> addr list \<Rightarrow> bool" where
  "fifo_chain h buf as \<longleftrightarrow>
     fseg h (gptr_first buf) as NULL \<and> gptr_last buf = last_ptr as \<and> distinct as"

definition fifo_ok :: "fifo_entry heap \<Rightarrow> 's fifo \<Rightarrow> addr list \<Rightarrow> bool" where
  "fifo_ok h buf as \<longleftrightarrow> fifo_chain h buf as \<and> unat (entry_count buf) = length as"

type_synonym fifo_item = "ptr \<times> u64 \<times> u64"

definition item_of :: "fifo_entry \<Rightarrow> fifo_item" where
  "item_of e = (data e, size e, order e)"

definition items :: "fifo_entry heap \<Rightarrow> addr list \<Rightarrow> fifo_item list" where
  "items h as = map (\<lambda>a. item_of (the (h a))) as"

text \<open>\<open>relinkf S h h'\<close>: at most the links of entries in \<open>S\<close> changed.\<close>

definition relinkf :: "addr set \<Rightarrow> fifo_entry heap \<Rightarrow> fifo_entry heap \<Rightarrow> bool" where
  "relinkf S h h' \<longleftrightarrow>
     (\<forall>b. map_option item_of (h' b) = map_option item_of (h b)) \<and> (\<forall>b. b \<notin> S \<longrightarrow> h' b = h b)"

text \<open>
  \<open>fifo_frame as as' h h'\<close>: going from the queue \<open>as\<close> to the queue \<open>as'\<close>, every entry that left was
  freed, and no other address changed.
\<close>

definition fifo_frame :: "addr list \<Rightarrow> addr list \<Rightarrow> fifo_entry heap \<Rightarrow> fifo_entry heap \<Rightarrow> bool" where
  "fifo_frame as as' h h' \<longleftrightarrow> (\<forall>b. b \<notin> set as' \<longrightarrow> h' b = (if b \<in> set as then None else h b))"

lemma fseg_append [simp]: "fseg h p (as @ bs) q \<longleftrightarrow> (\<exists>m. fseg h p as m \<and> fseg h m bs q)"
  by (induction as arbitrary: p) auto

lemma fseg_frame: "(\<And>a. a \<in> set as \<Longrightarrow> h' a = h a) \<Longrightarrow> fseg h' p as q = fseg h p as q"
  by (induction as arbitrary: p) auto

lemma fseg_upd [simp]: "a \<notin> set as \<Longrightarrow> fseg (h(a := v)) p as q = fseg h p as q"
  by (rule fseg_frame) auto

lemma fseg_dom: "fseg h p as q \<Longrightarrow> a \<in> set as \<Longrightarrow> \<exists>e. h a = Some e"
  by (induction as arbitrary: p) auto

lemma fseg_first: "fseg h p as NULL \<Longrightarrow> p = first_ptr as"
  by (cases as) (auto simp: first_ptr_def)

lemma fseg_NULL [simp]: "fseg h None as q \<longleftrightarrow> as = [] \<and> q = None"
  by (cases as) auto

lemma last_ptr_simps [simp]:
  "last_ptr [] = NULL" "last_ptr (as @ [a]) = Some a" "as \<noteq> [] \<Longrightarrow> last_ptr as = Some (last as)"
  by (simp_all add: last_ptr_def)

lemma last_ptr_append [simp]: "bs \<noteq> [] \<Longrightarrow> last_ptr (as @ bs) = last_ptr bs"
  by (simp add: last_ptr_def)

lemma first_ptr_simps [simp]: "first_ptr [] = NULL" "first_ptr (a # as) = Some a"
  by (simp_all add: first_ptr_def)

lemma first_ptr_None [simp]: "first_ptr as = None \<longleftrightarrow> as = []" "None = first_ptr as \<longleftrightarrow> as = []"
  by (cases as; simp)+

lemma fifo_chain_first: "fifo_chain h buf as \<Longrightarrow> gptr_first buf = first_ptr as"
  by (auto simp: fifo_chain_def dest: fseg_first)

lemma fifo_chain_last: "fifo_chain h buf as \<Longrightarrow> gptr_last buf = last_ptr as"
  by (simp add: fifo_chain_def)

lemma fifo_chain_distinct: "fifo_chain h buf as \<Longrightarrow> distinct as"
  by (simp add: fifo_chain_def)

lemma fifo_chain_dom: "fifo_chain h buf as \<Longrightarrow> a \<in> set as \<Longrightarrow> \<exists>e. h a = Some e"
  by (auto simp: fifo_chain_def dest: fseg_dom)

lemma fifo_chain_frame:
  "fifo_chain h buf as \<Longrightarrow> (\<And>a. a \<in> set as \<Longrightarrow> h' a = h a) \<Longrightarrow> fifo_chain h' buf as"
  using fseg_frame [of as h' h] by (simp add: fifo_chain_def)

lemma fifo_chain_middle:
  assumes "fifo_chain h buf (bs @ a # as)"
  obtains e where "h a = Some e" "nxt e = first_ptr as"
  using assms by (auto simp: fifo_chain_def dest: fseg_first)

lemma items_simps [simp]:
  "items h [] = []" "items h (a # as) = item_of (the (h a)) # items h as"
  "items h (as @ bs) = items h as @ items h bs" "length (items h as) = length as"
  by (simp_all add: items_def)

lemma items_cong: "(\<And>a. a \<in> set as \<Longrightarrow> map_option item_of (h' a) = map_option item_of (h a)) \<Longrightarrow>
   (\<And>a. a \<in> set as \<Longrightarrow> \<exists>e. h a = Some e) \<Longrightarrow> items h' as = items h as"
  unfolding items_def by (rule map_cong) (simp, metis map_option_eq_Some option.sel)

lemma relinkf_refl [simp]: "relinkf S h h"
  by (simp add: relinkf_def)

lemma relinkf_trans: "relinkf S h h' \<Longrightarrow> relinkf T h' h'' \<Longrightarrow> S \<union> T \<subseteq> U \<Longrightarrow> relinkf U h h''"
  unfolding relinkf_def subset_iff by (metis UnI1 UnI2)

lemma relinkf_items: "relinkf S h h' \<Longrightarrow> (\<And>a. a \<in> set as \<Longrightarrow> \<exists>e. h a = Some e) \<Longrightarrow> items h' as = items h as"
  by (rule items_cong) (simp_all add: relinkf_def)

lemma fifo_unlink_ok:
  assumes "fifo_chain h buf (bs @ a # as)"
  shows "\<exists>h' buf'. fifo_unlink h buf (Some a) (last_ptr bs) = Inr (h', buf') \<and>
     fifo_chain h' buf' (bs @ as) \<and> relinkf (set bs) h h' \<and>
     entry_count buf' = entry_count buf \<and> incref buf' = incref buf \<and> decref buf' = decref buf"
proof -
  have f: "gptr_first buf = first_ptr (bs @ a # as)" and l: "gptr_last buf = last_ptr (bs @ a # as)"
    using assms by (simp_all add: fifo_chain_first fifo_chain_last)
  have "gptr_last buf = Some a \<longleftrightarrow> as = []"
    using l fifo_chain_distinct [OF assms] by (cases as rule: rev_cases) auto
  moreover have "gptr_first buf = Some a \<longleftrightarrow> bs = []"
    using f fifo_chain_distinct [OF assms] by (cases bs) auto
  ultimately show ?thesis
    using assms
    by (cases bs rule: rev_cases; cases as rule: rev_cases)
       (auto simp: fifo_unlink_def fifo_chain_def relinkf_def Let_def item_of_def)
qed

text \<open>Destroying an entry outside the chain, with or without its data.\<close>

definition dropped_world :: "'s fifo \<Rightarrow> bool \<Rightarrow> ptr \<Rightarrow> 's \<Rightarrow> 's" where
  "dropped_world buf free_data d w = (if free_data then (case d of None \<Rightarrow> w | Some x \<Rightarrow> decref buf x w) else w)"

lemma dropped_world_cong: "decref buf' = decref buf \<Longrightarrow> dropped_world buf' = dropped_world buf"
  by (simp add: dropped_world_def fun_eq_iff split: option.split)

lemma fifo_drop_entry:
  assumes "h a = Some e"
  shows "bindr (if free_data then Inr h else rrr_fifo_entry_release_data h (Some a)) (\<lambda>h.
           rrr_fifo_entry_destroy h buf (Some a) w) =
         Inr (h(a := None), dropped_world buf free_data (data e) w)"
  using assms
  by (cases "data e") (simp_all add: rrr_fifo_entry_release_data_def rrr_fifo_entry_destroy_def
      rrr_fifo_entry_decref_data_def dropped_world_def)

lemma rrr_length_inc_bug_lt:
  "unat c + k < 2 ^ 32 \<Longrightarrow> 0 < k \<Longrightarrow> rrr_length_inc_bug c = Inr (c + 1)"
  by (simp add: rrr_length_inc_bug_eq)

lemma unat_plus_1_lt: "unat (c :: rrr_length) + Suc k < 2 ^ 32 \<Longrightarrow> unat (c + 1) = unat c + 1"
  by (simp add: unat_word_ariths)

subsection \<open>Search\<close>

fun search_spec ::
    "'s read_cb \<Rightarrow> (ptr \<Rightarrow> 's \<Rightarrow> 's) \<Rightarrow> fifo_item list \<Rightarrow> 's \<Rightarrow> (c_int \<times> fifo_item list \<times> 's) res" where
  "search_spec cb free_data [] w = Inr (0, [], w)"
| "search_spec cb free_data ((d, sz, ord) # rest) w =
     (case cb d sz w of (actions, w) \<Rightarrow>
      if actions = RRR_FIFO_SEARCH_KEEP then
        bindr (search_spec cb free_data rest w) (\<lambda>(ret, kept, w). Inr (ret, (d, sz, ord) # kept, w))
      else if has_flag actions RRR_FIFO_CALLBACK_ERR then
        Inr (RRR_FIFO_CALLBACK_ERR, (d, sz, ord) # rest, w)
      else if has_flag actions RRR_FIFO_SEARCH_GIVE then
        (let w = (if has_flag actions RRR_FIFO_SEARCH_FREE then free_data d w else w) in
         if has_flag actions RRR_FIFO_SEARCH_STOP then Inr (0, rest, w)
         else search_spec cb free_data rest w)
      else if has_flag actions RRR_FIFO_SEARCH_STOP then Inr (0, (d, sz, ord) # rest, w)
      else Inl Bug)"

abbreviation free_of :: "'s fifo \<Rightarrow> ptr \<Rightarrow> 's \<Rightarrow> 's" where
  "free_of buf \<equiv> \<lambda>d w. dropped_world buf True d w"

text \<open>What one removal does to the state of the loop.\<close>

lemma search_give_step:
  assumes "fifo_chain h buf (bs @ a # as)" "h a = Some e" "unat c + length (a # as) < 2 ^ 32"
  shows "\<exists>h' buf'.
     bindr (fifo_unlink h buf (Some a) (last_ptr bs)) (\<lambda>(h, buf).
       bindr (rrr_length_inc_bug c) (\<lambda>c.
       bindr (if free_data then Inr h else rrr_fifo_entry_release_data h (Some a)) (\<lambda>h.
       bindr (rrr_fifo_entry_destroy h buf (Some a) w) (\<lambda>(h, w).
       Inr (last_ptr bs, c, True, h, buf, w))))) =
       Inr (last_ptr bs, c + 1, True, h', buf', dropped_world buf free_data (data e) w) \<and>
     fifo_chain h' buf' (bs @ as) \<and> h' a = None \<and>
     (\<forall>b. b \<noteq> a \<longrightarrow> map_option item_of (h' b) = map_option item_of (h b)) \<and>
     (\<forall>b. b \<noteq> a \<longrightarrow> b \<notin> set bs \<longrightarrow> h' b = h b) \<and>
     entry_count buf' = entry_count buf \<and> incref buf' = incref buf \<and> decref buf' = decref buf"
proof -
  obtain h1 buf' where u: "fifo_unlink h buf (Some a) (last_ptr bs) = Inr (h1, buf')"
    "fifo_chain h1 buf' (bs @ as)" "relinkf (set bs) h h1"
    "entry_count buf' = entry_count buf" "incref buf' = incref buf" "decref buf' = decref buf"
    using fifo_unlink_ok [OF assms(1)] by blast
  have dist: "a \<notin> set bs" "a \<notin> set as" using fifo_chain_distinct [OF assms(1)] by auto
  then have "h1 a = Some e" using u(3) assms(2) by (simp add: relinkf_def)
  note drop = fifo_drop_entry [of h1 a e free_data buf' w, OF this]
  have "fifo_chain (h1(a := None)) buf' (bs @ as)"
    using u(2) dist by (elim fifo_chain_frame) auto
  moreover have "dropped_world buf' free_data (data e) w = dropped_world buf free_data (data e) w"
    by (simp add: dropped_world_cong [OF u(6)])
  moreover have "rrr_length_inc_bug c = Inr (c + 1)"
    using assms(3) by (intro rrr_length_inc_bug_lt [of c "length (a # as)"]) auto
  moreover have "bindr (if free_data then Inr h1 else rrr_fifo_entry_release_data h1 (Some a)) (\<lambda>h.
       bindr (rrr_fifo_entry_destroy h buf' (Some a) w) (\<lambda>(h, w).
       Inr (last_ptr bs, c + 1, True, h, buf', w))) =
       Inr (last_ptr bs, c + 1, True, h1(a := None), buf', dropped_world buf' free_data (data e) w)"
    using arg_cong [OF drop, of "\<lambda>m. bindr m (\<lambda>(h, w). Inr (last_ptr bs, c + 1, True, h, buf', w))"]
    by (simp add: bindr_assoc)
  ultimately show ?thesis
    using u by (intro exI [of _ "h1(a := None)"] exI [of _ buf']) (auto simp: relinkf_def)
qed

text \<open>The loop, from the point where the entries \<open>bs\<close> have been kept and \<open>as\<close> is still to be seen.\<close>

definition search_result ::
    "fifo_entry heap \<Rightarrow> 's fifo \<Rightarrow> addr list \<Rightarrow> addr list \<Rightarrow> rrr_length \<Rightarrow>
     (c_int \<times> rrr_length \<times> 's fifo_st) res \<Rightarrow> (c_int \<times> fifo_item list \<times> 's) res \<Rightarrow> bool" where
  "search_result h buf bs as c run spec \<longleftrightarrow>
     (case spec of Inl f \<Rightarrow> run = Inl f
      | Inr (ret, kept, w') \<Rightarrow>
          \<exists>h' buf' as'. run = Inr (ret, c + of_nat (length as - length as'), h', buf', w') \<and>
            fifo_chain h' buf' (bs @ as') \<and> items h' as' = kept \<and> length as' \<le> length as \<and>
            (\<forall>b \<in> set bs. map_option item_of (h' b) = map_option item_of (h b)) \<and>
            (\<forall>b. b \<notin> set (bs @ as') \<longrightarrow> h' b = (if b \<in> set as then None else h b)) \<and>
            entry_count buf' = entry_count buf \<and> incref buf' = incref buf \<and> decref buf' = decref buf)"

lemma search_result_refl:
  assumes "fifo_chain h buf (bs @ as)"
  shows "search_result h buf bs as c (Inr (ret, c, h, buf, w)) (Inr (ret, items h as, w))"
  using assms unfolding search_result_def by (auto intro!: exI [of _ as])

lemma search_result_kept:
  assumes "search_result h buf (bs @ [a]) as c run spec" "h a = Some e"
  shows "search_result h buf bs (a # as) c run
           (bindr spec (\<lambda>(ret, kept, w). Inr (ret, item_of e # kept, w)))"
proof (cases spec)
  case (Inl f)
  with assms(1) show ?thesis by (simp add: search_result_def)
next
  case (Inr r)
  obtain ret kept w where r: "r = (ret, kept, w)" by (cases r)
  from assms(1) obtain h' buf' as' where
    *: "run = Inr (ret, c + of_nat (length as - length as'), h', buf', w)"
    "fifo_chain h' buf' ((bs @ [a]) @ as')" "items h' as' = kept" "length as' \<le> length as"
    "\<forall>b \<in> set (bs @ [a]). map_option item_of (h' b) = map_option item_of (h b)"
    "\<forall>b. b \<notin> set ((bs @ [a]) @ as') \<longrightarrow> h' b = (if b \<in> set as then None else h b)"
    "entry_count buf' = entry_count buf" "incref buf' = incref buf" "decref buf' = decref buf"
    unfolding search_result_def Inr r by auto
  have "item_of (the (h' a)) = item_of e"
    using *(5) assms(2) by (auto simp: map_option_eq_Some)
  with * show ?thesis
    unfolding search_result_def Inr r by (auto intro!: exI [of _ "a # as'"])
qed

lemma search_result_given:
  assumes "search_result h1 buf1 bs as (c + 1) run spec" "h1 a = None" "a \<notin> set bs"
    and "\<forall>b. b \<noteq> a \<longrightarrow> map_option item_of (h1 b) = map_option item_of (h b)"
    and "\<forall>b. b \<noteq> a \<longrightarrow> b \<notin> set bs \<longrightarrow> h1 b = h b"
    and "entry_count buf1 = entry_count buf" "incref buf1 = incref buf" "decref buf1 = decref buf"
  shows "search_result h buf bs (a # as) c run spec"
proof (cases spec)
  case (Inl f)
  with assms(1) show ?thesis by (simp add: search_result_def)
next
  case (Inr r)
  obtain ret kept w where r: "r = (ret, kept, w)" by (cases r)
  from assms(1) obtain h' buf' as' where
    *: "run = Inr (ret, (c + 1) + of_nat (length as - length as'), h', buf', w)"
    "fifo_chain h' buf' (bs @ as')" "items h' as' = kept" "length as' \<le> length as"
    "\<forall>b \<in> set bs. map_option item_of (h' b) = map_option item_of (h1 b)"
    "\<forall>b. b \<notin> set (bs @ as') \<longrightarrow> h' b = (if b \<in> set as then None else h1 b)"
    "entry_count buf' = entry_count buf1" "incref buf' = incref buf1" "decref buf' = decref buf1"
    unfolding search_result_def Inr r by auto
  have "c + of_nat (length (a # as) - length as') = (c + 1) + of_nat (length as - length as')"
    using *(4) by (simp add: Suc_diff_le)
  moreover have "\<forall>b. b \<notin> set (bs @ as') \<longrightarrow> h' b = (if b \<in> set (a # as) then None else h b)"
    using *(6) assms(2,5) by auto
  moreover have "\<forall>b \<in> set bs. map_option item_of (h' b) = map_option item_of (h b)"
    using *(5) assms(3,4) by metis
  ultimately show ?thesis
    using * assms(6-8) unfolding search_result_def Inr r by (auto intro!: exI [of _ as'])
qed

lemma rrr_fifo_search_loop_ok:
  "fifo_chain h buf (bs @ as) \<Longrightarrow> length as < fuel \<Longrightarrow> unat c + length as < 2 ^ 32 \<Longrightarrow>
   search_result h buf bs as c
     (rrr_fifo_search_loop fuel cb (first_ptr as) (last_ptr bs) c (h, buf, w))
     (search_spec cb (free_of buf) (items h as) w)"
proof (induction as arbitrary: h buf bs c w fuel)
  case Nil
  then show ?case using search_result_refl [of h buf bs "[]" c 0 w] by (cases fuel) auto
next
  case (Cons a as)
  from Cons.prems obtain f where f: "fuel = Suc f" "length as < f" by (cases fuel) auto
  from Cons.prems(1) obtain e where e: "h a = Some e" "nxt e = first_ptr as"
    by (rule fifo_chain_middle)
  obtain actions w1 where cb: "cb (data e) (size e) w = (actions, w1)" by fastforce
  have item: "items h (a # as) = (data e, size e, order e) # items h as"
    using e by (simp add: item_of_def)
  have keep: "search_result h buf bs (a # as) c
       (rrr_fifo_search_loop f cb (first_ptr as) (Some a) c (h, buf, w1))
       (bindr (search_spec cb (free_of buf) (items h as) w1)
          (\<lambda>(ret, kept, w). Inr (ret, item_of e # kept, w)))"
    using Cons.IH [of h buf "bs @ [a]" f c w1] Cons.prems f e
    by (intro search_result_kept) auto
  show ?case
  proof (cases "actions = RRR_FIFO_SEARCH_KEEP \<or> has_flag actions RRR_FIFO_CALLBACK_ERR \<or>
      \<not> has_flag actions RRR_FIFO_SEARCH_GIVE")
    case True
    then show ?thesis
      using keep search_result_refl [OF Cons.prems(1), of c RRR_FIFO_CALLBACK_ERR w1]
        search_result_refl [OF Cons.prems(1), of c 0 w1]
      unfolding item by (auto simp: f e cb item_of_def search_result_def [of _ _ _ _ _ "Inl _" "Inl _"])
  next
    case False
    obtain h1 buf1 where g:
      "bindr (fifo_unlink h buf (Some a) (last_ptr bs)) (\<lambda>(h, buf).
       bindr (rrr_length_inc_bug c) (\<lambda>c.
       bindr (if has_flag actions RRR_FIFO_SEARCH_FREE then Inr h
              else rrr_fifo_entry_release_data h (Some a)) (\<lambda>h.
       bindr (rrr_fifo_entry_destroy h buf (Some a) w1) (\<lambda>(h, w).
       Inr (last_ptr bs, c, True, h, buf, w))))) =
       Inr (last_ptr bs, c + 1, True, h1, buf1,
            dropped_world buf (has_flag actions RRR_FIFO_SEARCH_FREE) (data e) w1)"
      "fifo_chain h1 buf1 (bs @ as)" "h1 a = None"
      "\<forall>b. b \<noteq> a \<longrightarrow> map_option item_of (h1 b) = map_option item_of (h b)"
      "\<forall>b. b \<noteq> a \<longrightarrow> b \<notin> set bs \<longrightarrow> h1 b = h b"
      "entry_count buf1 = entry_count buf" "incref buf1 = incref buf" "decref buf1 = decref buf"
      using search_give_step [OF Cons.prems(1) e(1) Cons.prems(3)] by blast
    let ?w = "dropped_world buf (has_flag actions RRR_FIFO_SEARCH_FREE) (data e) w1"
    have dist: "a \<notin> set bs" "a \<notin> set as" using fifo_chain_distinct [OF Cons.prems(1)] by auto
    have free: "free_of buf1 = free_of buf" by (simp add: dropped_world_cong [OF g(8)])
    have items: "items h1 as = items h as"
    proof (rule items_cong)
      fix b assume "b \<in> set as"
      then show "map_option item_of (h1 b) = map_option item_of (h b)" "\<exists>e. h b = Some e"
        using g(4) dist fifo_chain_dom [OF Cons.prems(1), of b] by auto
    qed
    have "unat (c + 1) + length as < 2 ^ 32"
      using Cons.prems(3) unat_plus_1_lt [of c "length as"] by simp
    from search_result_given [OF Cons.IH [OF g(2) f(2) this] g(3) dist(1) g(4-8)]
    have rec: "search_result h buf bs (a # as) c
        (rrr_fifo_search_loop f cb (first_ptr as) (last_ptr bs) (c + 1) (h1, buf1, ?w))
        (search_spec cb (free_of buf) (items h as) ?w)"
      by (simp add: items free)
    have stop: "search_result h buf bs (a # as) c (Inr (0, c + 1, h1, buf1, ?w)) (Inr (0, items h as, ?w))"
      using search_result_given [OF search_result_refl [OF g(2)] g(3) dist(1) g(4-8)] by (simp add: items)
    from False show ?thesis
      using rec stop unfolding item
      by (auto simp: f(1) e cb g(1) Let_def dropped_world_def)
  qed
qed

lemma fifo_ok_chain: "fifo_ok h buf as \<Longrightarrow> fifo_chain h buf as"
  by (simp add: fifo_ok_def)

lemma fifo_ok_count: "fifo_ok h buf as \<Longrightarrow> length as < 2 ^ 32"
  unfolding fifo_ok_def using unat_bound [of "entry_count buf"] by simp

lemma fifo_ok_empty: "fifo_ok h buf as \<Longrightarrow> rrr_fifo_get_entry_count buf = 0 \<longleftrightarrow> as = []"
  by (auto simp: fifo_ok_def rrr_fifo_get_entry_count_def unat_eq_0)

text \<open>A buffer of three entries, used by the witnesses; its world is a log of decref calls.\<close>

definition demo_fifo_heap :: "fifo_entry heap" where
  "demo_fifo_heap =
     [1 \<mapsto> \<lparr>data = Some 11, size = 5, order = 10, nxt = Some 2\<rparr>,
      2 \<mapsto> \<lparr>data = Some 12, size = 6, order = 20, nxt = Some 3\<rparr>,
      3 \<mapsto> \<lparr>data = Some 13, size = 7, order = 30, nxt = NULL\<rparr>]"

definition demo_fifo :: "addr list fifo" where
  "demo_fifo = \<lparr>gptr_first = Some 1, gptr_last = Some 3, entry_count = 3,
     incref = (\<lambda>d w. w), decref = (\<lambda>d w. d # w)\<rparr>"

lemma demo_fifo_ok: "fifo_ok demo_fifo_heap demo_fifo [1, 2, 3]"
  by (simp add: fifo_ok_def fifo_chain_def demo_fifo_heap_def demo_fifo_def)

text \<open>
  Claim C1: \<open>rrr_fifo_search\<close> on a well formed buffer refines the search of a list. It always
  returns. It aborts exactly when the list search meets an illegal answer of the callback.
  Otherwise it gives the callback the same entries in the same order, returns the same code, keeps
  exactly the entries the callback did not ask to give away, frees the data of those it was told
  to free and no other, leaves the chain, the last pointer and the count right, and frees the
  entries taken out and touches nothing else.
\<close>

theorem fifo_search_refines:
  assumes "fifo_ok h buf as" "length as < fuel"
  shows "case search_spec cb (free_of buf) (items h as) w of
           Inl f \<Rightarrow> rrr_fifo_search fuel (h, buf, w) cb = Inl f
         | Inr (ret, kept, w') \<Rightarrow>
             (\<exists>h' buf' as'. rrr_fifo_search fuel (h, buf, w) cb = Inr (ret, h', buf', w') \<and>
                fifo_ok h' buf' as' \<and> items h' as' = kept \<and> fifo_frame as as' h h')"
proof (cases "as = []")
  case True
  then have "rrr_fifo_search fuel (h, buf, w) cb = Inr (0, h, buf, w)"
    using fifo_ok_empty [OF assms(1)] by (simp add: rrr_fifo_search_def)
  with True assms(1) show ?thesis by (auto simp: fifo_frame_def intro!: exI [of _ "[]"])
next
  case False
  note chain = fifo_ok_chain [OF assms(1)]
  have loop: "search_result h buf [] as 0
      (rrr_fifo_search_loop fuel cb (gptr_first buf) NULL 0 (h, buf, w))
      (search_spec cb (free_of buf) (items h as) w)"
    using rrr_fifo_search_loop_ok [of h buf "[]" as fuel 0 cb w] chain assms(2)
      fifo_ok_count [OF assms(1)] fifo_chain_first [OF chain] by simp
  show ?thesis
  proof (cases "search_spec cb (free_of buf) (items h as) w")
    case (Inl f)
    with loop False fifo_ok_empty [OF assms(1)] show ?thesis
      by (simp add: search_result_def rrr_fifo_search_def)
  next
    case (Inr r)
    obtain ret kept w' where r: "r = (ret, kept, w')" by (cases r)
    from loop obtain h' buf' as' where
      *: "rrr_fifo_search_loop fuel cb (gptr_first buf) NULL 0 (h, buf, w) =
            Inr (ret, of_nat (length as - length as'), h', buf', w')"
      "fifo_chain h' buf' as'" "items h' as' = kept" "length as' \<le> length as"
      "\<forall>b. b \<notin> set as' \<longrightarrow> h' b = (if b \<in> set as then None else h b)"
      "entry_count buf' = entry_count buf"
      unfolding search_result_def Inr r by auto
    obtain c where c: "rrr_length_sub_bug (entry_count buf) (of_nat (length as - length as')) = Inr c"
        "unat c = length as'"
      using rrr_length_sub_bug_nat [of "entry_count buf" "length as" "length as - length as'"] assms(1) *(4)
      by (auto simp: fifo_ok_def)
    have "fifo_ok h' (buf'\<lparr>entry_count := c\<rparr>) as'"
      using *(2) c(2) by (simp add: fifo_ok_def fifo_chain_def)
    with * c Inr r False fifo_ok_empty [OF assms(1)] show ?thesis
      by (auto simp: rrr_fifo_search_def fifo_frame_def)
  qed
qed

text \<open>The callback of the witness gives away and frees every entry larger than 5 bytes.\<close>

theorem fifo_search_refines_witness:
  "\<exists>h' buf' as'. rrr_fifo_search 4 (demo_fifo_heap, demo_fifo, [])
       (\<lambda>d sz w. (if sz > 5 then RRR_FIFO_SEARCH_GIVE OR RRR_FIFO_SEARCH_FREE else 0, w)) =
       Inr (0, h', buf', [13, 12]) \<and>
     fifo_ok h' buf' as' \<and> items h' as' = [(Some 11, 5, 10)] \<and> fifo_frame [1, 2, 3] as' demo_fifo_heap h'"
  using fifo_search_refines [OF demo_fifo_ok, where fuel = 4 and w = "[]" and
      cb = "\<lambda>d sz w. (if sz > 5 then RRR_FIFO_SEARCH_GIVE OR RRR_FIFO_SEARCH_FREE else 0, w)"]
  by (simp add: demo_fifo_heap_def demo_fifo_def item_of_def fifo_flag_defs has_flag_def dropped_world_def)

end
