(* ===== verification/RRR_Fifo_Write.thy ===== *)
theory RRR_Fifo_Write
  imports RRR_Fifo
begin

text \<open>
  The writing half of the message buffer (\<^verbatim>\<open>rrr_fifo_write\<close> and its helpers in \<^verbatim>\<open>src/lib/fifo.c\<close>):
  a write refines an insertion into the list of items, and ordered writes keep it sorted.
\<close>

subsection \<open>Write\<close>

definition item_order :: "fifo_item \<Rightarrow> u64" where
  "item_order it = snd (snd it)"

text \<open>
  Where an item goes: at the end, or, ordered, in front of the first item of at least its order. When an ordered item is written
  to a buffer that is not sorted, which an earlier write without order can leave, it goes to the end if the last item is smaller.
\<close>

definition insert_ordered :: "fifo_item \<Rightarrow> fifo_item list \<Rightarrow> fifo_item list" where
  "insert_ordered it its =
     takeWhile (\<lambda>i. item_order i < item_order it) its @ it # dropWhile (\<lambda>i. item_order i < item_order it) its"

definition insert_spec :: "bool \<Rightarrow> fifo_item \<Rightarrow> fifo_item list \<Rightarrow> fifo_item list" where
  "insert_spec ordered it its =
     (if \<not> ordered then its @ [it]
      else if sorted (map item_order its) then insert_ordered it its
      else if item_order (last its) < item_order it then its @ [it]
      else insert_ordered it its)"

lemma insert_ordered_last:
  assumes "sorted (map item_order its)" "its \<noteq> []" "item_order (last its) < item_order it"
  shows "insert_ordered it its = its @ [it]"
proof -
  have "item_order i \<le> item_order (last its)" if "i \<in> set its" for i
    using assms(1) that by (induction its) auto
  then have "\<forall>i \<in> set its. item_order i < item_order it" using assms(3) by (meson le_less_trans)
  then show ?thesis by (simp add: insert_ordered_def)
qed

lemma insert_spec_code:
  "insert_spec ordered it its =
     (if \<not> ordered \<or> (its \<noteq> [] \<and> item_order (last its) < item_order it) then its @ [it] else insert_ordered it its)"
  using insert_ordered_last [of its it] by (cases "its = []") (simp_all add: insert_spec_def)

lemma fifo_find_pos_ok:
  "fseg h p as NULL \<Longrightarrow> length as < fuel \<Longrightarrow>
   fifo_find_pos fuel h ord p (last_ptr bs) =
     Inr (first_ptr (dropWhile (\<lambda>a. order (the (h a)) < ord) as),
          last_ptr (bs @ takeWhile (\<lambda>a. order (the (h a)) < ord) as))"
proof (induction as arbitrary: p bs fuel)
  case Nil
  then show ?case by (cases fuel) auto
next
  case (Cons a as)
  from Cons.prems obtain e f where e: "p = Some a" "h a = Some e" "fseg h (nxt e) as NULL"
    "fuel = Suc f" "length as < f" by (cases fuel) auto
  with Cons.IH [OF e(3,5), of "bs @ [a]"] show ?case by simp
qed

text \<open>The three ways the pointers are set: empty buffer, at the end, in front of \<open>ys\<close>.\<close>

definition inserted ::
    "fifo_entry heap \<Rightarrow> 's fifo \<Rightarrow> addr \<Rightarrow> u64 \<Rightarrow> addr list \<Rightarrow> addr list \<Rightarrow>
     (fifo_entry heap \<times> 's fifo) res \<Rightarrow> bool" where
  "inserted h buf x ord xs ys run \<longleftrightarrow>
     (\<exists>h' buf'. run = Inr (h', buf') \<and> fifo_chain h' buf' (xs @ x # ys) \<and>
        (\<forall>b. b \<noteq> x \<longrightarrow> map_option item_of (h' b) = map_option item_of (h b)) \<and>
        map_option item_of (h' x) = map_option (\<lambda>e. (data e, size e, ord)) (h x) \<and>
        (\<forall>b. b \<notin> set (xs @ x # ys) \<longrightarrow> h' b = h b) \<and>
        entry_count buf' = entry_count buf \<and> incref buf' = incref buf \<and> decref buf' = decref buf)"

lemma insert_at_end_ok:
  assumes "fifo_chain h buf as" "h x = Some e" "x \<notin> set as" "as \<noteq> []"
  shows "inserted h buf x ord as []
     (bindr (modify (h(x \<mapsto> e\<lparr>order := ord\<rparr>)) (gptr_last buf) (\<lambda>l. l\<lparr>nxt := Some x\<rparr>)) (\<lambda>h.
      bindr (modify h (Some x) (\<lambda>e. e\<lparr>nxt := NULL\<rparr>)) (\<lambda>h. Inr (h, buf\<lparr>gptr_last := Some x\<rparr>))))"
  using assms by (cases as rule: rev_cases) (auto simp: inserted_def fifo_chain_def item_of_def)

lemma insert_before_ok:
  assumes "fifo_chain h buf (xs @ y # ys)" "h x = Some e" "x \<notin> set (xs @ y # ys)"
  shows "inserted h buf x ord xs (y # ys)
     (if last_ptr xs \<noteq> NULL then
        bindr (modify (h(x \<mapsto> e\<lparr>order := ord\<rparr>)) (last_ptr xs) (\<lambda>p. p\<lparr>nxt := Some x\<rparr>)) (\<lambda>h.
        bindr (modify h (Some x) (\<lambda>e. e\<lparr>nxt := Some y\<rparr>)) (\<lambda>h. Inr (h, buf)))
      else
        bindr (modify (h(x \<mapsto> e\<lparr>order := ord\<rparr>)) (Some x) (\<lambda>e. e\<lparr>nxt := gptr_first buf\<rparr>)) (\<lambda>h.
        Inr (h, buf\<lparr>gptr_first := Some x\<rparr>)))"
  using assms by (cases xs rule: rev_cases) (auto simp: inserted_def fifo_chain_def item_of_def)

definition insert_addrs :: "bool \<Rightarrow> fifo_entry heap \<Rightarrow> u64 \<Rightarrow> addr list \<Rightarrow> addr list \<times> addr list" where
  "insert_addrs ordered h ord as =
     (if \<not> ordered \<or> (as \<noteq> [] \<and> order (the (h (last as))) < ord) then (as, [])
      else (takeWhile (\<lambda>a. order (the (h a)) < ord) as, dropWhile (\<lambda>a. order (the (h a)) < ord) as))"

lemma insert_addrs_append: "fst (insert_addrs ordered h ord as) @ snd (insert_addrs ordered h ord as) = as"
  by (simp add: insert_addrs_def)

lemma rrr_fifo_write_update_pointers_ok:
  assumes "fifo_chain h buf as" "h x = Some e" "x \<notin> set as" "ordered \<Longrightarrow> length as < walk"
  shows "inserted h buf x ord (fst (insert_addrs ordered h ord as)) (snd (insert_addrs ordered h ord as))
     (rrr_fifo_write_update_pointers walk h buf (Some x) ord ordered)"
proof (cases "as = []")
  case True
  with assms show ?thesis
    by (auto simp: rrr_fifo_write_update_pointers_def inserted_def fifo_chain_def insert_addrs_def
        item_of_def Let_def)
next
  case False
  let ?h = "h(x \<mapsto> e\<lparr>order := ord\<rparr>)"
  note fl = fifo_chain_first [OF assms(1)] fifo_chain_last [OF assms(1)]
  obtain z where first: "gptr_first buf = Some z" using fl False by (cases as) auto
  note at_end = insert_at_end_ok [OF assms(1-3) False, of ord]
  show ?thesis
  proof (cases ordered)
    case False': False
    with first at_end assms(2) show ?thesis
      by (simp add: rrr_fifo_write_update_pointers_def insert_addrs_def Let_def del: fun_upd_apply)
  next
    case True
    obtain l where l: "h (last as) = Some l"
      using fifo_chain_dom [OF assms(1), of "last as"] False by auto
    have lx: "last as \<noteq> x" using assms(3) False by auto
    have load: "load ?h (gptr_last buf) = Inr l" using l lx fl False by simp
    show ?thesis
    proof (cases "order l < ord")
      case True': True
      with True first at_end assms(2) l load False show ?thesis
        by (simp add: rrr_fifo_write_update_pointers_def insert_addrs_def Let_def del: fun_upd_apply)
    next
      case False': False
      let ?P = "\<lambda>a. order (the (h a)) < ord"
      have cong: "takeWhile (\<lambda>a. order (the (?h a)) < ord) as = takeWhile ?P as"
        "dropWhile (\<lambda>a. order (the (?h a)) < ord) as = dropWhile ?P as"
        using assms(3) by (auto intro!: takeWhile_cong dropWhile_cong)
      have "dropWhile ?P as \<noteq> []"
        using False False' l by (auto simp: dropWhile_eq_Nil_conv intro!: bexI [of _ "last as"])
      then obtain y ys where ys: "dropWhile ?P as = y # ys" by (cases "dropWhile ?P as") auto
      have as: "as = takeWhile ?P as @ y # ys" using ys by (metis takeWhile_dropWhile_id)
      have "fseg ?h (gptr_first buf) as NULL" using assms(1,3) by (simp add: fifo_chain_def)
      from fifo_find_pos_ok [OF this assms(4) [OF True], of ord "[]"]
      have find: "fifo_find_pos walk ?h ord (gptr_first buf) NULL = Inr (Some y, last_ptr (takeWhile ?P as))"
        by (simp only: cong ys) simp
      have "inserted h buf x ord (takeWhile ?P as) (y # ys)
         (if last_ptr (takeWhile ?P as) \<noteq> NULL then
            bindr (modify ?h (last_ptr (takeWhile ?P as)) (\<lambda>p. p\<lparr>nxt := Some x\<rparr>)) (\<lambda>h.
            bindr (modify h (Some x) (\<lambda>e. e\<lparr>nxt := Some y\<rparr>)) (\<lambda>h. Inr (h, buf)))
          else
            bindr (modify ?h (Some x) (\<lambda>e. e\<lparr>nxt := gptr_first buf\<rparr>)) (\<lambda>h.
            Inr (h, buf\<lparr>gptr_first := Some x\<rparr>)))"
        using insert_before_ok [of h buf "takeWhile ?P as" y ys x e ord] assms(1-3) as by metis
      with True first load find False' l ys assms(2) show ?thesis
        by (simp add: rrr_fifo_write_update_pointers_def insert_addrs_def Let_def del: fun_upd_apply)
    qed
  qed
qed

lemma insert_addrs_items:
  assumes "inserted h buf x ord (fst (insert_addrs ordered h ord as)) (snd (insert_addrs ordered h ord as))
      (Inr (h', buf'))" "h x = Some e" "x \<notin> set as" "\<And>a. a \<in> set as \<Longrightarrow> \<exists>e. h a = Some e"
  shows "items h' (fst (insert_addrs ordered h ord as) @ x # snd (insert_addrs ordered h ord as)) =
         insert_spec ordered (data e, size e, ord) (items h as)"
proof -
  define xs ys where "xs = fst (insert_addrs ordered h ord as)" and "ys = snd (insert_addrs ordered h ord as)"
  have as: "as = xs @ ys" unfolding xs_def ys_def by (simp only: insert_addrs_append)
  have keep: "items h' as = items h as"
  proof (rule items_cong)
    fix a assume "a \<in> set as"
    then show "\<exists>e. h a = Some e" by (rule assms(4))
    from \<open>a \<in> set as\<close> assms(3) have "a \<noteq> x" by auto
    then show "map_option item_of (h' a) = map_option item_of (h a)"
      using assms(1) unfolding inserted_def by simp
  qed
  have x: "item_of (the (h' x)) = (data e, size e, ord)"
    using assms(1,2) by (auto simp: inserted_def map_option_eq_Some)
  have ord: "item_order (item_of (the (h a))) = order (the (h a))" for a
    by (simp add: item_order_def item_of_def)
  have "items h xs @ (data e, size e, ord) # items h ys = insert_spec ordered (data e, size e, ord) (items h as)"
    unfolding xs_def ys_def insert_addrs_def insert_spec_code insert_ordered_def items_def
    by (auto simp: takeWhile_map dropWhile_map comp_def ord last_map) (simp_all add: item_order_def)
  moreover have "items h' xs = items h xs" "items h' ys = items h ys"
    using keep as by (simp_all add: items_def)
  ultimately show ?thesis
    using x by (simp flip: xs_def ys_def)
qed

text \<open>
  What the callback can answer: that it failed, that there is nothing to write, or that the item is to be written, in order or not; with the
  last two, that it wants to be called again. Every other value is illegal.
\<close>

datatype write_answer = Failed | Dropped bool | Written bool bool

definition answer_of :: "c_int \<Rightarrow> write_answer option" where
  "answer_of = map_of
     [(0, Written False False), (RRR_FIFO_WRITE_ORDERED, Written True False),
      (RRR_FIFO_WRITE_AGAIN, Written False True), (RRR_FIFO_WRITE_ORDERED + RRR_FIFO_WRITE_AGAIN, Written True True),
      (RRR_FIFO_WRITE_DROP, Dropped False), (RRR_FIFO_WRITE_DROP + RRR_FIFO_WRITE_AGAIN, Dropped True),
      (RRR_FIFO_GLOBAL_ERR, Failed)]"

lemma flags_only:
  fixes r :: c_int
  assumes "r AND NOT (1024 OR 4096 OR 2048) = 0"
  shows "r \<in> {0, 1024, 2048, 4096, 3072, 5120, 6144, 7168}"
proof -
  have "r AND 2 ^ n = 0 \<or> r AND 2 ^ n = 2 ^ n" for n :: nat
  proof (cases "bit r n")
    case True
    then have "r AND 2 ^ n = 2 ^ n" by (intro bit_eqI) (auto simp: bit_simps)
    then show ?thesis ..
  qed (simp add: and_exp_eq_0_iff_not_bit)
  from this [of 10] this [of 11] this [of 12]
  have b: "r AND 1024 \<in> {0, 1024}" "r AND 2048 \<in> {0, 2048}" "r AND 4096 \<in> {0, 4096}" by simp_all
  have "r = (r AND (1024 OR 4096 OR 2048)) OR (r AND NOT (1024 OR 4096 OR 2048))"
    by (metis and.right_neutral bit.conj_disj_distrib bit.disj_cancel_right)
  then have "r = (r AND 1024) OR (r AND 4096) OR (r AND 2048)" using assms by (simp only: bit.conj_disj_distrib or.right_neutral)
  with b show ?thesis by auto
qed

lemma write_check_answer:
  "rrr_fifo_write_callback_return_check r =
     (case answer_of r of None \<Rightarrow> Inl Bug | Some Failed \<Rightarrow> Inr (1, False, False, False)
      | Some (Dropped again) \<Rightarrow> Inr (0, False, again, True) | Some (Written ordered again) \<Rightarrow> Inr (0, ordered, again, False))"
proof (cases "r AND NOT (1024 OR 4096 OR 2048) = 0")
  case True
  from flags_only [OF this] show ?thesis
    by (auto simp: rrr_fifo_write_callback_return_check_def answer_of_def fifo_flag_defs bug_if_def Let_def)
next
  case False
  show ?thesis
  proof (cases "r = 1")
    case r: False
    have "answer_of r = None" using False r by (auto simp: answer_of_def fifo_flag_defs)
    moreover have "r AND NOT 1 \<noteq> 0" if "r AND 1 = 1"
      using that r by (metis and.right_neutral bit.conj_disj_distrib bit.disj_cancel_right or.right_neutral)
    moreover have "r AND NOT (1024 OR 4096 OR 2048) = (r AND NOT (2048 OR 1024)) AND NOT 4096"
      by (simp only: bit.de_Morgan_disj and.assoc and.commute and.left_commute)
    then have "r AND NOT (2048 OR 1024) \<noteq> 0" using False by auto
    ultimately show ?thesis
      using False by (auto simp: rrr_fifo_write_callback_return_check_def fifo_flag_defs bug_if_def Let_def)
  qed (simp add: rrr_fifo_write_callback_return_check_def answer_of_def fifo_flag_defs bug_if_def Let_def)
qed

text \<open>
  The reference for \<open>rrr_fifo_write\<close> when memory lasts: the items written one after the other until
  the callback stops asking to be called again.
\<close>

fun write_spec ::
    "nat \<Rightarrow> 's write_cb \<Rightarrow> (ptr \<Rightarrow> 's \<Rightarrow> 's) \<Rightarrow> fifo_item list \<Rightarrow> 's \<Rightarrow>
     (c_int \<times> fifo_item list \<times> 's) res" where
  "write_spec 0 cb take_data its w = Inl Diverge"
| "write_spec (Suc fuel) cb take_data its w =
     (case cb NULL 0 0 w of (r, d, sz, ord, w) \<Rightarrow>
      case answer_of r of
        None \<Rightarrow> Inl Bug
      | Some Failed \<Rightarrow> Inr (1, its, w)
      | Some (Dropped again) \<Rightarrow> if again then write_spec fuel cb take_data its w else Inr (0, its, w)
      | Some (Written ordered again) \<Rightarrow>
          if d = NULL then Inl Bug
          else let its = insert_spec ordered (d, sz, ord) its; w = take_data d w in
            if again then write_spec fuel cb take_data its w else Inr (0, its, w))"

lemma write_spec_step:
  "write_spec (Suc fuel) cb take_data its w =
     (case cb NULL 0 0 w of (r, d, sz, ord, w) \<Rightarrow>
      bindr (rrr_fifo_write_callback_return_check r) (\<lambda>(ret, ordered, again, drop).
      if ret \<noteq> 0 \<or> drop then (if again then write_spec fuel cb take_data its w else Inr (ret, its, w))
      else if d = NULL then Inl Bug
      else let its = insert_spec ordered (d, sz, ord) its; w = take_data d w in
           if again then write_spec fuel cb take_data its w else Inr (0, its, w)))"
  by (simp add: write_check_answer split: prod.split option.split write_answer.split)

declare write_spec.simps(2) [simp del] write_spec_step [simp]

definition taken_world :: "'s fifo \<Rightarrow> ptr \<Rightarrow> 's \<Rightarrow> 's" where
  "taken_world buf d w = (case d of None \<Rightarrow> w | Some x \<Rightarrow> incref buf x w)"

text \<open>What the allocator is relied on for: it finds an address that is not in use.\<close>

definition fresh_alloc :: "(fifo_entry heap \<Rightarrow> ptr) \<Rightarrow> bool" where
  "fresh_alloc alloc \<longleftrightarrow> (\<forall>h. finite (dom h) \<longrightarrow> (\<exists>a. alloc h = Some a \<and> h a = None))"

lemma insert_spec_length [simp]: "length (insert_spec ordered it its) = Suc (length its)"
proof -
  have "length (takeWhile P its) + length (dropWhile P its) = length its" for P
    by (metis length_append takeWhile_dropWhile_id)
  then show ?thesis by (simp add: insert_spec_code insert_ordered_def)
qed

lemma write_spec_grows: "write_spec fuel cb f its w = Inr (ret, its', w') \<Longrightarrow> length its \<le> length its'"
proof (induction fuel arbitrary: its w)
  case (Suc fuel)
  then show ?case
    by (auto simp: bindr_eq_Inr Let_def split: prod.splits if_splits
        dest!: Suc.IH) 
qed simp

lemma write_store_step:
  assumes "fifo_ok h buf as" "h x = None" "length as < walk" "length as + 1 < 2 ^ 32"
    and "h1 = h(x \<mapsto> \<lparr>data = d, size = sz, order = 0, nxt = NULL\<rparr>)" "d \<noteq> NULL"
  shows "\<exists>h' buf' as'.
     bindr (load h1 (Some x)) (\<lambda>e.
       bindr (rrr_fifo_write_update_pointers walk h1 buf (Some x) ord ordered) (\<lambda>(h, buf').
       case rrr_length_inc_err (entry_count buf') of (ret, c) \<Rightarrow>
         Inr (ret, h, buf'\<lparr>entry_count := c\<rparr>, rrr_fifo_entry_incref_data buf e w))) =
       Inr (0, h', buf', taken_world buf d w) \<and>
     fifo_ok h' buf' as' \<and> items h' as' = insert_spec ordered (d, sz, ord) (items h as) \<and>
     set as' = insert x (set as) \<and> (\<forall>b. b \<notin> set as' \<longrightarrow> h' b = h b) \<and>
     incref buf' = incref buf \<and> decref buf' = decref buf"
proof -
  let ?e = "\<lparr>data = d, size = sz, order = 0, nxt = NULL\<rparr>"
  have x: "x \<notin> set as" "h1 x = Some ?e"
    using fifo_chain_dom [OF fifo_ok_chain [OF assms(1)], of x] assms(2,5) by auto
  have chain: "fifo_chain h1 buf as"
    using fifo_ok_chain [OF assms(1)] x(1) by (elim fifo_chain_frame) (auto simp: assms(5))
  define xs ys where "xs = fst (insert_addrs ordered h1 ord as)" and "ys = snd (insert_addrs ordered h1 ord as)"
  have ins: "inserted h1 buf x ord xs ys (rrr_fifo_write_update_pointers walk h1 buf (Some x) ord ordered)"
    unfolding xs_def ys_def
    by (rule rrr_fifo_write_update_pointers_ok [OF chain x(2) x(1)]) (rule assms(3))
  then obtain h' buf' where
    run: "rrr_fifo_write_update_pointers walk h1 buf (Some x) ord ordered = Inr (h', buf')"
    and ok: "fifo_chain h' buf' (xs @ x # ys)" "\<forall>b. b \<notin> set (xs @ x # ys) \<longrightarrow> h' b = h1 b"
      "entry_count buf' = entry_count buf" "incref buf' = incref buf" "decref buf' = decref buf"
    unfolding inserted_def by blast
  have as: "as = xs @ ys" unfolding xs_def ys_def by (simp only: insert_addrs_append)
  have its: "items h' (xs @ x # ys) = insert_spec ordered (d, sz, ord) (items h as)"
  proof -
    have "items h1 as = items h as" using x(1) assms(5) by (auto simp: items_def)
    with insert_addrs_items [OF ins [unfolded run xs_def ys_def] x(2) x(1)] fifo_chain_dom [OF chain]
    show ?thesis by (simp flip: xs_def ys_def)
  qed
  have cnt: "unat (entry_count buf') = length as" using assms(1) ok(3) by (simp add: fifo_ok_def)
  then have "rrr_length_inc_err (entry_count buf') = (0, entry_count buf' + 1)"
    "unat (entry_count buf' + 1) = length as + 1"
    using assms(4) unat_plus_1_lt [of "entry_count buf'" 0] by (simp_all add: rrr_length_inc_err_eq)
  with run ok its cnt x assms(5) as show ?thesis
    by (intro exI [of _ h'] exI [of _ "buf'\<lparr>entry_count := entry_count buf' + 1\<rparr>"] exI [of _ "xs @ x # ys"])
       (auto simp: fifo_ok_def fifo_chain_def rrr_fifo_entry_incref_data_def taken_world_def)
qed

lemma rrr_fifo_write_loop_ok:
  assumes alloc: "fresh_alloc alloc"
  shows "fifo_ok h buf as \<Longrightarrow> finite (dom h) \<Longrightarrow>
    write_spec fuel cb (taken_world buf) (items h as) w = Inr (ret, its', w') \<Longrightarrow>
    length its' < 2 ^ 32 \<Longrightarrow> length its' \<le> walk \<Longrightarrow>
    \<exists>h' buf' as'. rrr_fifo_write_loop fuel walk alloc cb (h, buf, w) = Inr (ret, h', buf', w') \<and>
      fifo_ok h' buf' as' \<and> items h' as' = its' \<and> set as \<subseteq> set as' \<and>
      (\<forall>b. b \<notin> set as' \<longrightarrow> h' b = h b)"
proof (induction fuel arbitrary: h buf as w)
  case (Suc fuel)
  from alloc Suc.prems(2) obtain x where x: "alloc h = Some x" "h x = None"
    unfolding fresh_alloc_def by blast
  obtain r d sz ord w1 where cb: "cb NULL 0 0 w = (r, d, sz, ord, w1)" by (metis prod_cases5)
  let ?h1 = "h(x \<mapsto> \<lparr>data = d, size = sz, order = 0, nxt = NULL\<rparr>)"
  from Suc.prems(3) cb obtain rc ordered again drop where
    chk: "rrr_fifo_write_callback_return_check r = Inr (rc, ordered, again, drop)"
    by (auto simp: bindr_eq_Inr split: prod.splits)
  have gone: "?h1(x := None) = h" using x(2) by (simp add: fun_upd_idem)
  show ?case
  proof (cases "rc \<noteq> 0 \<or> drop")
    case True
    have run: "rrr_fifo_write_loop (Suc fuel) walk alloc cb (h, buf, w) =
        (if again then rrr_fifo_write_loop fuel walk alloc cb (h, buf, w1) else Inr (rc, h, buf, w1))"
      using True x cb chk gone by (simp add: rrr_fifo_entry_new_def)
    show ?thesis
    proof (cases again)
      case True': True
      with True Suc.prems(3) cb chk Suc.IH [OF Suc.prems(1,2) _ Suc.prems(4,5), of w1] show ?thesis
        by (simp add: run del: rrr_fifo_write_loop.simps split: if_splits)
    next
      case False
      with True Suc.prems(1,3) cb chk show ?thesis
        by (auto simp: run simp del: rrr_fifo_write_loop.simps split: if_splits)
    qed
  next
    case False
    let ?its = "insert_spec ordered (d, sz, ord) (items h as)" and ?w = "taken_world buf d w1"
    have d: "d \<noteq> NULL" using Suc.prems(3) cb chk False by (auto split: if_splits)
    have spec: "(if again then write_spec fuel cb (taken_world buf) ?its ?w else Inr (0, ?its, ?w)) =
        Inr (ret, its', w')"
      using Suc.prems(3) cb chk False d by (auto simp: Let_def split: if_splits)
    then have "Suc (length as) \<le> length its'"
      using write_spec_grows [of fuel cb "taken_world buf" ?its ?w ret its' w'] by (auto split: if_splits)
    with Suc.prems(4,5) have "length as < walk" "length as + 1 < 2 ^ 32" by auto
    from write_store_step [OF Suc.prems(1) x(2) this refl d] obtain h2 buf2 as2 where
      step: "bindr (load ?h1 (Some x)) (\<lambda>e.
       bindr (rrr_fifo_write_update_pointers walk ?h1 buf (Some x) ord ordered) (\<lambda>(h, buf').
       case rrr_length_inc_err (entry_count buf') of (ret, c) \<Rightarrow>
         Inr (ret, h, buf'\<lparr>entry_count := c\<rparr>, rrr_fifo_entry_incref_data buf e w1))) =
       Inr (0, h2, buf2, ?w)"
      "fifo_ok h2 buf2 as2" "items h2 as2 = ?its" "set as2 = insert x (set as)"
      "\<forall>b. b \<notin> set as2 \<longrightarrow> h2 b = h b" "incref buf2 = incref buf" "decref buf2 = decref buf"
      by blast
    have run: "rrr_fifo_write_loop (Suc fuel) walk alloc cb (h, buf, w) =
        (if again then rrr_fifo_write_loop fuel walk alloc cb (h2, buf2, ?w) else Inr (0, h2, buf2, ?w))"
      using False x cb chk d step(1)
      by (cases d) (simp_all add: rrr_fifo_entry_new_def fun_upd_same del: fun_upd_apply)
    show ?thesis
    proof (cases again)
      case True
      have "dom h2 \<subseteq> set as2 \<union> dom h" using step(5) by (metis Un_iff domIff subsetI)
      then have fin: "finite (dom h2)" by (rule finite_subset) (simp add: Suc.prems(2))
      have "taken_world buf2 = taken_world buf"
        by (simp add: taken_world_def step(6) fun_eq_iff split: option.split)
      with True spec step(3) Suc.IH [OF step(2) fin _ Suc.prems(4,5), of ?w] obtain h' buf' as' where
        "rrr_fifo_write_loop fuel walk alloc cb (h2, buf2, ?w) = Inr (ret, h', buf', w')"
        "fifo_ok h' buf' as'" "items h' as' = its'" "set as2 \<subseteq> set as'" "\<forall>b. b \<notin> set as' \<longrightarrow> h' b = h2 b"
        by auto
      with True step(4,5) run show ?thesis
        by (intro exI [of _ h'] exI [of _ buf'] exI [of _ as']) auto
    next
      case False
      with spec step run show ?thesis by auto
    qed
  qed
qed simp

text \<open>
  Claim C10: \<open>rrr_fifo_write\<close> refines writing into a list. When memory lasts and the callback ends
  its run within the bound, the buffer ends up holding exactly the items written, each at the end
  or, ordered, in front of the first item of at least its order; the exception is an ordered item in a buffer
  that is not sorted, which goes to the end when the last item is smaller. Dropped items leave no trace, the
  data of each written item has been referenced once, chain, last pointer and count are right, and
  nothing outside the buffer changes.
\<close>

theorem fifo_write_refines:
  assumes "fresh_alloc alloc" "fifo_ok h buf as" "finite (dom h)"
    and "write_spec fuel cb (taken_world buf) (items h as) w = Inr (ret, its', w')"
    and "length its' < 2 ^ 32" "length its' \<le> walk"
  shows "\<exists>h' buf' as'. rrr_fifo_write fuel walk alloc (h, buf, w) cb = Inr (ret, h', buf', w') \<and>
     fifo_ok h' buf' as' \<and> items h' as' = its' \<and> set as \<subseteq> set as' \<and>
     (\<forall>b. b \<notin> set as' \<longrightarrow> h' b = h b)"
  unfolding rrr_fifo_write_def using rrr_fifo_write_loop_ok [OF assms] .

definition demo_alloc :: "fifo_entry heap \<Rightarrow> ptr" where
  "demo_alloc h = Some (LEAST a. h a = None)"

lemma demo_alloc_fresh: "fresh_alloc demo_alloc"
proof -
  have "h (LEAST a. h a = None) = None" if "finite (dom h)" for h :: "fifo_entry heap"
  proof (rule LeastI_ex)
    show "\<exists>a. h a = None" using ex_new_if_finite [OF infinite_UNIV_nat that] by auto
  qed
  then show ?thesis by (simp add: fresh_alloc_def demo_alloc_def)
qed

theorem fifo_write_refines_witness:
  "\<exists>h' buf' as'. rrr_fifo_write (Suc 0) 10 demo_alloc (demo_fifo_heap, demo_fifo, [])
      (\<lambda>d sz ord w. (RRR_FIFO_WRITE_ORDERED, Some 99, 8, 20, w)) = Inr (0, h', buf', []) \<and>
     fifo_ok h' buf' as' \<and>
     items h' as' = [(Some 11, 5, 10), (Some 99, 8, 20), (Some 12, 6, 20), (Some 13, 7, 30)] \<and>
     set [1, 2, 3] \<subseteq> set as' \<and> (\<forall>b. b \<notin> set as' \<longrightarrow> h' b = demo_fifo_heap b)"
proof (rule fifo_write_refines [OF demo_alloc_fresh demo_fifo_ok])
  show "finite (dom demo_fifo_heap)" by (simp add: demo_fifo_heap_def)
  show "write_spec (Suc 0) (\<lambda>d sz ord w. (RRR_FIFO_WRITE_ORDERED, Some 99, 8, 20, w)) (taken_world demo_fifo)
      (items demo_fifo_heap [1, 2, 3]) [] =
      Inr (0, [(Some 11, 5, 10), (Some 99, 8, 20), (Some 12, 6, 20), (Some 13, 7, 30)], [])"
    by (simp add: demo_fifo_heap_def demo_fifo_def item_of_def insert_spec_code insert_ordered_def item_order_def
        rrr_fifo_write_callback_return_check_def fifo_flag_defs Let_def taken_world_def)
qed simp_all

subsection \<open>Ordered writes\<close>

lemma insert_spec_sorted:
  assumes "sorted (map item_order its)"
  shows "sorted (map item_order (insert_spec True it its))"
proof -
  let ?P = "\<lambda>i. item_order i < item_order it"
  have "item_order it \<le> item_order i" if "i \<in> set (dropWhile ?P its)" for i
    using assms that by (induction its) (auto split: if_splits)
  moreover have "sorted (map item_order (takeWhile ?P its @ dropWhile ?P its))"
    using assms by simp
  then have "sorted (map item_order (takeWhile ?P its))" "sorted (map item_order (dropWhile ?P its))"
    unfolding map_append sorted_append by blast+
  moreover have "item_order i < item_order it" if "i \<in> set (takeWhile ?P its)" for i
    using set_takeWhileD [OF that] by simp
  ultimately show ?thesis
    using assms by (fastforce simp: insert_spec_def insert_ordered_def sorted_append)
qed

lemma write_check_ordered:
  "rrr_fifo_write_callback_return_check r = Inr (ret, ordered, again, dropped) \<Longrightarrow>
   r AND RRR_FIFO_WRITE_ORDERED = RRR_FIFO_WRITE_ORDERED \<Longrightarrow> ordered"
  by (auto simp: rrr_fifo_write_callback_return_check_def Let_def bug_if_def fifo_flag_defs split: if_splits)

lemma write_spec_sorted:
  "write_spec fuel cb f its w = Inr (ret, its', w') \<Longrightarrow> sorted (map item_order its) \<Longrightarrow>
   (\<And>w. fst (cb NULL 0 0 w) AND RRR_FIFO_WRITE_ORDERED = RRR_FIFO_WRITE_ORDERED) \<Longrightarrow>
   sorted (map item_order its')"
proof (induction fuel arbitrary: its w)
  case (Suc fuel)
  obtain r d sz ord w1 where cb: "cb NULL 0 0 w = (r, d, sz, ord, w1)" by (metis prod_cases5)
  with Suc.prems(3) [of w] have r: "r AND RRR_FIFO_WRITE_ORDERED = RRR_FIFO_WRITE_ORDERED" by simp
  from Suc.prems(1) cb obtain rc ordered again drop where
    chk: "rrr_fifo_write_callback_return_check r = Inr (rc, ordered, again, drop)"
    by (auto simp: bindr_eq_Inr split: prod.splits)
  with write_check_ordered r have ordered by blast
  with Suc.prems cb chk insert_spec_sorted [OF Suc.prems(2)] show ?case
    by (auto simp: Let_def split: if_splits intro: Suc.IH)
qed simp

text \<open>
  Claim C19: a buffer that is written with ordered writes only stays sorted by order: a callback that
  always asks for an ordered write keeps a sorted buffer sorted, whatever it writes and however
  often it is called again.
\<close>

theorem fifo_ordered_write_sorted:
  assumes "fresh_alloc alloc" "fifo_ok h buf as" "finite (dom h)"
    and "write_spec fuel cb (taken_world buf) (items h as) w = Inr (ret, its', w')"
    and "length its' < 2 ^ 32" "length its' \<le> walk" "sorted (map item_order (items h as))"
    and "\<And>w. fst (cb NULL 0 0 w) AND RRR_FIFO_WRITE_ORDERED = RRR_FIFO_WRITE_ORDERED"
  shows "\<exists>h' buf' as'. rrr_fifo_write fuel walk alloc (h, buf, w) cb = Inr (ret, h', buf', w') \<and>
     fifo_ok h' buf' as' \<and> sorted (map item_order (items h' as'))"
  using rrr_fifo_write_loop_ok [OF assms(1-6)] write_spec_sorted [OF assms(4,7,8)]
  by (auto simp: rrr_fifo_write_def)

theorem fifo_ordered_write_sorted_witness:
  "\<exists>h' buf' as'. rrr_fifo_write (Suc 0) 10 demo_alloc (demo_fifo_heap, demo_fifo, [])
      (\<lambda>d sz ord w. (RRR_FIFO_WRITE_ORDERED, Some 99, 8, 20, w)) = Inr (0, h', buf', []) \<and>
     fifo_ok h' buf' as' \<and> sorted (map item_order (items h' as'))"
proof (rule fifo_ordered_write_sorted [OF demo_alloc_fresh demo_fifo_ok])
  show "finite (dom demo_fifo_heap)" by (simp add: demo_fifo_heap_def)
  show "write_spec (Suc 0) (\<lambda>d sz ord w. (RRR_FIFO_WRITE_ORDERED, Some 99, 8, 20, w)) (taken_world demo_fifo)
      (items demo_fifo_heap [1, 2, 3]) [] =
      Inr (0, [(Some 11, 5, 10), (Some 99, 8, 20), (Some 12, 6, 20), (Some 13, 7, 30)], [])"
    by (simp add: demo_fifo_heap_def demo_fifo_def item_of_def insert_spec_code insert_ordered_def item_order_def
        rrr_fifo_write_callback_return_check_def fifo_flag_defs Let_def taken_world_def)
qed (simp_all add: demo_fifo_heap_def item_of_def item_order_def)

end
