(* ===== verification/RRR_Fifo_Read.thy ===== *)
theory RRR_Fifo_Read
  imports RRR_Fifo
begin

text \<open>
  Taking entries out of the message buffer and moving them: \<^verbatim>\<open>rrr_fifo_read_clear_forward_all\<close>,
  \<^verbatim>\<open>rrr_fifo_read\<close>, \<^verbatim>\<open>rrr_fifo_read_minimum\<close>, \<^verbatim>\<open>rrr_fifo_clear\<close>, \<^verbatim>\<open>rrr_fifo_merge\<close> and
  \<^verbatim>\<open>rrr_fifo_search_and_replace\<close> of \<^verbatim>\<open>src/lib/fifo.c\<close>, against their list counterparts.
\<close>

subsection \<open>Drain\<close>

text \<open>
  The reference for \<open>rrr_fifo_read_clear_forward_all\<close>: every item is handed over; an answer with the
  stop or an error flag ends the run and leaves the rest in the buffer.
\<close>

fun drain_spec ::
    "'s read_cb \<Rightarrow> (ptr \<Rightarrow> 's \<Rightarrow> 's) \<Rightarrow> fifo_item list \<Rightarrow> 's \<Rightarrow> (c_int \<times> fifo_item list \<times> 's) res" where
  "drain_spec cb free_data [] w = Inr (RRR_FIFO_OK, [], w)"
| "drain_spec cb free_data ((d, sz, ord) # rest) w =
     (case cb d sz w of (r, w) \<Rightarrow>
      if r = 0 then drain_spec cb free_data rest w
      else
        let free = has_flag r RRR_FIFO_SEARCH_FREE;
            w = (if free then free_data d w else w);
            r = (if free then r AND NOT RRR_FIFO_SEARCH_FREE else r) in
        if has_flag r RRR_FIFO_SEARCH_GIVE then Inl Bug
        else if has_flag r (RRR_FIFO_SEARCH_STOP OR RRR_FIFO_CALLBACK_ERR OR RRR_FIFO_GLOBAL_ERR)
        then Inr (r AND NOT RRR_FIFO_SEARCH_STOP, rest, w)
        else if r AND NOT (RRR_FIFO_SEARCH_GIVE OR RRR_FIFO_SEARCH_FREE OR
               RRR_FIFO_SEARCH_STOP OR RRR_FIFO_CALLBACK_ERR OR RRR_FIFO_GLOBAL_ERR) \<noteq> 0 then Inl Bug
        else drain_spec cb free_data rest w)"

lemma decref_data_ok:
  assumes "h a = Some e"
  shows "rrr_fifo_entry_decref_data h buf (Some a) w = Inr (h(a \<mapsto> e\<lparr>data := NULL\<rparr>), free_of buf (data e) w)"
proof (cases "data e")
  case None
  then have "e\<lparr>data := NULL\<rparr> = e" by (cases e) simp
  with None assms show ?thesis by (simp add: rrr_fifo_entry_decref_data_def dropped_world_def fun_upd_idem)
next
  case (Some d)
  with assms show ?thesis by (simp add: rrr_fifo_entry_decref_data_def dropped_world_def)
qed

lemma destroy_no_data:
  "h a = Some e \<Longrightarrow> data e = NULL \<Longrightarrow> rrr_fifo_entry_destroy h buf (Some a) w = Inr (h(a := None), w)"
  by (simp add: rrr_fifo_entry_destroy_def rrr_fifo_entry_decref_data_def)

lemma release_data_ok:
  "h a = Some e \<Longrightarrow> rrr_fifo_entry_release_data h (Some a) = Inr (h(a \<mapsto> e\<lparr>data := NULL, size := 0\<rparr>))"
  by (simp add: rrr_fifo_entry_release_data_def)

definition drain_result ::
    "fifo_entry heap \<Rightarrow> 's fifo \<Rightarrow> addr list \<Rightarrow> rrr_length \<Rightarrow>
     (c_int \<times> rrr_length \<times> 's fifo_st) res \<Rightarrow> (c_int \<times> fifo_item list \<times> 's) res \<Rightarrow> bool" where
  "drain_result h buf as c run spec \<longleftrightarrow>
     (case spec of Inl f \<Rightarrow> run = Inl f
      | Inr (ret, kept, w') \<Rightarrow>
          \<exists>h' buf' as'. run = Inr (ret, c + of_nat (length as - length as'), h', buf', w') \<and>
            fifo_chain h' buf' as' \<and> items h' as' = kept \<and> length as' \<le> length as \<and>
            (\<forall>b. b \<notin> set as' \<longrightarrow> h' b = (if b \<in> set as then None else h b)) \<and>
            entry_count buf' = entry_count buf)"

lemma drain_result_step:
  assumes "drain_result (h(a := None)) buf as (c + 1) run spec" "a \<notin> set as"
  shows "drain_result h buf (a # as) c run spec"
proof (cases spec)
  case (Inl f)
  with assms(1) show ?thesis by (simp add: drain_result_def)
next
  case (Inr r)
  obtain ret kept w where r: "r = (ret, kept, w)" by (cases r)
  from assms(1) obtain h' buf' as' where
    *: "run = Inr (ret, (c + 1) + of_nat (length as - length as'), h', buf', w)"
    "fifo_chain h' buf' as'" "items h' as' = kept" "length as' \<le> length as"
    "\<forall>b. b \<notin> set as' \<longrightarrow> h' b = (if b \<in> set as then None else (h(a := None)) b)"
    "entry_count buf' = entry_count buf"
    unfolding drain_result_def Inr r by auto
  have "c + of_nat (length (a # as) - length as') = (c + 1) + of_nat (length as - length as')"
    using *(4) by (simp add: Suc_diff_le)
  moreover have "\<forall>b. b \<notin> set as' \<longrightarrow> h' b = (if b \<in> set (a # as) then None else h b)"
    using *(5) by auto
  ultimately show ?thesis
    using * unfolding drain_result_def Inr r by (auto intro!: exI [of _ as'])
qed

lemma drain_put_back:
  assumes "fseg h (first_ptr as) as NULL" "distinct as" "a \<notin> set as"
    and "gptr_first buf = NULL" "gptr_last buf = NULL"
    and "last_element = (if as = [] then l else Some (last as))"
  shows "\<exists>h' buf'.
     (if first_ptr as = NULL then Inr (h, buf)
      else bindr (modify h last_element (\<lambda>l. l\<lparr>nxt := gptr_first buf\<rparr>)) (\<lambda>h.
           let buf = buf\<lparr>gptr_first := first_ptr as\<rparr> in
           Inr (h, if gptr_last buf = NULL then buf\<lparr>gptr_last := last_element\<rparr> else buf))) = Inr (h', buf') \<and>
     fifo_chain h' buf' as \<and> h' = h \<and> entry_count buf' = entry_count buf \<and> decref buf' = decref buf"
  using assms
  by (cases as rule: rev_cases) (auto simp: fifo_chain_def Let_def fun_upd_idem)

lemma rrr_fifo_read_clear_forward_loop_ok:
  "fseg h (first_ptr as) as NULL \<Longrightarrow> distinct as \<Longrightarrow> length as < fuel \<Longrightarrow> unat c + length as < 2 ^ 32 \<Longrightarrow>
   gptr_first buf = NULL \<Longrightarrow> gptr_last buf = NULL \<Longrightarrow> (as \<noteq> [] \<Longrightarrow> l = Some (last as)) \<Longrightarrow>
   drain_result h buf as c
     (rrr_fifo_read_clear_forward_loop fuel cb (first_ptr as) l c RRR_FIFO_OK (h, buf, w))
     (drain_spec cb (free_of buf) (items h as) w)"
proof (induction as arbitrary: h c w fuel)
  case Nil
  then show ?case by (cases fuel) (auto simp: drain_result_def fifo_chain_def intro!: exI [of _ "[]"])
next
  case (Cons a as)
  from Cons.prems obtain f where f: "fuel = Suc f" "length as < f" by (cases fuel) auto
  from Cons.prems(1) obtain e where e0: "h a = Some e" "fseg h (nxt e) as NULL" by auto
  then have e: "h a = Some e" "nxt e = first_ptr as" "fseg h (first_ptr as) as NULL"
    using fseg_first [OF e0(2)] by simp_all
  have dist: "a \<notin> set as" "distinct as" using Cons.prems by auto
  obtain r w1 where cb: "cb (data e) (size e) w = (r, w1)" by fastforce
  have item: "items h (a # as) = (data e, size e, order e) # items h as"
    using e by (simp add: item_of_def)
  have inc: "rrr_length_inc_bug c = Inr (c + 1)"
    using Cons.prems(4) by (intro rrr_length_inc_bug_lt [of c "length (a # as)"]) auto
  have seg: "fseg (h(a := None)) (first_ptr as) as NULL" using e(3) dist by simp
  have its: "items (h(a := None)) as = items h as" using dist by (auto simp: items_def)
  have "unat (c + 1) + length as < 2 ^ 32"
    using Cons.prems(4) unat_plus_1_lt [of c "length as"] by simp
  then have rec: "drain_result h buf (a # as) c
      (rrr_fifo_read_clear_forward_loop f cb (first_ptr as) l (c + 1) RRR_FIFO_OK (h(a := None), buf, w'))
      (drain_spec cb (free_of buf) (items h as) w')" for w'
  proof -
    assume "unat (c + 1) + length as < 2 ^ 32"
    then have "drain_result (h(a := None)) buf as (c + 1)
      (rrr_fifo_read_clear_forward_loop f cb (first_ptr as) l (c + 1) RRR_FIFO_OK (h(a := None), buf, w'))
      (drain_spec cb (free_of buf) (items h as) w')"
      unfolding its [symmetric] using Cons.prems by (intro Cons.IH [OF seg dist(2) f(2)]) auto
    then show ?thesis using dist(1) by (rule drain_result_step)
  qed
  have stop: "\<exists>buf'. (if first_ptr as = NULL then Inr (h2, buf)
      else bindr (modify h2 l (\<lambda>l. l\<lparr>nxt := gptr_first buf\<rparr>)) (\<lambda>h.
           let buf = buf\<lparr>gptr_first := first_ptr as\<rparr> in
           Inr (h, if gptr_last buf = NULL then buf\<lparr>gptr_last := l\<rparr> else buf))) = Inr (h2, buf') \<and>
      drain_result h buf (a # as) c (Inr (rc, c + 1, h(a := None), buf', w')) (Inr (rc, items h as, w'))"
    if h2: "h2 = h(a \<mapsto> e')" for h2 e' rc w'
  proof -
    have "fseg h2 (first_ptr as) as NULL" using e(3) dist h2 by simp
    moreover have "l = (if as = [] then l else Some (last as))" using Cons.prems(7) by simp
    ultimately obtain buf' where put: "(if first_ptr as = NULL then Inr (h2, buf)
      else bindr (modify h2 l (\<lambda>l. l\<lparr>nxt := gptr_first buf\<rparr>)) (\<lambda>h.
           let buf = buf\<lparr>gptr_first := first_ptr as\<rparr> in
           Inr (h, if gptr_last buf = NULL then buf\<lparr>gptr_last := l\<rparr> else buf))) = Inr (h2, buf')"
      "fifo_chain h2 buf' as" "entry_count buf' = entry_count buf"
      using drain_put_back [of h2 as a buf l l] dist Cons.prems(5,6) by blast
    have "fifo_chain (h(a := None)) buf' as"
      using put(2) dist h2 by (elim fifo_chain_frame) auto
    with put its show ?thesis
      by (intro exI [of _ buf']) (auto simp: drain_result_def intro!: exI [of _ as])
  qed
  show ?case
  proof (cases "r = 0")
    case True
    with rec [of w1] show ?thesis
      unfolding item by (simp add: f(1) e cb inc release_data_ok destroy_no_data fun_upd_same del: fun_upd_apply)
  next
    case False
    define free where "free = has_flag r RRR_FIFO_SEARCH_FREE"
    define w2 where "w2 = (if free then free_of buf (data e) w1 else w1)"
    define r2 where "r2 = (if free then r AND NOT RRR_FIFO_SEARCH_FREE else r)"
    define e2 where "e2 = (if free then e\<lparr>data := NULL\<rparr> else e\<lparr>data := NULL, size := 0\<rparr>)"
    have e2: "data e2 = NULL" "nxt e2 = first_ptr as" by (auto simp: e2_def e(2))
    have first: "bindr (if has_flag r RRR_FIFO_SEARCH_FREE
                        then bindr (rrr_fifo_entry_decref_data h buf (Some a) w1) (\<lambda>(h, w).
                             Inr (r AND NOT RRR_FIFO_SEARCH_FREE, h, w))
                        else bindr (rrr_fifo_entry_release_data h (Some a)) (\<lambda>h. Inr (r, h, w1))) F =
        F (r2, h(a \<mapsto> e2), w2)" for F :: "_ \<Rightarrow> 'z res"
      using e(1) by (cases free)
        (simp_all add: free_def [symmetric] r2_def e2_def w2_def decref_data_ok release_data_ok)
    obtain buf' where st: "(if first_ptr as = NULL then Inr (h(a \<mapsto> e2), buf)
      else bindr (modify (h(a \<mapsto> e2)) l (\<lambda>l. l\<lparr>nxt := gptr_first buf\<rparr>)) (\<lambda>h.
           let buf = buf\<lparr>gptr_first := first_ptr as\<rparr> in
           Inr (h, if gptr_last buf = NULL then buf\<lparr>gptr_last := l\<rparr> else buf))) = Inr (h(a \<mapsto> e2), buf')"
      "drain_result h buf (a # as) c (Inr (r2 AND NOT RRR_FIFO_SEARCH_STOP, c + 1, h(a := None), buf', w2))
         (Inr (r2 AND NOT RRR_FIFO_SEARCH_STOP, items h as, w2))"
      using stop [OF refl] by blast
    have destroy: "rrr_fifo_entry_destroy (h(a \<mapsto> e2)) b (Some a) w2 = Inr (h(a := None), w2)" for b
      using destroy_no_data [of "h(a \<mapsto> e2)" a e2] e2 by (simp add: fun_upd_same del: fun_upd_apply)
    have again: "bindr (rrr_fifo_entry_release_data (h(a \<mapsto> e2)) (Some a)) (\<lambda>h.
        bindr (rrr_fifo_entry_destroy h buf (Some a) w2) G) = G (h(a := None), w2)" for G :: "_ \<Rightarrow> 'z res"
      using e2 by (simp add: release_data_ok destroy_no_data fun_upd_same del: fun_upd_apply)
    define stopping where "stopping \<longleftrightarrow>
      has_flag r2 (RRR_FIFO_SEARCH_STOP OR RRR_FIFO_CALLBACK_ERR OR RRR_FIFO_GLOBAL_ERR)"
    define unknown where "unknown \<longleftrightarrow> r2 AND NOT (RRR_FIFO_SEARCH_GIVE OR RRR_FIFO_SEARCH_FREE OR
       RRR_FIFO_SEARCH_STOP OR RRR_FIFO_CALLBACK_ERR OR RRR_FIFO_GLOBAL_ERR) \<noteq> 0"
    let ?run = "rrr_fifo_read_clear_forward_loop fuel cb (first_ptr (a # as)) l c RRR_FIFO_OK (h, buf, w)"
    let ?spec = "drain_spec cb (free_of buf) (items h (a # as)) w"
    have run: "?run =
       (if has_flag r2 RRR_FIFO_SEARCH_GIVE then Inl Bug
        else if stopping then Inr (r2 AND NOT RRR_FIFO_SEARCH_STOP, c + 1, h(a := None), buf', w2)
        else if unknown then Inl Bug
        else rrr_fifo_read_clear_forward_loop f cb (first_ptr as) l (c + 1) RRR_FIFO_OK (h(a := None), buf, w2))"
    proof -
      have "?run =
         bindr (bug_if (has_flag r2 RRR_FIFO_SEARCH_GIVE)
            (if stopping then
               bindr (if first_ptr as = NULL then Inr (h(a \<mapsto> e2), buf)
                 else bindr (modify (h(a \<mapsto> e2)) l (\<lambda>l. l\<lparr>nxt := gptr_first buf\<rparr>)) (\<lambda>h.
                   let buf = buf\<lparr>gptr_first := first_ptr as\<rparr> in
                   Inr (h, if gptr_last buf = NULL then buf\<lparr>gptr_last := l\<rparr> else buf))) (\<lambda>(h, buf).
               bindr (rrr_fifo_entry_destroy h buf (Some a) w2) (\<lambda>(h, w).
               Inr (Some (r2 AND NOT RRR_FIFO_SEARCH_STOP), h, buf, w)))
             else bug_if unknown (Inr (None, h(a \<mapsto> e2), buf, w2))))
          (\<lambda>(stop, h, buf, w). case stop of Some ret \<Rightarrow> Inr (ret, c + 1, h, buf, w)
           | None \<Rightarrow>
            bindr (rrr_fifo_entry_release_data h (Some a)) (\<lambda>h.
            bindr (rrr_fifo_entry_destroy h buf (Some a) w) (\<lambda>(h, w).
            rrr_fifo_read_clear_forward_loop f cb (nxt e) l (c + 1) RRR_FIFO_OK (h, buf, w))))"
        using False by (simp add: f(1) e(1,2) cb inc first stopping_def unknown_def del: fun_upd_apply)
      then show ?thesis
        unfolding st(1)
        by (cases "has_flag r2 RRR_FIFO_SEARCH_GIVE"; cases stopping; cases unknown)
           (simp_all add: destroy again e(2) del: fun_upd_apply)
    qed
    have spec: "?spec =
       (if has_flag r2 RRR_FIFO_SEARCH_GIVE then Inl Bug
        else if stopping then Inr (r2 AND NOT RRR_FIFO_SEARCH_STOP, items h as, w2)
        else if unknown then Inl Bug
        else drain_spec cb (free_of buf) (items h as) w2)"
      unfolding item drain_spec.simps cb prod.case using False
      by (simp only: Let_def if_False free_def r2_def w2_def stopping_def unknown_def)
    show ?thesis
      unfolding run spec using rec [of w2] st(2)
      by (simp add: drain_result_def [of _ _ _ _ "Inl _" "Inl _"])
  qed
qed

text \<open>
  Claim C15: \<open>rrr_fifo_read_clear_forward_all\<close> on a well formed buffer refines draining a list. It
  always returns; it aborts exactly on an illegal answer of the callback. Otherwise the callback
  sees the entries in order up to the first stop or error, the rest stays in the buffer in order
  with a right count and last pointer, the data is freed exactly for the entries the callback asked
  for, and every entry handed over is freed.
\<close>

theorem fifo_drain_refines:
  assumes "fifo_ok h buf as" "length as < fuel"
  shows "case drain_spec cb (free_of buf) (items h as) w of
           Inl f \<Rightarrow> rrr_fifo_read_clear_forward_all fuel (h, buf, w) cb = Inl f
         | Inr (ret, kept, w') \<Rightarrow>
             (\<exists>h' buf' as'. rrr_fifo_read_clear_forward_all fuel (h, buf, w) cb = Inr (ret, h', buf', w') \<and>
                fifo_ok h' buf' as' \<and> items h' as' = kept \<and> fifo_frame as as' h h')"
proof (cases "as = []")
  case True
  then have "rrr_fifo_read_clear_forward_all fuel (h, buf, w) cb = Inr (RRR_FIFO_OK, h, buf, w)"
    using fifo_ok_empty [OF assms(1)] by (simp add: rrr_fifo_read_clear_forward_all_def)
  with True assms(1) show ?thesis by (auto simp: fifo_frame_def intro!: exI [of _ "[]"])
next
  case False
  let ?buf = "buf\<lparr>gptr_first := NULL, gptr_last := NULL\<rparr>"
  note chain = fifo_ok_chain [OF assms(1)]
  have free: "free_of ?buf = free_of buf" by (simp add: dropped_world_cong [of ?buf buf])
  have seg: "fseg h (first_ptr as) as NULL"
    using chain fifo_chain_first [OF chain] by (simp add: fifo_chain_def)
  have loop: "drain_result h ?buf as 0
      (rrr_fifo_read_clear_forward_loop fuel cb (gptr_first buf) (gptr_last buf) 0 RRR_FIFO_OK (h, ?buf, w))
      (drain_spec cb (free_of buf) (items h as) w)"
    using rrr_fifo_read_clear_forward_loop_ok [OF seg fifo_chain_distinct [OF chain] assms(2), of 0 ?buf
        "gptr_last buf" cb w] fifo_ok_count [OF assms(1)] fifo_chain_first [OF chain]
      fifo_chain_last [OF chain] free by simp
  show ?thesis
  proof (cases "drain_spec cb (free_of buf) (items h as) w")
    case (Inl f)
    with loop False fifo_ok_empty [OF assms(1)] show ?thesis
      by (simp add: drain_result_def rrr_fifo_read_clear_forward_all_def)
  next
    case (Inr r)
    obtain ret kept w' where r: "r = (ret, kept, w')" by (cases r)
    from loop obtain h' buf' as' where
      *: "rrr_fifo_read_clear_forward_loop fuel cb (gptr_first buf) (gptr_last buf) 0 RRR_FIFO_OK (h, ?buf, w) =
            Inr (ret, of_nat (length as - length as'), h', buf', w')"
      "fifo_chain h' buf' as'" "items h' as' = kept" "length as' \<le> length as"
      "\<forall>b. b \<notin> set as' \<longrightarrow> h' b = (if b \<in> set as then None else h b)"
      "entry_count buf' = entry_count buf"
      unfolding drain_result_def Inr r by auto
    obtain c where c: "rrr_length_sub_bug (entry_count buf) (of_nat (length as - length as')) = Inr c"
        "unat c = length as'"
      using rrr_length_sub_bug_nat [of "entry_count buf" "length as" "length as - length as'"] assms(1) *(4)
      by (auto simp: fifo_ok_def)
    have "fifo_ok h' (buf'\<lparr>entry_count := c\<rparr>) as'"
      using *(2) c(2) by (simp add: fifo_ok_def fifo_chain_def)
    with * c Inr r False fifo_ok_empty [OF assms(1)] show ?thesis
      by (auto simp: rrr_fifo_read_clear_forward_all_def fifo_frame_def)
  qed
qed

theorem fifo_drain_refines_witness:
  "\<exists>h' buf' as'. rrr_fifo_read_clear_forward_all 4 (demo_fifo_heap, demo_fifo, [])
       (\<lambda>d sz w. (if sz = 6 then RRR_FIFO_SEARCH_STOP OR RRR_FIFO_SEARCH_FREE else 0, w)) =
       Inr (0, h', buf', [12]) \<and>
     fifo_ok h' buf' as' \<and> items h' as' = [(Some 13, 7, 30)] \<and> fifo_frame [1, 2, 3] as' demo_fifo_heap h'"
  using fifo_drain_refines [OF demo_fifo_ok, where fuel = 4 and w = "[]" and
      cb = "\<lambda>d sz w. (if sz = 6 then RRR_FIFO_SEARCH_STOP OR RRR_FIFO_SEARCH_FREE else 0, w)"]
  by (simp add: demo_fifo_heap_def demo_fifo_def item_of_def fifo_flag_defs has_flag_def dropped_world_def Let_def)

subsection \<open>Clear and merge\<close>

lemma rrr_fifo_clear_loop_ok:
  "fseg h p as NULL \<Longrightarrow> distinct as \<Longrightarrow> length as < fuel \<Longrightarrow>
   rrr_fifo_clear_loop fuel None p (h, buf, w) =
     Inr (h |` (- set as), buf, fold (\<lambda>it. free_of buf (fst it)) (items h as) w)"
proof (induction as arbitrary: p h w fuel)
  case Nil
  then show ?case by (cases fuel) auto
next
  case (Cons a as)
  from Cons.prems obtain e f where e: "p = Some a" "h a = Some e" "fseg h (nxt e) as NULL"
    "fuel = Suc f" "length as < f" by (cases fuel) auto
  have dist: "a \<notin> set as" "distinct as" using Cons.prems(2) by auto
  have eq: "(h(a := None)) |` (- set as) = h |` (- set (a # as))"
    by (auto simp: restrict_map_def fun_eq_iff)
  have its: "items (h(a := None)) as = items h as" using dist by (auto simp: items_def)
  have destroy: "rrr_fifo_entry_destroy h buf (Some a) w = Inr (h(a := None), free_of buf (data e) w)"
    using e(2) by (simp add: rrr_fifo_entry_destroy_def decref_data_ok)
  have "rrr_fifo_clear_loop f None (nxt e) (h(a := None), buf, free_of buf (data e) w) =
     Inr ((h(a := None)) |` (- set as), buf,
          fold (\<lambda>it. free_of buf (fst it)) (items (h(a := None)) as) (free_of buf (data e) w))"
    using e dist by (intro Cons.IH) (simp_all del: fun_upd_apply)
  then show ?case
    unfolding eq its using e destroy by (simp add: item_of_def)
qed

text \<open>
  Claim C33: clearing or destroying a buffer returns, frees every entry and dereferences the data of
  each exactly once, in order; no other entry of the heap is touched and the buffer is empty and
  well formed afterwards.
\<close>

theorem fifo_clear_frees_all:
  assumes "fifo_ok h buf as" "length as < fuel"
  shows "\<exists>buf'. rrr_fifo_clear fuel (h, buf, w) =
      Inr (h |` (- set as), buf', fold (\<lambda>it. free_of buf (fst it)) (items h as) w) \<and>
      rrr_fifo_destroy fuel (h, buf, w) = rrr_fifo_clear fuel (h, buf, w) \<and>
      fifo_ok (h |` (- set as)) buf' []"
proof -
  have "rrr_fifo_clear_loop fuel None (gptr_first buf) (h, buf, w) =
     Inr (h |` (- set as), buf, fold (\<lambda>it. free_of buf (fst it)) (items h as) w)"
    using assms by (intro rrr_fifo_clear_loop_ok) (simp_all add: fifo_ok_def fifo_chain_def)
  then show ?thesis
    by (simp add: rrr_fifo_clear_def rrr_fifo_destroy_def rrr_fifo_clear_with_callback_def
        fifo_ok_def fifo_chain_def)
qed

theorem fifo_clear_frees_all_witness:
  "\<exists>buf'. rrr_fifo_clear 4 (demo_fifo_heap, demo_fifo, []) = Inr (Map.empty, buf', [13, 12, 11]) \<and>
     fifo_ok Map.empty buf' []"
proof -
  have "demo_fifo_heap |` (- set [1, 2, 3]) = Map.empty"
    by (auto simp: demo_fifo_heap_def restrict_map_def fun_eq_iff)
  moreover have "fold (\<lambda>it. free_of demo_fifo (fst it)) (items demo_fifo_heap [1, 2, 3]) [] = [13, 12, 11]"
    by (simp add: demo_fifo_heap_def demo_fifo_def item_of_def dropped_world_def)
  ultimately show ?thesis using fifo_clear_frees_all [OF demo_fifo_ok, of 4 "[]"] by auto
qed

text \<open>
  Claim C31: merging appends. For two well formed buffers without a common entry, either the counts
  add up and the target ends with its own entries followed by the source's, unchanged, while the
  source is left empty; or the sum does not fit the count, and then the call returns 1 and changes
  nothing at all.
\<close>

theorem fifo_merge_appends:
  assumes "fifo_ok h t as" "fifo_ok h s bs" "set as \<inter> set bs = {}"
  shows "if length as + length bs < 2 ^ 32 then
     (\<exists>h' t' s'. rrr_fifo_merge h t s = Inr (0, h', t', s') \<and> fifo_ok h' t' (as @ bs) \<and>
        fifo_ok h' s' [] \<and> items h' (as @ bs) = items h as @ items h bs \<and>
        (\<forall>b. b \<notin> set as \<longrightarrow> h' b = h b))
   else rrr_fifo_merge h t s = Inr (1, h, t, s)"
proof (cases "bs = []")
  case True
  have "entry_count s = 0" using fifo_ok_empty [OF assms(2)] True by (simp add: rrr_fifo_get_entry_count_def)
  with True assms fifo_ok_count [OF assms(1)] show ?thesis by (simp add: rrr_fifo_merge_def)
next
  case False
  have cnt: "entry_count s \<noteq> 0" "unat (entry_count t) = length as" "unat (entry_count s) = length bs"
    using fifo_ok_empty [OF assms(2)] False assms by (simp_all add: rrr_fifo_get_entry_count_def fifo_ok_def)
  show ?thesis
  proof (cases "length as + length bs < 2 ^ 32")
    case True
    have seg: "fseg h (gptr_first t) as NULL" "fseg h (gptr_first s) bs NULL" "distinct as" "distinct bs"
      "gptr_last t = last_ptr as" "gptr_last s = last_ptr bs"
      using assms by (simp_all add: fifo_ok_def fifo_chain_def)
    have sum: "unat (entry_count t + entry_count s) = length as + length bs"
      using cnt True by (simp add: unat_word_ariths)
    have add: "rrr_length_add_err (entry_count t) (entry_count s) = (0, entry_count t + entry_count s)"
      using cnt True by (simp add: rrr_length_add_err_def Let_def add_wraps_iff)
    show ?thesis
    proof (cases as rule: rev_cases)
      case Nil
      with seg sum add cnt True False assms(2) show ?thesis
        by (simp add: rrr_fifo_merge_def fifo_ok_def fifo_chain_def Let_def)
    next
      case (snoc xs x)
      then obtain l where l: "h x = Some l" using seg(1) by auto
      let ?h = "h(x \<mapsto> l\<lparr>nxt := gptr_first s\<rparr>)"
      have x: "x \<notin> set xs" "x \<notin> set bs" using snoc seg(3) assms(3) by auto
      have "items ?h (as @ bs) = items h as @ items h bs"
        using x l snoc by (auto simp: items_def item_of_def)
      moreover have "fseg ?h (gptr_first t) (as @ bs) NULL"
        using seg(1,2) x l snoc by auto
      ultimately show ?thesis
        using seg sum add cnt True False snoc l assms(3)
        by (auto simp: rrr_fifo_merge_def fifo_ok_def fifo_chain_def Let_def)
    qed
  next
    case False
    then have "rrr_length_add_err (entry_count t) (entry_count s) = (1, entry_count t)"
      using cnt by (simp add: rrr_length_add_err_eq)
    with False cnt(1) show ?thesis by (simp add: rrr_fifo_merge_def)
  qed
qed

theorem fifo_merge_appends_witness:
  "\<exists>h' t' s'. rrr_fifo_merge demo_fifo_heap (rrr_fifo_init_custom_refcount (\<lambda>d w. w) (\<lambda>d w. d # w)) demo_fifo =
        Inr (0, h', t', s') \<and> fifo_ok h' t' [1, 2, 3] \<and> fifo_ok h' s' []"
proof -
  have "fifo_ok demo_fifo_heap (rrr_fifo_init_custom_refcount (\<lambda>d w. w) (\<lambda>d w. d # w :: addr list)) []"
    by (simp add: rrr_fifo_init_custom_refcount_def fifo_ok_def fifo_chain_def)
  from fifo_merge_appends [OF this demo_fifo_ok] show ?thesis by auto
qed

subsection \<open>Reading without removing\<close>

fun read_minimum_spec ::
    "'s read_cb \<Rightarrow> nat \<Rightarrow> fifo_item list \<Rightarrow> 's \<Rightarrow> (c_int \<times> 's) res" where
  "read_minimum_spec cb reads [] w = Inr (RRR_FIFO_OK, w)"
| "read_minimum_spec cb reads ((d, sz, ord) # rest) w =
     (case cb d sz w of (res, w) \<Rightarrow>
      if reads + 1 = RRR_FIFO_MAX_READS then Inr (RRR_FIFO_OK, w)
      else if res = RRR_FIFO_OK then read_minimum_spec cb (reads + 1) rest w
      else if has_flag res RRR_FIFO_SEARCH_STOP then Inr (res AND NOT RRR_FIFO_SEARCH_STOP, w)
      else if has_flag res (RRR_FIFO_SEARCH_GIVE OR RRR_FIFO_SEARCH_FREE) then Inl Bug
      else Inr (res, w))"

lemma rrr_fifo_read_minimum_loop_ok:
  "fseg h p as NULL \<Longrightarrow> length as < fuel \<Longrightarrow>
   rrr_fifo_read_minimum_loop fuel h NULL cb minimum_order p reads w =
   read_minimum_spec cb reads (filter (\<lambda>(d, sz, ord). ord > minimum_order) (items h as)) w"
proof (induction as arbitrary: p w fuel reads)
  case Nil
  then show ?case by (cases fuel) auto
next
  case (Cons a as)
  from Cons.prems obtain e f where "p = Some a" "h a = Some e" "fseg h (nxt e) as NULL"
    "fuel = Suc f" "length as < f" by (cases fuel) auto
  with Cons.IH show ?case by (auto simp: item_of_def bug_if_def split: prod.splits)
qed

text \<open>
  \<open>rrr_fifo_read_minimum\<close>, without an end mark, returns and gives the callback exactly the
  entries of an order above the minimum, in queue order, until 500 have been read or the callback
  stops or fails; buffer and entries are not changed.
\<close>

theorem fifo_read_minimum_spec:
  assumes "fifo_ok h buf as" "length as < fuel"
  shows "rrr_fifo_read_minimum fuel (h, buf, w) NULL cb minimum_order =
     bindr (read_minimum_spec cb 0 (filter (\<lambda>(d, sz, ord). ord > minimum_order) (items h as)) w)
       (\<lambda>(ret, w). Inr (ret, h, buf, w))"
proof (cases "as = []")
  case True
  with fifo_ok_empty [OF assms(1)] show ?thesis by (simp add: rrr_fifo_read_minimum_def)
next
  case False
  with fifo_ok_empty [OF assms(1)] assms rrr_fifo_read_minimum_loop_ok [of h "gptr_first buf" as fuel cb minimum_order 0 w]
  show ?thesis
    by (simp add: rrr_fifo_read_minimum_def fifo_ok_def fifo_chain_def)
qed

theorem fifo_read_minimum_spec_witness:
  "rrr_fifo_read_minimum 4 (demo_fifo_heap, demo_fifo, []) NULL (\<lambda>d sz w. (0, the d # w)) 10 =
     Inr (0, demo_fifo_heap, demo_fifo, [13, 12])"
  by (subst fifo_read_minimum_spec [OF demo_fifo_ok])
     (simp_all add: demo_fifo_heap_def item_of_def fifo_flag_defs RRR_FIFO_MAX_READS_def)

subsection \<open>Search and replace\<close>

lemma replace_one:
  assumes "h a = Some e" "nxt e = NULL" "gptr_first buf = Some a" "data e = Some d" "d' \<noteq> d"
    and "cb (Some d) (size e) (order e) w =
           (RRR_FIFO_SEARCH_REPLACE OR RRR_FIFO_SEARCH_FREE, Some d', sz, ord, w)"
    and "unat (entry_count buf) < 2 ^ 32 - 1"
  shows "rrr_fifo_search_and_replace (Suc (Suc 0)) alloc (h, buf, w) cb False =
     Inr (0, h(a \<mapsto> e\<lparr>data := Some d', size := sz, order := ord\<rparr>),
          buf\<lparr>entry_count := entry_count buf + 1\<rparr>, incref buf d' (decref buf d w))"
proof -
  have inc: "rrr_length_inc_err (entry_count buf) = (0, entry_count buf + 1)"
    using assms(7) by (simp add: rrr_length_inc_err_eq)
  have "unat (entry_count buf + 1) = unat (entry_count buf) + 1"
    using unat_plus_1_lt [of "entry_count buf" 0] assms(7) by simp
  then have "entry_count buf + 1 \<noteq> 0" by auto
  then have dec: "rrr_length_dec_bug (entry_count buf + 1) = Inr (entry_count buf + 1)"
    by (simp add: rrr_length_dec_bug_def)
  show ?thesis
    using assms(1-6)
    by (simp add: rrr_fifo_search_and_replace_def fifo_flag_defs has_flag_def rrr_fifo_entry_decref_data_def
        rrr_fifo_entry_incref_data_def inc dec Let_def)
qed

text \<open>
  Claim C40: replacing drifts the count. On a well formed buffer of one entry, a callback of
  \<open>rrr_fifo_search_and_replace\<close> that replaces it leaves one entry in the chain and a count of two,
  because \<open>rrr_length_dec_bug\<close>, which should undo the increment, does not decrement.
\<close>

theorem fifo_replace_count_drift:
  assumes "fifo_ok h buf [a]" "h a = Some e" "data e = Some d" "d' \<noteq> d"
    and "cb (Some d) (size e) (order e) w =
           (RRR_FIFO_SEARCH_REPLACE OR RRR_FIFO_SEARCH_FREE, Some d', sz, ord, w)"
  shows "\<exists>h' buf' w'. rrr_fifo_search_and_replace (Suc (Suc 0)) alloc (h, buf, w) cb False = Inr (0, h', buf', w') \<and>
     fifo_chain h' buf' [a] \<and> entry_count buf' = 2 \<and> \<not> fifo_ok h' buf' [a]"
proof -
  have b: "gptr_first buf = Some a" "nxt e = NULL" "gptr_last buf = Some a" "unat (entry_count buf) = 1"
    using assms(1,2) by (auto simp: fifo_ok_def fifo_chain_def)
  have "entry_count buf = 1" using b(4) by (metis unat_1 word_unat_eq_iff)
  with b replace_one [of h a e buf d d' cb w sz ord alloc, OF assms(2) b(2,1) assms(3-5)] show ?thesis
    by (auto simp: fifo_ok_def fifo_chain_def)
qed

theorem fifo_replace_count_drift_witness:
  "\<exists>h' buf' w'. rrr_fifo_search_and_replace (Suc (Suc 0)) (\<lambda>h. None)
      ([1 \<mapsto> \<lparr>data = Some 11, size = 5, order = 10, nxt = NULL\<rparr>],
       \<lparr>gptr_first = Some 1, gptr_last = Some 1, entry_count = 1, incref = (\<lambda>d w. w), decref = (\<lambda>d w. w)\<rparr>, ())
      (\<lambda>d sz ord w. (RRR_FIFO_SEARCH_REPLACE OR RRR_FIFO_SEARCH_FREE, Some 12, sz, ord, w)) False
        = Inr (0, h', buf', w') \<and>
     fifo_chain h' buf' [1] \<and> entry_count buf' = 2 \<and> \<not> fifo_ok h' buf' [1]"
  by (rule fifo_replace_count_drift [where d = 11 and d' = 12 and
        e = "\<lparr>data = Some 11, size = 5, order = 10, nxt = NULL\<rparr>" and sz = 5 and ord = 10])
     (simp_all add: fifo_ok_def fifo_chain_def)

end
