(* ===== verification/RRR_Mqtt_Id_Pool.thy ===== *)
theory RRR_Mqtt_Id_Pool
  imports RRR_Types
begin

text \<open>
  The pool of MQTT packet identifiers, \<^verbatim>\<open>src/lib/mqtt/mqtt_id_pool.c\<close>: a growing array of 32-bit
  blocks with one bit per identifier. Identifier \<open>id\<close> is bit \<open>id - 1\<close>. Reads and writes outside the
  array are \<open>Bad_Access\<close>; whether \<open>rrr_reallocate\<close> succeeds is a parameter of the call.
  The theory shows the pool to be an identifier allocator (locale \<open>id_allocator\<close>): an identifier it
  hands out is not in use, it fails only when all 65535 are in use or memory is short, and over any
  sequence of calls no identifier is live twice.
\<close>

subsection \<open>The pool\<close>

definition RRR_MQTT_ID_POOL_SIZE_IN_32 :: nat where "RRR_MQTT_ID_POOL_SIZE_IN_32 = 2048"
definition RRR_MQTT_ID_POOL_STEP_SIZE_IN_32 :: nat where "RRR_MQTT_ID_POOL_STEP_SIZE_IN_32 = 512"

lemmas pool_size_defs = RRR_MQTT_ID_POOL_SIZE_IN_32_def RRR_MQTT_ID_POOL_STEP_SIZE_IN_32_def

record id_pool =
  pool :: "u32 list"
  allocated_majors :: rrr_length
  last_allocated_id :: u16

definition rrr_mqtt_id_pool_init :: id_pool where
  "rrr_mqtt_id_pool_init = \<lparr>pool = [], allocated_majors = 0, last_allocated_id = 0\<rparr>"

definition rrr_mqtt_id_pool_clear :: "id_pool \<Rightarrow> id_pool" where
  "rrr_mqtt_id_pool_clear p = p\<lparr>pool := [], allocated_majors := 0, last_allocated_id := 0\<rparr>"

text \<open>The new blocks are zeroed one by one; the old ones keep their content.\<close>

definition rrr_mqtt_id_pool_realloc :: "bool \<Rightarrow> id_pool \<Rightarrow> nat \<Rightarrow> c_int \<times> id_pool" where
  "rrr_mqtt_id_pool_realloc have_memory p steps =
     (let new_majors = allocated_majors p + of_nat steps in
      if unat new_majors > RRR_MQTT_ID_POOL_SIZE_IN_32 then (1, p)
      else if \<not> have_memory then (1, p)
      else (0, p\<lparr>pool := take (unat (allocated_majors p)) (pool p) @
                   replicate (unat new_majors - unat (allocated_majors p)) 0,
                 allocated_majors := new_majors\<rparr>))"

text \<open>The loop over the 32 bits: \<open>k\<close> bits are left, \<open>i\<close> is the index of the next one.\<close>

primrec get_id_32_loop :: "nat \<Rightarrow> nat \<Rightarrow> u32 \<Rightarrow> u32 \<Rightarrow> (u16 \<times> u32) res" where
  "get_id_32_loop 0 i tmp source = Inl Bug"
| "get_id_32_loop (Suc k) i tmp source =
     (if tmp AND 1 = 0 then Inr (of_nat (i + 1), source OR push_bit i 1)
      else get_id_32_loop k (i + 1) (drop_bit 1 tmp) source)"

definition rrr_mqtt_id_pool_get_id_32 :: "u32 \<Rightarrow> (u16 \<times> u32) res" where
  "rrr_mqtt_id_pool_get_id_32 source =
     (if source = 0xffffffff then Inr (0, source) else get_id_32_loop 32 0 source source)"

text \<open>
  The loop over the blocks: \<open>k\<close> blocks are left, \<open>i\<close> is the index of the next one. The result says
  whether a free bit was found, and then the identifier, which is cut to 16 bits.
\<close>

primrec get_id_scan :: "nat \<Rightarrow> nat \<Rightarrow> u32 list \<Rightarrow> (bool \<times> u16 \<times> u32 list) res" where
  "get_id_scan 0 i ps = Inr (False, 0, ps)"
| "get_id_scan (Suc k) i ps =
     (if length ps \<le> i then Inl Bad_Access
      else bindr (rrr_mqtt_id_pool_get_id_32 (ps ! i)) (\<lambda>(ret_tmp, block).
           if ret_tmp > 0 then Inr (True, ret_tmp + of_nat (32 * i), ps[i := block])
           else get_id_scan k (i + 1) (ps[i := block])))"

fun get_id_retry :: "nat \<Rightarrow> bool \<Rightarrow> id_pool \<Rightarrow> (u16 \<times> id_pool) res" where
  "get_id_retry 0 have_memory p = Inl Diverge"
| "get_id_retry (Suc fuel) have_memory p =
     bindr (get_id_scan (unat (allocated_majors p)) 0 (pool p)) (\<lambda>(found, ret, ps).
     let p = p\<lparr>pool := ps\<rparr> in
     if found then Inr (ret, p)
     else case rrr_mqtt_id_pool_realloc have_memory p RRR_MQTT_ID_POOL_STEP_SIZE_IN_32 of (err, p) \<Rightarrow>
       if err = 0 then get_id_retry fuel have_memory p else Inr (0, p))"

text \<open>
  The minor, the major and the mask of an identifier other than 0. The code shifts the signed constant 1, which for the minor 31 is not defined by
  the C standard; the mask is the bit that the compilers in use produce.
\<close>

definition id_min :: "u16 \<Rightarrow> nat" where "id_min pid = (unat pid - 1) mod 32"
definition id_maj :: "u16 \<Rightarrow> nat" where "id_maj pid = (unat pid - 1 - id_min pid) div 32"
definition id_mask :: "u16 \<Rightarrow> u32" where "id_mask pid = push_bit (id_min pid) 1"

text \<open>The pool can grow four times, so six rounds of the retry loop are more than enough.\<close>

definition rrr_mqtt_id_pool_get_id :: "bool \<Rightarrow> id_pool \<Rightarrow> (u16 \<times> id_pool) res" where
  "rrr_mqtt_id_pool_get_id have_memory p =
     (let p = p\<lparr>last_allocated_id := last_allocated_id p + 1\<rparr>;
          ret = (if last_allocated_id p = 0 then 1 else last_allocated_id p) in
      bindr (if id_maj ret < unat (allocated_majors p) then
               (if length (pool p) \<le> id_maj ret then Inl Bad_Access
                else if pool p ! id_maj ret AND id_mask ret = 0
                then Inr (ret, p\<lparr>pool := (pool p)[id_maj ret := pool p ! id_maj ret OR id_mask ret]\<rparr>)
                else get_id_retry 6 have_memory p)
             else get_id_retry 6 have_memory p) (\<lambda>(ret, p).
      Inr (ret, p\<lparr>last_allocated_id := ret\<rparr>)))"

text \<open>
  Identifier 0 is outside the domain: its minor would be \<open>-1\<close>, a shift the language leaves undefined.
  The debug message reads the block before the range check; it is built only when debugging is on
  and is not modelled.
\<close>

definition rrr_mqtt_id_pool_release_id :: "id_pool \<Rightarrow> u16 \<Rightarrow> id_pool res" where
  "rrr_mqtt_id_pool_release_id p pid =
     (if pid = 0 then Inl Bad_Access
      else bug_if (id_maj pid \<ge> unat (allocated_majors p))
        (if length (pool p) \<le> id_maj pid then Inl Bad_Access
         else bug_if (pool p ! id_maj pid AND id_mask pid = 0)
           (Inr (p\<lparr>pool := (pool p)[id_maj pid := pool p ! id_maj pid AND NOT (id_mask pid)]\<rparr>))))"

subsection \<open>Invariant and abstraction\<close>

definition pool_ok :: "id_pool \<Rightarrow> bool" where
  "pool_ok p \<longleftrightarrow> unat (allocated_majors p) = length (pool p) \<and>
     length (pool p) \<le> RRR_MQTT_ID_POOL_SIZE_IN_32 \<and>
     length (pool p) mod RRR_MQTT_ID_POOL_STEP_SIZE_IN_32 = 0"

definition bit_at :: "u32 list \<Rightarrow> nat \<Rightarrow> bool" where
  "bit_at ps n \<longleftrightarrow> n < 32 * length ps \<and> bit (ps ! (n div 32)) (n mod 32)"

text \<open>The identifiers in use. The bit of identifier 65536, which does not fit 16 bits, does not count.\<close>

definition used_ids :: "id_pool \<Rightarrow> u16 set" where
  "used_ids p = {pid. pid \<noteq> 0 \<and> bit_at (pool p) (unat pid - 1)}"

subsection \<open>The free bit of a block\<close>

lemma and_1_bit: "(x :: u32) AND 1 = 0 \<longleftrightarrow> \<not> bit x 0"
  by (simp add: and_one_eq bit_0 even_iff_mod_2_eq_zero)

lemma get_id_32_loop_ok:
  "i + k = 32 \<Longrightarrow> \<forall>j < i. bit source j \<Longrightarrow> \<exists>j < 32. \<not> bit source j \<Longrightarrow>
   \<exists>j < 32. \<not> bit source j \<and> (\<forall>l < j. bit source l) \<and> get_id_32_loop k i (drop_bit i source) source =
     Inr (of_nat (j + 1), source OR push_bit j 1)"
proof (induction k arbitrary: i)
  case 0
  then show ?case by auto
next
  case (Suc k)
  show ?case
  proof (cases "bit source i")
    case True
    then have "\<forall>j < i + 1. bit source j" using Suc.prems(2) by (auto simp: less_Suc_eq)
    with Suc.IH [of "i + 1"] Suc.prems True show ?thesis
      by (simp add: and_1_bit bit_drop_bit_eq drop_bit_Suc [symmetric] del: drop_bit_Suc)
  next
    case False
    with Suc.prems(1,2) show ?thesis by (intro exI [of _ i]) (simp add: and_1_bit bit_drop_bit_eq)
  qed
qed

lemma free_bit_exists: "(source :: u32) \<noteq> 0xffffffff \<Longrightarrow> \<exists>j < 32. \<not> bit source j"
proof (rule ccontr)
  assume "source \<noteq> 0xffffffff" "\<not> (\<exists>j < 32. \<not> bit source j)"
  then have "source = mask 32" by (intro bit_word_eqI) (simp add: bit_mask_iff)
  with \<open>source \<noteq> 0xffffffff\<close> show False by (simp add: mask_numeral)
qed

lemma rrr_mqtt_id_pool_get_id_32_ok:
  "(rrr_mqtt_id_pool_get_id_32 source = Inr (0, source) \<and> (\<forall>j < 32. bit source j)) \<or>
   (\<exists>j < 32. \<not> bit source j \<and> (\<forall>l < j. bit source l) \<and>
      rrr_mqtt_id_pool_get_id_32 source = Inr (of_nat (j + 1), source OR push_bit j 1))"
proof (cases "source = 0xffffffff")
  case True
  then have "source = mask 32" by (simp add: mask_numeral)
  then have "\<forall>j < 32. bit source j" by (simp add: bit_mask_iff)
  with True show ?thesis by (simp add: rrr_mqtt_id_pool_get_id_32_def)
next
  case False
  with get_id_32_loop_ok [of 0 32 source] free_bit_exists show ?thesis
    by (auto simp: rrr_mqtt_id_pool_get_id_32_def)
qed

subsection \<open>Setting and clearing one identifier\<close>

lemma div_mod_32_eq: "m div 32 = n div 32 \<Longrightarrow> m mod 32 = n mod 32 \<Longrightarrow> m = (n :: nat)"
  by (metis mult_div_mod_eq)

lemma bit_set_one: "bit ((x :: u32) OR 2 ^ j) k \<longleftrightarrow> bit x k \<or> (k = j \<and> j < 32)"
  by (auto simp: bit_simps)

lemma bit_clear_one: "bit ((x :: u32) AND NOT (2 ^ j)) k \<longleftrightarrow> bit x k \<and> k \<noteq> j"
  by (auto simp: bit_simps dest: bit_imp_le_length)

lemma bit_at_set:
  assumes "n < 32 * length ps"
  shows "bit_at (ps[n div 32 := ps ! (n div 32) OR push_bit (n mod 32) 1]) m \<longleftrightarrow> m = n \<or> bit_at ps m"
  using assms div_mod_32_eq [of m n]
  by (cases "m div 32 = n div 32") (auto simp: bit_at_def bit_set_one nth_list_update)

lemma bit_at_clear:
  assumes "n < 32 * length ps"
  shows "bit_at (ps[n div 32 := ps ! (n div 32) AND NOT (push_bit (n mod 32) 1)]) m \<longleftrightarrow> m \<noteq> n \<and> bit_at ps m"
  using assms div_mod_32_eq [of m n]
  by (cases "m div 32 = n div 32") (auto simp: bit_at_def bit_clear_one nth_list_update)

lemma mask_test: "n < 32 * length ps \<Longrightarrow> ps ! (n div 32) AND push_bit (n mod 32) 1 = 0 \<longleftrightarrow> \<not> bit_at ps n"
  by (simp add: bit_at_def and_exp_eq_0_iff_not_bit push_bit_eq_mult mult.commute)

lemma id_maj_min: "pid \<noteq> 0 \<Longrightarrow> id_maj pid = (unat pid - 1) div 32" "id_mask pid = push_bit ((unat pid - 1) mod 32) 1"
  by (simp_all add: id_maj_def id_min_def id_mask_def minus_mod_eq_div_mult)

lemma block_bits: "i < length ps \<Longrightarrow> j < 32 \<Longrightarrow> bit_at ps (32 * i + j) \<longleftrightarrow> bit (ps ! i) j"
  by (simp add: bit_at_def)

lemma get_id_scan_ok:
  "i + k = length ps \<Longrightarrow> \<forall>n < 32 * i. bit_at ps n \<Longrightarrow>
   (get_id_scan k i ps = Inr (False, 0, ps) \<and> (\<forall>n < 32 * length ps. bit_at ps n)) \<or>
   (\<exists>n < 32 * length ps. \<not> bit_at ps n \<and> (\<forall>m < n. bit_at ps m) \<and>
      get_id_scan k i ps =
        Inr (True, of_nat (n + 1), ps[n div 32 := ps ! (n div 32) OR push_bit (n mod 32) 1]))"
proof (induction k arbitrary: i)
  case 0
  then show ?case by simp
next
  case (Suc k)
  then have i: "i < length ps" by simp
  consider (full) "rrr_mqtt_id_pool_get_id_32 (ps ! i) = Inr (0, ps ! i)" "\<forall>j < 32. bit (ps ! i) j"
    | (free) j where "j < 32" "\<not> bit (ps ! i) j" "\<forall>l < j. bit (ps ! i) l"
      "rrr_mqtt_id_pool_get_id_32 (ps ! i) = Inr (of_nat (j + 1), ps ! i OR push_bit j 1)"
    using rrr_mqtt_id_pool_get_id_32_ok [of "ps ! i"] by blast
  then show ?case
  proof cases
    case full
    have "bit_at ps n" if "n < 32 * (i + 1)" for n
    proof (cases "n < 32 * i")
      case False
      then have "n = 32 * i + (n - 32 * i)" "n - 32 * i < 32" using that by auto
      with full(2) block_bits [OF i, of "n - 32 * i"] show ?thesis by simp
    qed (use Suc.prems(2) in simp)
    with Suc.IH [of "i + 1"] Suc.prems(1) full i show ?thesis by simp
  next
    case free
    let ?n = "32 * i + j"
    have n: "?n div 32 = i" "?n mod 32 = j" "?n < 32 * length ps" using free(1) i by auto
    have "\<not> bit_at ps ?n" using free(2) block_bits [OF i free(1)] by simp
    moreover have "bit_at ps m" if "m < ?n" for m
    proof (cases "m < 32 * i")
      case False
      then have "m = 32 * i + (m - 32 * i)" "m - 32 * i < j" using that by auto
      with free(1,3) block_bits [OF i, of "m - 32 * i"] show ?thesis by simp
    qed (use Suc.prems(2) in simp)
    moreover have "(0 :: u16) < of_nat (j + 1)"
      unfolding word_less_nat_alt unat_of_nat using free(1) by simp
    moreover have "of_nat (j + 1) + of_nat (32 * i) = (of_nat (?n + 1) :: u16)"
      by (simp add: algebra_simps)
    ultimately show ?thesis
      using i free(4) n by (intro disjI2 exI [of _ ?n]) simp
  qed
qed

subsection \<open>Getting and releasing\<close>

lemma bit_at_append_zero [simp]: "bit_at (ps @ replicate k 0) n = bit_at ps n"
proof (cases "n < 32 * length ps")
  case True
  then have "n div 32 < length ps" by auto
  with True show ?thesis by (simp add: bit_at_def nth_append)
next
  case False
  then have "\<not> n div 32 < length ps" by auto
  with False show ?thesis by (auto simp: bit_at_def nth_append)
qed

lemma rrr_mqtt_id_pool_realloc_ok:
  assumes "pool_ok p"
  shows "(rrr_mqtt_id_pool_realloc have_memory p RRR_MQTT_ID_POOL_STEP_SIZE_IN_32 = (1, p) \<and>
           (\<not> have_memory \<or> length (pool p) = RRR_MQTT_ID_POOL_SIZE_IN_32)) \<or>
         (\<exists>p'. rrr_mqtt_id_pool_realloc have_memory p RRR_MQTT_ID_POOL_STEP_SIZE_IN_32 = (0, p') \<and>
            pool_ok p' \<and> pool p' = pool p @ replicate 512 0)"
proof -
  let ?l = "length (pool p)"
  have l: "unat (allocated_majors p) = ?l" "?l \<le> 2048" "?l mod 512 = 0"
    using assms by (simp_all add: pool_ok_def pool_size_defs)
  have new: "unat (allocated_majors p + 512) = ?l + 512"
    using l(1,2) by (simp add: unat_word_ariths)
  show ?thesis
  proof (cases "?l + 512 > 2048 \<or> \<not> have_memory")
    case True
    have "?l = 2048" if "?l + 512 > 2048"
      using l(2,3) that by presburger
    with True new show ?thesis by (auto simp: rrr_mqtt_id_pool_realloc_def Let_def pool_size_defs)
  next
    case False
    with l new show ?thesis
      by (auto simp: rrr_mqtt_id_pool_realloc_def Let_def pool_size_defs pool_ok_def)
  qed
qed

definition marked :: "u32 list \<Rightarrow> nat \<Rightarrow> u32 list" where
  "marked ps n = ps[n div 32 := ps ! (n div 32) OR push_bit (n mod 32) 1]"

lemma marked_simps [simp]: "length (marked ps n) = length ps"
  by (simp add: marked_def)

lemma bit_at_marked: "n < 32 * length ps \<Longrightarrow> bit_at (marked ps n) m \<longleftrightarrow> m = n \<or> bit_at ps m"
  unfolding marked_def by (rule bit_at_set)

text \<open>What a successful call does to the bits: the lowest free one is taken.\<close>

definition takes_bit :: "id_pool \<Rightarrow> u16 \<Rightarrow> id_pool \<Rightarrow> nat \<Rightarrow> bool" where
  "takes_bit p ret p' n \<longleftrightarrow> n < 65536 \<and> \<not> bit_at (pool p) n \<and> ret = of_nat (n + 1) \<and> pool_ok p' \<and>
     (\<forall>m. bit_at (pool p') m \<longleftrightarrow> m = n \<or> bit_at (pool p) m)"

lemma get_id_scan_pool:
  assumes "pool_ok p"
  shows "(get_id_scan (unat (allocated_majors p)) 0 (pool p) = Inr (False, 0, pool p) \<and>
            (\<forall>n < 32 * length (pool p). bit_at (pool p) n)) \<or>
         (\<exists>n ps. get_id_scan (unat (allocated_majors p)) 0 (pool p) = Inr (True, of_nat (n + 1), ps) \<and>
            takes_bit p (of_nat (n + 1)) (p\<lparr>pool := ps\<rparr>) n \<and> (\<forall>m < n. bit_at (pool p) m))"
proof -
  have l: "unat (allocated_majors p) = length (pool p)" "length (pool p) \<le> 2048"
    using assms by (simp_all add: pool_ok_def pool_size_defs)
  have "takes_bit p (of_nat (n + 1)) (p\<lparr>pool := marked (pool p) n\<rparr>) n"
    if "n < 32 * length (pool p)" "\<not> bit_at (pool p) n" for n
    using that l assms by (auto simp: takes_bit_def bit_at_marked pool_ok_def)
  then show ?thesis
    using get_id_scan_ok [of 0 "length (pool p)" "pool p"] l(1) by (fastforce simp: marked_def)
qed

lemma get_id_retry_ok:
  assumes "pool_ok p"
  shows "(\<exists>n p'. get_id_retry (Suc (Suc fuel)) have_memory p = Inr (of_nat (n + 1), p') \<and>
            takes_bit p (of_nat (n + 1)) p' n \<and> (\<forall>m < n. bit_at (pool p) m)) \<or>
         (get_id_retry (Suc (Suc fuel)) have_memory p = Inr (0, p) \<and>
            (\<forall>n < 32 * length (pool p). bit_at (pool p) n) \<and>
            (\<not> have_memory \<or> length (pool p) = RRR_MQTT_ID_POOL_SIZE_IN_32))"
proof -
  consider (found) n ps where "get_id_scan (unat (allocated_majors p)) 0 (pool p) = Inr (True, of_nat (n + 1), ps)"
      "takes_bit p (of_nat (n + 1)) (p\<lparr>pool := ps\<rparr>) n" "\<forall>m < n. bit_at (pool p) m"
    | (full) "get_id_scan (unat (allocated_majors p)) 0 (pool p) = Inr (False, 0, pool p)"
      "\<forall>n < 32 * length (pool p). bit_at (pool p) n"
    using get_id_scan_pool [OF assms] by blast
  then show ?thesis
  proof cases
    case found
    then show ?thesis by (simp add: Let_def del: of_nat_add) blast
  next
    case full
    have p: "p\<lparr>pool := pool p\<rparr> = p" by simp
    consider (stuck) "rrr_mqtt_id_pool_realloc have_memory p RRR_MQTT_ID_POOL_STEP_SIZE_IN_32 = (1, p)"
        "\<not> have_memory \<or> length (pool p) = RRR_MQTT_ID_POOL_SIZE_IN_32"
      | (grown) p1 where "rrr_mqtt_id_pool_realloc have_memory p RRR_MQTT_ID_POOL_STEP_SIZE_IN_32 = (0, p1)"
        "pool_ok p1" "pool p1 = pool p @ replicate 512 0"
      using rrr_mqtt_id_pool_realloc_ok [OF assms, of have_memory] by blast
    then show ?thesis
    proof cases
      case stuck
      with full show ?thesis by (simp add: Let_def)
    next
      case (grown p1)
      have "\<not> bit_at (pool p1) (32 * length (pool p))" by (simp add: grown(3)) (simp add: bit_at_def)
      moreover have "32 * length (pool p) < 32 * length (pool p1)" by (simp add: grown(3))
      ultimately obtain n ps where
        s: "get_id_scan (unat (allocated_majors p1)) 0 (pool p1) = Inr (True, of_nat (n + 1), ps)"
        "takes_bit p1 (of_nat (n + 1)) (p1\<lparr>pool := ps\<rparr>) n" "\<forall>m < n. bit_at (pool p1) m"
        using get_id_scan_pool [OF grown(2)] by blast
      then have "takes_bit p (of_nat (n + 1)) (p1\<lparr>pool := ps\<rparr>) n" "\<forall>m < n. bit_at (pool p) m"
        by (simp_all add: takes_bit_def grown(3))
      with full grown(1) s(1) show ?thesis by (auto simp: Let_def)
    qed
  qed
qed

text \<open>From bits to identifiers. The highest bit stands for identifier 65536, which reads as 0.\<close>

lemma takes_bit_used:
  assumes "takes_bit p ret p' n"
  shows "ret \<noteq> 0 \<Longrightarrow> ret \<notin> used_ids p \<and> used_ids p' = insert ret (used_ids p)"
    and "ret = 0 \<Longrightarrow> n = 65535 \<and> used_ids p' = used_ids p"
proof -
  have n: "n < 65536" "\<not> bit_at (pool p) n" "\<And>m. bit_at (pool p') m \<longleftrightarrow> m = n \<or> bit_at (pool p) m"
    and ret: "unat ret = (n + 1) mod 65536"
    using assms by (auto simp: takes_bit_def unat_of_nat simp del: of_nat_add of_nat_Suc)
  {
    assume "ret \<noteq> 0"
    then have "unat ret \<noteq> 0" by (simp add: unat_eq_0)
    with n(1) ret have r: "unat ret = n + 1" by (cases "n = 65535") auto
    have "unat pid - 1 = n \<longleftrightarrow> pid = ret" if "pid \<noteq> 0" for pid
    proof -
      have "unat pid \<noteq> 0" using that by (simp add: unat_eq_0)
      with r show ?thesis by (metis Suc_eq_plus1 Suc_pred add_diff_cancel_right' not_gr_zero word_unat_eq_iff)
    qed
    with n(2,3) r \<open>ret \<noteq> 0\<close> show "ret \<notin> used_ids p \<and> used_ids p' = insert ret (used_ids p)"
      by (auto simp: used_ids_def)
  }
  {
    assume "ret = 0"
    with ret have "(n + 1) mod 65536 = 0" by simp
    then have "\<not> n + 1 < 65536" using mod_less [of "n + 1" 65536] by linarith
    with n(1) have 65535: "n = 65535" by simp
    have "unat pid - 1 \<noteq> 65535" for pid :: u16 using unat_bound [of pid] by simp
    with n(3) 65535 show "n = 65535 \<and> used_ids p' = used_ids p" by (auto simp: used_ids_def)
  }
qed

lemma all_used:
  assumes "\<forall>m < 65535. bit_at (pool p) m"
  shows "used_ids p = - {0}"
proof -
  have "unat pid - 1 < 65535" if "pid \<noteq> 0" for pid :: u16
  proof -
    have "unat pid \<noteq> 0" using that by (simp add: unat_eq_0)
    then show ?thesis using unat_bound [of pid] by simp
  qed
  with assms show ?thesis by (auto simp: used_ids_def)
qed

lemma rrr_mqtt_id_pool_get_id_ok:
  assumes "pool_ok p"
  shows "\<exists>ret p'. rrr_mqtt_id_pool_get_id have_memory p = Inr (ret, p') \<and> pool_ok p' \<and>
     (if ret = 0 then used_ids p' = used_ids p \<and> (have_memory \<longrightarrow> used_ids p = - {0})
      else ret \<notin> used_ids p \<and> used_ids p' = insert ret (used_ids p))"
proof -
  define q where "q = p\<lparr>last_allocated_id := last_allocated_id p + 1\<rparr>"
  define r where "r = (if last_allocated_id q = 0 then 1 else last_allocated_id q)"
  have q: "pool_ok q" "pool q = pool p" "used_ids q = used_ids p" and r0: "r \<noteq> 0"
    using assms by (auto simp: q_def pool_ok_def used_ids_def r_def)
  have l: "unat (allocated_majors q) = length (pool q)" "length (pool q) \<le> 2048"
    using q(1) by (simp_all add: pool_ok_def pool_size_defs)
  let ?fast = "id_maj r < unat (allocated_majors q) \<and> pool q ! id_maj r AND id_mask r = 0"
  have run: "rrr_mqtt_id_pool_get_id have_memory p =
     bindr (if ?fast then Inr (r, q\<lparr>pool := (pool q)[id_maj r := pool q ! id_maj r OR id_mask r]\<rparr>)
            else get_id_retry 6 have_memory q) (\<lambda>(ret, p). Inr (ret, p\<lparr>last_allocated_id := ret\<rparr>))"
    using l by (simp add: rrr_mqtt_id_pool_get_id_def Let_def flip: q_def r_def)
  have upd: "pool_ok (p1\<lparr>last_allocated_id := x\<rparr>) = pool_ok p1" "used_ids (p1\<lparr>last_allocated_id := x\<rparr>) = used_ids p1"
    for p1 x by (simp_all add: pool_ok_def used_ids_def)
  have taken: "?thesis" if "rrr_mqtt_id_pool_get_id have_memory p = Inr (ret, p'\<lparr>last_allocated_id := ret\<rparr>)"
      "takes_bit q ret p' n" "ret = 0 \<longrightarrow> (\<forall>m < n. bit_at (pool q) m)" for ret p' n
    using that takes_bit_used [OF that(2)] all_used [of q] q(3)
    by (auto simp: upd takes_bit_def)
  show ?thesis
  proof (cases ?fast)
    case True
    let ?n = "unat r - 1"
    have n: "?n < 32 * length (pool q)" using True id_maj_min(1) [OF r0] l(1) by auto
    have rn: "r = of_nat (?n + 1)" using r0 by (simp add: unat_eq_0 [symmetric] Suc_diff_Suc flip: of_nat_Suc)
    have free: "\<not> bit_at (pool q) ?n"
      using True mask_test [OF n] unfolding id_maj_min(1) [OF r0] id_maj_min(2) by blast
    have mk: "(pool q)[id_maj r := pool q ! id_maj r OR id_mask r] = marked (pool q) ?n"
      unfolding marked_def id_maj_min(1) [OF r0] id_maj_min(2) ..
    have "length (marked (pool q) ?n) = length (pool q)" by (simp add: marked_def)
    then have "pool_ok (q\<lparr>pool := marked (pool q) ?n\<rparr>)" using q(1) by (simp add: pool_ok_def)
    with n l(2) free rn have tb: "takes_bit q r (q\<lparr>pool := marked (pool q) ?n\<rparr>) ?n"
      unfolding takes_bit_def using bit_at_marked [OF n] by (simp del: of_nat_add of_nat_Suc)
    have "rrr_mqtt_id_pool_get_id have_memory p =
        Inr (r, q\<lparr>pool := marked (pool q) ?n\<rparr>\<lparr>last_allocated_id := r\<rparr>)"
      unfolding run if_P [OF True] mk by simp
    from taken [OF this tb] r0 show ?thesis by blast
  next
    case False
    have run': "rrr_mqtt_id_pool_get_id have_memory p =
       bindr (get_id_retry (Suc (Suc 4)) have_memory q) (\<lambda>(ret, p). Inr (ret, p\<lparr>last_allocated_id := ret\<rparr>))"
      using run False by simp
    from get_id_retry_ok [OF q(1), of 4 have_memory] show ?thesis
    proof
      assume "\<exists>n p'. get_id_retry (Suc (Suc 4)) have_memory q = Inr (of_nat (n + 1), p') \<and>
            takes_bit q (of_nat (n + 1)) p' n \<and> (\<forall>m < n. bit_at (pool q) m)"
      then show ?thesis using run' taken by fastforce
    next
      assume "get_id_retry (Suc (Suc 4)) have_memory q = Inr (0, q) \<and>
            (\<forall>n < 32 * length (pool q). bit_at (pool q) n) \<and>
            (\<not> have_memory \<or> length (pool q) = RRR_MQTT_ID_POOL_SIZE_IN_32)"
      with run' q all_used [of q] show ?thesis by (auto simp: upd pool_size_defs)
    qed
  qed
qed

subsection \<open>Releasing an identifier\<close>

lemma bit_at_cleared:
  assumes "n < 32 * length ps"
  shows "bit_at (ps[n div 32 := ps ! (n div 32) AND NOT (push_bit (n mod 32) 1)]) m \<longleftrightarrow> m \<noteq> n \<and> bit_at ps m"
proof -
  have "n div 32 < length ps" using assms by auto
  moreover have "m div 32 = n div 32 \<and> m mod 32 = n mod 32 \<longleftrightarrow> m = n" by (metis div_mult_mod_eq)
  ultimately show ?thesis
    by (cases "m div 32 = n div 32")
      (auto simp: bit_at_def bit_and_iff bit_not_iff bit_exp_iff nth_list_update possible_bit_def)
qed

lemma rrr_mqtt_id_pool_release_id_ok:
  assumes "pool_ok p"
  shows "pid \<in> used_ids p \<Longrightarrow> \<exists>p'. rrr_mqtt_id_pool_release_id p pid = Inr p' \<and> pool_ok p' \<and> used_ids p' = used_ids p - {pid}"
    and "pid \<notin> used_ids p \<Longrightarrow> pid \<noteq> 0 \<Longrightarrow> rrr_mqtt_id_pool_release_id p pid = Inl Bug"
proof -
  let ?n = "unat pid - 1"
  have l: "unat (allocated_majors p) = length (pool p)" using assms by (simp add: pool_ok_def)
  have m: "id_maj pid = ?n div 32" if "pid \<noteq> 0" using id_maj_min(1) that .
  {
    assume "pid \<in> used_ids p"
    then have pid: "pid \<noteq> 0" "bit_at (pool p) ?n" by (simp_all add: used_ids_def)
    then have n: "?n < 32 * length (pool p)" by (simp add: bit_at_def)
    then have maj: "id_maj pid < length (pool p)" using m [OF pid(1)] by auto
    have set: "\<not> pool p ! id_maj pid AND id_mask pid = 0"
      using mask_test [OF n] pid(2) unfolding m [OF pid(1)] id_maj_min(2) by blast
    let ?ps = "(pool p)[id_maj pid := pool p ! id_maj pid AND NOT (id_mask pid)]"
    have "bit_at ?ps k \<longleftrightarrow> k \<noteq> ?n \<and> bit_at (pool p) k" for k
      unfolding m [OF pid(1)] id_maj_min(2) by (rule bit_at_cleared [OF n])
    moreover have "unat k - 1 = ?n \<longleftrightarrow> k = pid" if "k \<noteq> 0" for k
    proof -
      have "unat k \<noteq> 0" "unat pid \<noteq> 0" using that pid(1) by (simp_all add: unat_eq_0)
      then show ?thesis by (metis Suc_pred' not_gr_zero word_unat_eq_iff)
    qed
    ultimately have "used_ids (p\<lparr>pool := ?ps\<rparr>) = used_ids p - {pid}" by (auto simp: used_ids_def)
    moreover have "pool_ok (p\<lparr>pool := ?ps\<rparr>)" using assms by (simp add: pool_ok_def)
    ultimately show "\<exists>p'. rrr_mqtt_id_pool_release_id p pid = Inr p' \<and> pool_ok p' \<and> used_ids p' = used_ids p - {pid}"
      using pid(1) maj set l by (simp add: rrr_mqtt_id_pool_release_id_def)
  }
  {
    assume "pid \<notin> used_ids p" "pid \<noteq> 0"
    then have clear: "\<not> bit_at (pool p) ?n" by (simp add: used_ids_def)
    show "rrr_mqtt_id_pool_release_id p pid = Inl Bug"
    proof (cases "id_maj pid < length (pool p)")
      case True
      then have n: "?n < 32 * length (pool p)" using m [OF \<open>pid \<noteq> 0\<close>] by auto
      have "pool p ! id_maj pid AND id_mask pid = 0"
        using mask_test [OF n] clear unfolding m [OF \<open>pid \<noteq> 0\<close>] id_maj_min(2) by blast
      with True l \<open>pid \<noteq> 0\<close> show ?thesis by (simp add: rrr_mqtt_id_pool_release_id_def)
    qed (simp add: rrr_mqtt_id_pool_release_id_def l \<open>pid \<noteq> 0\<close>)
  }
qed

lemma zero_not_used: "0 \<notin> used_ids p"
  by (simp add: used_ids_def)

lemma rrr_mqtt_id_pool_empty:
  "pool_ok rrr_mqtt_id_pool_init" "used_ids rrr_mqtt_id_pool_init = {}"
  "pool_ok (rrr_mqtt_id_pool_clear p)" "used_ids (rrr_mqtt_id_pool_clear p) = {}"
  by (simp_all add: rrr_mqtt_id_pool_init_def rrr_mqtt_id_pool_clear_def pool_ok_def used_ids_def bit_at_def)

subsection \<open>The allocator contract\<close>

text \<open>
  A session keeps the identifiers it was given until it releases them or clears the allocator.
  \<open>id_step\<close> is one such call, with the identifiers held next to the state of the allocator.
\<close>

inductive id_step :: "(bool \<Rightarrow> 's \<Rightarrow> (u16 \<times> 's) res) \<Rightarrow> ('s \<Rightarrow> u16 \<Rightarrow> 's res) \<Rightarrow> ('s \<Rightarrow> 's) \<Rightarrow>
    's \<times> u16 list \<Rightarrow> 's \<times> u16 list \<Rightarrow> bool" for get release clear where
  step_get: "get have_memory s = Inr (pid, s') \<Longrightarrow> pid \<noteq> 0 \<Longrightarrow> id_step get release clear (s, live) (s', pid # live)"
| step_get_none: "get have_memory s = Inr (0, s') \<Longrightarrow> id_step get release clear (s, live) (s', live)"
| step_release: "pid \<in> set live \<Longrightarrow> release s pid = Inr s' \<Longrightarrow> id_step get release clear (s, live) (s', remove1 pid live)"
| step_clear: "id_step get release clear (s, live) (clear s, [])"

locale id_allocator =
  fixes ok :: "'s \<Rightarrow> bool" and used :: "'s \<Rightarrow> u16 set" and empty :: 's
    and get :: "bool \<Rightarrow> 's \<Rightarrow> (u16 \<times> 's) res" and release :: "'s \<Rightarrow> u16 \<Rightarrow> 's res" and clear :: "'s \<Rightarrow> 's"
  assumes zero_law: "0 \<notin> used s"
    and empty_law: "ok empty \<and> used empty = {}"
    and get_law: "ok s \<Longrightarrow> \<exists>pid s'. get have_memory s = Inr (pid, s') \<and> ok s' \<and>
       (if pid = 0 then used s' = used s \<and> (have_memory \<longrightarrow> used s = - {0})
        else pid \<notin> used s \<and> used s' = insert pid (used s))"
    and release_law: "ok s \<Longrightarrow> pid \<in> used s \<Longrightarrow>
       \<exists>s'. release s pid = Inr s' \<and> ok s' \<and> used s' = used s - {pid}"
    and clear_law: "ok s \<Longrightarrow> ok (clear s) \<and> used (clear s) = {}"
begin

lemma holds_step:
  assumes "ok (fst x) \<and> distinct (snd x) \<and> set (snd x) = used (fst x)" "id_step get release clear x y"
  shows "ok (fst y) \<and> distinct (snd y) \<and> set (snd y) = used (fst y)"
  using assms(2,1)
proof cases
  case (step_get have_memory s pid s' live)
  with get_law [of s have_memory] assms(1) show ?thesis by auto
next
  case (step_get_none have_memory s s' live)
  with get_law [of s have_memory] assms(1) show ?thesis by auto
next
  case (step_release pid live s s')
  with release_law [of s pid] assms(1) show ?thesis by auto
next
  case (step_clear s live)
  with clear_law [of s] assms(1) show ?thesis by simp
qed

end

sublocale id_allocator \<subseteq> session: inv_system "\<lambda>x. x = (empty, [])" "id_step get release clear"
  "\<lambda>x. ok (fst x) \<and> distinct (snd x) \<and> set (snd x) = used (fst x)"
proof
  show "ok (fst x) \<and> distinct (snd x) \<and> set (snd x) = used (fst x)" if "x = (empty, [])" for x
    using that empty_law by simp
  show "ok (fst y) \<and> distinct (snd y) \<and> set (snd y) = used (fst y)"
    if "ok (fst x) \<and> distinct (snd x) \<and> set (snd x) = used (fst x)" "id_step get release clear x y" for x y
    using that by (rule holds_step)
qed

context id_allocator
begin

lemma session_safe:
  assumes "(id_step get release clear)\<^sup>*\<^sup>* (empty, []) (s, live)"
  shows "distinct live \<and> 0 \<notin> set live \<and> set live = used s"
    and "pid \<in> set live \<Longrightarrow> \<exists>s'. release s pid = Inr s'"
    and "\<exists>pid s'. get True s = Inr (pid, s') \<and> (if pid = 0 then length live = 65535 else pid \<notin> set live)"
proof -
  have i: "ok s" "distinct live" "set live = used s"
    using session.inv_reachable [OF assms refl] by simp_all
  then show "distinct live \<and> 0 \<notin> set live \<and> set live = used s" using zero_law by simp
  show "pid \<in> set live \<Longrightarrow> \<exists>s'. release s pid = Inr s'" using release_law [OF i(1)] i(3) by blast
  have "card (- {0 :: u16}) = 65535" by (simp add: Compl_eq_Diff_UNIV card_word)
  then have "used s = - {0} \<Longrightarrow> length live = 65535" using i(2,3) distinct_card by metis
  with get_law [OF i(1), of True] i(3)
  show "\<exists>pid s'. get True s = Inr (pid, s') \<and> (if pid = 0 then length live = 65535 else pid \<notin> set live)"
    by fastforce
qed

end

interpretation idp: id_allocator pool_ok used_ids rrr_mqtt_id_pool_init rrr_mqtt_id_pool_get_id
  rrr_mqtt_id_pool_release_id rrr_mqtt_id_pool_clear
  by unfold_locales
    (simp_all add: rrr_mqtt_id_pool_empty rrr_mqtt_id_pool_get_id_ok rrr_mqtt_id_pool_release_id_ok(1)
      zero_not_used)

subsection \<open>Properties\<close>

text \<open>
  Claim C9: whatever sequence of calls a session makes on a fresh pool, the identifiers it holds are
  distinct, none is 0, and they are exactly the ones marked in the pool. Each of them can be released
  without an abort, and a further call, when memory is available, returns an identifier that is not
  held, or 0 only when all 65535 are held.
\<close>

theorem mqtt_ids_live_once:
  assumes "(id_step rrr_mqtt_id_pool_get_id rrr_mqtt_id_pool_release_id rrr_mqtt_id_pool_clear)\<^sup>*\<^sup>*
     (rrr_mqtt_id_pool_init, []) (p, live)"
  shows "distinct live \<and> 0 \<notin> set live \<and> set live = used_ids p \<and>
     (\<forall>pid \<in> set live. \<exists>p'. rrr_mqtt_id_pool_release_id p pid = Inr p') \<and>
     (\<exists>pid p'. rrr_mqtt_id_pool_get_id True p = Inr (pid, p') \<and>
       (if pid = 0 then length live = 65535 else pid \<notin> set live))"
  using idp.session_safe [OF assms] by blast

definition demo_pool :: "bool \<Rightarrow> id_pool" where
  "demo_pool b = \<lparr>pool = (if b then 1 else 0) # replicate 511 0, allocated_majors = 512, last_allocated_id = 1\<rparr>"

lemma demo_pool_steps:
  "rrr_mqtt_id_pool_get_id True rrr_mqtt_id_pool_init = Inr (1, demo_pool True)"
  "rrr_mqtt_id_pool_release_id (demo_pool True) 1 = Inr (demo_pool False)"
proof -
  have r: "replicate 512 x = x # replicate 511 x" for x :: u32
    using replicate_Suc [of 511 x] by simp
  have scan: "get_id_scan 512 0 (0 # ps) = Inr (True, 1, 1 # ps)" for ps
  proof -
    have "get_id_32_loop 32 0 0 0 = Inr (1, 1)" using get_id_32_loop.simps(2) [of 31 0 0 0] by simp
    then show ?thesis
      using get_id_scan.simps(2) [of 511 0 "0 # ps"] by (simp add: rrr_mqtt_id_pool_get_id_32_def)
  qed
  have "get_id_retry 6 True \<lparr>pool = [], allocated_majors = 0, last_allocated_id = 1\<rparr> = Inr (1, demo_pool True)"
    using get_id_retry.simps(2) [of 5] get_id_retry.simps(2) [of 4] by (simp add: rrr_mqtt_id_pool_realloc_def pool_size_defs Let_def r scan demo_pool_def)
  then show "rrr_mqtt_id_pool_get_id True rrr_mqtt_id_pool_init = Inr (1, demo_pool True)"
    by (simp add: rrr_mqtt_id_pool_get_id_def rrr_mqtt_id_pool_init_def Let_def demo_pool_def del: get_id_retry.simps)
  show "rrr_mqtt_id_pool_release_id (demo_pool True) 1 = Inr (demo_pool False)"
    by (simp add: rrr_mqtt_id_pool_release_id_def demo_pool_def id_maj_def id_min_def id_mask_def)
qed

theorem mqtt_ids_live_once_witness: "set [1] = used_ids (demo_pool True)"
proof -
  have "id_step rrr_mqtt_id_pool_get_id rrr_mqtt_id_pool_release_id rrr_mqtt_id_pool_clear
     (rrr_mqtt_id_pool_init, []) (demo_pool True, [1])"
    using demo_pool_steps(1) by (rule step_get) simp
  from mqtt_ids_live_once [OF r_into_rtranclp [of "id_step rrr_mqtt_id_pool_get_id
      rrr_mqtt_id_pool_release_id rrr_mqtt_id_pool_clear", OF this]]
  show ?thesis by blast
qed

text \<open>
  Claim C28: an identifier that was handed out can be released; the identifiers in use are then those
  of before the call, and releasing it a second time aborts.
\<close>

theorem mqtt_id_get_release_roundtrip:
  assumes "pool_ok p" "rrr_mqtt_id_pool_get_id have_memory p = Inr (pid, p')" "pid \<noteq> 0"
  shows "\<exists>p''. rrr_mqtt_id_pool_release_id p' pid = Inr p'' \<and> pool_ok p'' \<and> used_ids p'' = used_ids p \<and>
     rrr_mqtt_id_pool_release_id p'' pid = Inl Bug"
proof -
  have "pool_ok p'" "pid \<notin> used_ids p" "used_ids p' = insert pid (used_ids p)"
    using rrr_mqtt_id_pool_get_id_ok [OF assms(1), of have_memory] assms(2,3) by auto
  with rrr_mqtt_id_pool_release_id_ok(1) [of p' pid] rrr_mqtt_id_pool_release_id_ok(2) [of _ pid] assms(3)
  show ?thesis by force
qed

theorem mqtt_id_get_release_roundtrip_witness:
  "rrr_mqtt_id_pool_release_id (demo_pool False) 1 = Inl Bug \<and> used_ids (demo_pool False) = {}"
  using mqtt_id_get_release_roundtrip [OF rrr_mqtt_id_pool_empty(1) demo_pool_steps(1)]
  by (simp add: demo_pool_steps(2) rrr_mqtt_id_pool_empty(2))

end
