(* ===== verification/RRR_Msg_Slot.thy ===== *)
theory RRR_Msg_Slot
  imports RRR_Msg_Holder RRR_Types
begin

text \<open>
  The one-message slot between a writer and its readers,
  \<^verbatim>\<open>src/lib/message_holder/message_holder_slot.c\<close>, with the cloning of holders it relies on
  (\<^verbatim>\<open>message_holder_util.c\<close>). Every operation holds the mutex of the slot
  from start to end, except for a writer that waits: between the wake-ups the other threads run.
  A wait is therefore a list of wake-ups, each with what the other threads did to the heap and the
  slot; a list that is used up while the slot is still full is \<open>Diverge\<close>.
  The places after the unlock at which other threads can run before the operation is finished are
  parameters as well. Thread cancellation is not modelled.
  The theory shows that a slot delivers to each of its readers exactly the sequence of messages
  written, and what goes wrong when a collection is written while a reader runs.
\<close>

subsection \<open>Cloning a holder\<close>

text \<open>
  What the environment decides during a clone: whether there is memory for the message, the address
  of the new holder (NULL: no memory), the result of the mutex initialisation, and for how many next
  hops there is memory.
\<close>

record clone_env =
  mem_message :: bool
  mem_entry :: ptr
  mem_lock :: c_int
  mem_hops :: nat

text \<open>The size of \<^verbatim>\<open>struct rrr_msg_msg\<close> without its one byte of data.\<close>

definition msg_msg_head_size :: rrr_biglength where "msg_msg_head_size = 30"

definition rrr_msg_holder_util_new_with_empty_message ::
    "clone_env \<Rightarrow> holder_heap \<Rightarrow> rrr_biglength \<Rightarrow> u8 list option \<Rightarrow> u32 \<Rightarrow> u8 \<Rightarrow> (c_int \<times> ptr \<times> holder_heap) res" where
  "rrr_msg_holder_util_new_with_empty_message env h message_data_length address address_len proto =
     (let message_size = msg_msg_head_size + message_data_length in
      if message_size < message_data_length then Inr (1, NULL, h)
      else if \<not> mem_message env then Inr (1, NULL, h)
      else bindr (rrr_msg_holder_new h (mem_entry env) (mem_lock env) message_size address address_len proto
                    (Some (replicate (unat message_size) 0))) (\<lambda>(ret, entry, h).
        if ret \<noteq> 0 then Inr (1, NULL, h)
        else bindr (rrr_msg_holder_lock h entry) (\<lambda>h.
             bindr (modify h entry (payload_update (message_update (\<lambda>_. Some (replicate (unat message_size) 0))))) (\<lambda>h.
             bindr (rrr_msg_holder_unlock h entry) (\<lambda>h. Inr (0, entry, h))))))"

text \<open>The bytes of the message of a holder that \<open>data_length\<close> promises.\<close>

definition holder_bytes :: "msg_holder \<Rightarrow> u8 list res" where
  "holder_bytes e =
     (case message e of None \<Rightarrow> Inl Bad_Access
      | Some m \<Rightarrow> if length m < unat (data_length e) then Inl Bad_Access else Inr (take (unat (data_length e)) m))"

definition rrr_msg_holder_util_clone_no_locking ::
    "clone_env \<Rightarrow> holder_heap \<Rightarrow> ptr \<Rightarrow> (c_int \<times> ptr \<times> holder_heap) res" where
  "rrr_msg_holder_util_clone_no_locking env h source =
     bindr (load h source) (\<lambda>s. let e = payload s in
     bindr (rrr_msg_holder_util_new_with_empty_message env h (data_length e - msg_msg_head_size)
              (Some (addr e)) (addr_len e) (protocol e)) (\<lambda>(ret, entry, h).
     if ret \<noteq> 0 then Inr (ret, NULL, h)
     else bindr (rrr_msg_holder_lock h entry) (\<lambda>h.
       bindr (holder_bytes e) (\<lambda>m.
       case rrr_instance_friend_collection_append_from (\<lambda>i. i < mem_hops env) 0 [] (nexthops e) of (ret, hops) \<Rightarrow>
       bindr (modify h entry (payload_update (\<lambda>n. n\<lparr>buffer_time := buffer_time e, send_time := send_time e,
                message := Some m, nexthops := hops\<rparr>))) (\<lambda>h.
       bindr (rrr_msg_holder_unlock h entry) (\<lambda>h.
       if ret \<noteq> 0 then bindr (rrr_msg_holder_decref h entry) (\<lambda>h. Inr (ret, NULL, h))
       else Inr (0, entry, h)))))))"

definition rrr_msg_holder_util_clone_no_locking_no_metadata ::
    "clone_env \<Rightarrow> holder_heap \<Rightarrow> ptr \<Rightarrow> (c_int \<times> ptr \<times> holder_heap) res" where
  "rrr_msg_holder_util_clone_no_locking_no_metadata env h source =
     bindr (load h source) (\<lambda>s. let e = payload s in
     bindr (rrr_msg_holder_util_new_with_empty_message env h (data_length e - msg_msg_head_size) None 0 0)
       (\<lambda>(ret, entry, h).
     if ret = 0 then
       bindr (rrr_msg_holder_lock h entry) (\<lambda>h.
       bindr (holder_bytes e) (\<lambda>m.
       bindr (modify h entry (payload_update (message_update (\<lambda>_. Some m)))) (\<lambda>h.
       bindr (rrr_msg_holder_unlock h entry) (\<lambda>h. Inr (ret, entry, h)))))
     else Inr (ret, entry, h)))"

subsection \<open>The slot\<close>

text \<open>A pointer to an array: NULL, pointing to freed memory, or pointing to an array.\<close>

datatype 'a block = Null | Dangling | Block "'a list"

definition block_at :: "'a block \<Rightarrow> nat \<Rightarrow> 'a res" where
  "block_at b i = (case b of Block xs \<Rightarrow> if i < length xs then Inr (xs ! i) else Inl Bad_Access | _ \<Rightarrow> Inl Bad_Access)"

definition block_set :: "'a block \<Rightarrow> nat \<Rightarrow> 'a \<Rightarrow> 'a block res" where
  "block_set b i x =
     (case b of Block xs \<Rightarrow> if i < length xs then Inr (Block (xs[i := x])) else Inl Bad_Access | _ \<Rightarrow> Inl Bad_Access)"

definition RRR_FREE_IF_NOT_NULL :: "'a block \<Rightarrow> 'a block res" where
  "RRR_FREE_IF_NOT_NULL b = (if b = Dangling then Inl Bad_Access else Inr Null)"

record msg_holder_slot =
  entry :: ptr
  reader_count :: rrr_length
  readers :: "ptr block"
  reader_has_read :: "u8 block"
  total_entries_deleted :: u64
  total_entries_written :: u64

definition rrr_msg_holder_slot_new :: "bool \<Rightarrow> c_int \<Rightarrow> c_int \<Rightarrow> c_int \<times> msg_holder_slot option" where
  "rrr_msg_holder_slot_new have_memory mutex_init cond_init =
     (if \<not> have_memory then (1, None)
      else if mutex_init \<noteq> 0 then (1, None)
      else if cond_init \<noteq> 0 then (1, None)
      else (0, Some \<lparr>entry = NULL, reader_count = 0, readers = Null, reader_has_read = Null,
                     total_entries_deleted = 0, total_entries_written = 0\<rparr>))"

definition rrr_msg_holder_slot_reader_count_set ::
    "bool \<Rightarrow> bool \<Rightarrow> msg_holder_slot \<Rightarrow> rrr_length \<Rightarrow> (c_int \<times> msg_holder_slot) res" where
  "rrr_msg_holder_slot_reader_count_set mem_readers mem_has_read slot count =
     bindr (RRR_FREE_IF_NOT_NULL (readers slot)) (\<lambda>rs.
     bindr (RRR_FREE_IF_NOT_NULL (reader_has_read slot)) (\<lambda>fs.
     let slot = slot\<lparr>readers := rs, reader_has_read := fs\<rparr> in
     if count > 0 then
       (if \<not> mem_readers then Inr (1, slot)
        else if \<not> mem_has_read then Inr (1, slot\<lparr>readers := Dangling\<rparr>)
        else Inr (0, slot\<lparr>readers := Block (replicate (unat count) NULL),
                          reader_has_read := Block (replicate (unat count) 0), reader_count := count\<rparr>))
     else Inr (0, slot\<lparr>reader_count := count\<rparr>)))"

definition rrr_msg_holder_slot_destroy :: "holder_heap \<Rightarrow> msg_holder_slot \<Rightarrow> holder_heap res" where
  "rrr_msg_holder_slot_destroy h slot =
     bindr (if entry slot \<noteq> NULL then rrr_msg_holder_decref h (entry slot) else Inr h) (\<lambda>h.
     bindr (RRR_FREE_IF_NOT_NULL (readers slot)) (\<lambda>_.
     bindr (RRR_FREE_IF_NOT_NULL (reader_has_read slot)) (\<lambda>_. Inr h)))"

definition rrr_msg_holder_slot_get_stats :: "msg_holder_slot \<Rightarrow> u64 \<times> u64" where
  "rrr_msg_holder_slot_get_stats slot = (total_entries_deleted slot, total_entries_written slot)"

primrec slot_count_loop :: "nat \<Rightarrow> nat \<Rightarrow> u8 block \<Rightarrow> u32 \<Rightarrow> u32 res" where
  "slot_count_loop 0 i has_read count = Inr count"
| "slot_count_loop (Suc k) i has_read count =
     bindr (block_at has_read i) (\<lambda>f.
     slot_count_loop k (i + 1) has_read (if f = 0 then count + 1 else count))"

definition rrr_msg_holder_slot_count :: "msg_holder_slot \<Rightarrow> u32 res" where
  "rrr_msg_holder_slot_count slot =
     (if entry slot = NULL then Inr 0
      else slot_count_loop (unat (reader_count slot)) 0 (reader_has_read slot) 1)"

primrec reader_index_loop :: "nat \<Rightarrow> nat \<Rightarrow> ptr block \<Rightarrow> ptr \<Rightarrow> (rrr_slength \<times> ptr block) res" where
  "reader_index_loop 0 i rs self = Inl Bug"
| "reader_index_loop (Suc k) i rs self =
     bindr (block_at rs i) (\<lambda>r.
     if r = self then Inr (int i, rs)
     else if r = NULL then bindr (block_set rs i self) (\<lambda>rs. Inr (int i, rs))
     else reader_index_loop k (i + 1) rs self)"

definition rrr_msg_holder_slot_reader_index_get_unlocked ::
    "msg_holder_slot \<Rightarrow> ptr \<Rightarrow> (rrr_slength \<times> msg_holder_slot) res" where
  "rrr_msg_holder_slot_reader_index_get_unlocked slot self =
     (if reader_count slot = 0 then Inr (-1, slot)
      else bindr (reader_index_loop (unat (reader_count slot)) 0 (readers slot) self) (\<lambda>(self_index, rs).
           Inr (self_index, slot\<lparr>readers := rs\<rparr>)))"

text \<open>
  A read callback gets the locked clone. It returns its return value and \<open>do_keep\<close>; it must unlock
  the clone once and may take further references to it.
\<close>

type_synonym 's slot_callback = "holder_heap \<Rightarrow> ptr \<Rightarrow> 's \<Rightarrow> (c_int \<times> bool \<times> holder_heap \<times> 's) res"

primrec slot_done_loop :: "nat \<Rightarrow> nat \<Rightarrow> u8 block \<Rightarrow> rrr_length \<Rightarrow> rrr_length res" where
  "slot_done_loop 0 i has_read done_count = Inr done_count"
| "slot_done_loop (Suc k) i has_read done_count =
     bindr (block_at has_read i) (\<lambda>f.
     slot_done_loop k (i + 1) has_read (if f \<noteq> 0 then done_count + 1 else done_count))"

text \<open>The part of a read after a callback that consumed the message; \<open>broadcast\<close> is the result of the signal.\<close>

definition slot_read_done ::
    "c_int \<Rightarrow> rrr_slength \<Rightarrow> holder_heap \<Rightarrow> msg_holder_slot \<Rightarrow> (c_int \<times> holder_heap \<times> msg_holder_slot) res" where
  "slot_read_done broadcast self_index h slot =
     bindr (if self_index \<ge> 0 then
              bindr (block_set (reader_has_read slot) (nat self_index) 1) (\<lambda>fs.
              bindr (slot_done_loop (unat (reader_count slot)) 0 fs 0) (\<lambda>done_count.
              Inr (done_count, slot\<lparr>reader_has_read := fs\<rparr>)))
            else Inr (0, slot)) (\<lambda>(done_count, slot).
     bindr (if done_count \<ge> reader_count slot then
              bindr (rrr_msg_holder_decref h (entry slot)) (\<lambda>h.
              Inr (h, slot\<lparr>total_entries_deleted := total_entries_deleted slot + 1, entry := NULL\<rparr>))
            else Inr (h, slot)) (\<lambda>(h, slot).
     Inr (if broadcast \<noteq> 0 then 1 else 0, h, slot)))"

definition rrr_msg_holder_slot_read ::
    "clone_env \<Rightarrow> c_int \<Rightarrow> 's slot_callback \<Rightarrow> ptr \<Rightarrow> holder_heap \<Rightarrow> msg_holder_slot \<Rightarrow> 's \<Rightarrow>
     (c_int \<times> holder_heap \<times> msg_holder_slot \<times> 's) res" where
  "rrr_msg_holder_slot_read env broadcast callback self h slot w =
     (if entry slot = NULL then Inr (0, h, slot, w)
      else bindr (rrr_msg_holder_slot_reader_index_get_unlocked slot self) (\<lambda>(self_index, slot).
           bindr (if self_index \<ge> 0 then bindr (block_at (reader_has_read slot) (nat self_index)) (\<lambda>f. Inr (f \<noteq> 0))
                  else Inr False) (\<lambda>has_read.
           if has_read then Inr (0, h, slot, w)
           else bindr (rrr_msg_holder_lock h (entry slot)) (\<lambda>h.
                bindr (rrr_msg_holder_util_clone_no_locking env h (entry slot)) (\<lambda>(ret, entry_new, h).
                bindr (rrr_msg_holder_unlock h (entry slot)) (\<lambda>h.
                if ret \<noteq> 0 then Inr (ret, h, slot, w)
                else bindr (rrr_msg_holder_lock_double h entry_new) (\<lambda>h.
                     bindr (callback h entry_new w) (\<lambda>(ret, do_keep, h, w).
                     bindr (if ret \<noteq> 0 \<or> do_keep then Inr (ret, h, slot)
                            else slot_read_done broadcast self_index h slot) (\<lambda>(ret, h, slot).
                     bindr (rrr_msg_holder_decref_while_locked_and_unlock h entry_new) (\<lambda>h.
                     Inr (ret, h, slot, w)))))))))))"

definition rrr_msg_holder_slot_discard_callback :: "bool slot_callback" where
  "rrr_msg_holder_slot_discard_callback h e did_discard =
     bindr (rrr_msg_holder_unlock h e) (\<lambda>h. Inr (0, False, h, True))"

definition rrr_msg_holder_slot_discard ::
    "clone_env \<Rightarrow> c_int \<Rightarrow> ptr \<Rightarrow> holder_heap \<Rightarrow> msg_holder_slot \<Rightarrow> (c_int \<times> holder_heap \<times> msg_holder_slot \<times> bool) res" where
  "rrr_msg_holder_slot_discard env broadcast self h slot =
     rrr_msg_holder_slot_read env broadcast rrr_msg_holder_slot_discard_callback self h slot False"

subsection \<open>Writing\<close>

definition ETIMEDOUT :: c_int where "ETIMEDOUT = 110"

type_synonym slot_world = "holder_heap \<times> msg_holder_slot"

text \<open>
  A wake-up: the result of the timed wait, what the other threads did before it, and the result of
  the cancel check, if there is one.
\<close>

record slot_wake =
  wait_result :: c_int
  wait_others :: "slot_world \<Rightarrow> slot_world"
  wait_cancel :: "c_int option"

primrec rrr_msg_holder_slot_write_wait :: "slot_wake list \<Rightarrow> slot_world \<Rightarrow> (c_int \<times> slot_world) res" where
  "rrr_msg_holder_slot_write_wait [] st = (if entry (snd st) \<noteq> NULL then Inl Diverge else Inr (0, st))"
| "rrr_msg_holder_slot_write_wait (wake # wakes) st =
     (if entry (snd st) \<noteq> NULL then
        let st = wait_others wake st in
        if wait_result wake \<noteq> 0 \<and> wait_result wake \<noteq> ETIMEDOUT then Inr (1, st)
        else case wait_cancel wake of
               None \<Rightarrow> rrr_msg_holder_slot_write_wait wakes st
             | Some ret \<Rightarrow> if ret \<noteq> 0 then Inr (ret, st) else rrr_msg_holder_slot_write_wait wakes st
      else Inr (0, st))"

primrec slot_reset_loop :: "nat \<Rightarrow> nat \<Rightarrow> u8 block \<Rightarrow> u8 block res" where
  "slot_reset_loop 0 i has_read = Inr has_read"
| "slot_reset_loop (Suc k) i has_read = bindr (block_set has_read i 0) (slot_reset_loop k (i + 1))"

text \<open>The slot owns the entry from here on, even when the signal fails.\<close>

definition slot_write_and_reset :: "c_int \<Rightarrow> msg_holder_slot \<Rightarrow> ptr \<Rightarrow> (c_int \<times> msg_holder_slot) res" where
  "slot_write_and_reset broadcast slot entry_new =
     bindr (slot_reset_loop (unat (reader_count slot)) 0 (reader_has_read slot)) (\<lambda>fs.
     Inr (if broadcast \<noteq> 0 then 1 else 0,
          slot\<lparr>reader_has_read := fs, entry := entry_new, total_entries_written := total_entries_written slot + 1\<rparr>))"

definition slot_holder_destroy_double_ptr :: "holder_heap \<Rightarrow> ptr \<Rightarrow> holder_heap res" where
  "slot_holder_destroy_double_ptr h entry_new =
     (if entry_new \<noteq> NULL then rrr_msg_holder_decref h entry_new else Inr h)"

definition rrr_msg_holder_slot_write ::
    "ptr \<Rightarrow> c_int \<Rightarrow> slot_wake list \<Rightarrow> c_int \<Rightarrow> 's slot_callback \<Rightarrow> u8 list option \<Rightarrow> u32 \<Rightarrow> u8 \<Rightarrow>
     holder_heap \<Rightarrow> msg_holder_slot \<Rightarrow> 's \<Rightarrow> (c_int \<times> holder_heap \<times> msg_holder_slot \<times> 's) res" where
  "rrr_msg_holder_slot_write mem lock_init wakes broadcast callback address address_len proto h slot w =
     bindr (rrr_msg_holder_new h mem lock_init 0 address address_len proto None) (\<lambda>(ret, entry_new, h).
     bindr (if ret \<noteq> 0 then Inr (ret, entry_new, h, slot, w)
            else bindr (rrr_msg_holder_slot_write_wait wakes (h, slot)) (\<lambda>(ret, h, slot).
                 if ret \<noteq> 0 then Inr (ret, entry_new, h, slot, w)
                 else bindr (rrr_msg_holder_lock h entry_new) (\<lambda>h.
                      bindr (callback h entry_new w) (\<lambda>(ret, do_drop, h, w).
                      if ret \<noteq> 0 \<or> do_drop then Inr (ret, entry_new, h, slot, w)
                      else bindr (slot_write_and_reset broadcast slot entry_new) (\<lambda>(ret, slot).
                           Inr (ret, NULL, h, slot, w)))))) (\<lambda>(ret, entry_new, h, slot, w).
     bindr (slot_holder_destroy_double_ptr h entry_new) (\<lambda>h. Inr (ret, h, slot, w))))"

definition rrr_msg_holder_slot_write_clone ::
    "clone_env \<Rightarrow> slot_wake list \<Rightarrow> c_int \<Rightarrow> (holder_heap \<Rightarrow> ptr \<Rightarrow> holder_heap res) option \<Rightarrow> ptr \<Rightarrow>
     holder_heap \<Rightarrow> msg_holder_slot \<Rightarrow> (c_int \<times> holder_heap \<times> msg_holder_slot) res" where
  "rrr_msg_holder_slot_write_clone env wakes broadcast after_clone_callback source h slot =
     bindr (rrr_msg_holder_util_clone_no_locking env h source) (\<lambda>(ret, entry_new, h).
     bindr (if ret \<noteq> 0 then Inr (ret, entry_new, h, slot)
            else bindr (case after_clone_callback of None \<Rightarrow> Inr h | Some f \<Rightarrow> f h entry_new) (\<lambda>h.
                 bindr (rrr_msg_holder_slot_write_wait wakes (h, slot)) (\<lambda>(ret, h, slot).
                 if ret \<noteq> 0 then Inr (ret, entry_new, h, slot)
                 else bindr (slot_write_and_reset broadcast slot entry_new) (\<lambda>(ret, slot).
                      Inr (ret, NULL, h, slot))))) (\<lambda>(ret, entry_new, h, slot).
     bindr (slot_holder_destroy_double_ptr h entry_new) (\<lambda>h. Inr (ret, h, slot))))"

definition rrr_msg_holder_slot_write_entry ::
    "slot_wake list \<Rightarrow> c_int \<Rightarrow> ptr \<Rightarrow> holder_heap \<Rightarrow> msg_holder_slot \<Rightarrow> (c_int \<times> slot_world) res" where
  "rrr_msg_holder_slot_write_entry wakes broadcast entry_new h slot =
     bindr (rrr_msg_holder_slot_write_wait wakes (h, slot)) (\<lambda>(ret, h, slot).
     if ret \<noteq> 0 then Inr (ret, h, slot)
     else bindr (slot_write_and_reset broadcast slot entry_new) (\<lambda>(ret, slot). Inr (ret, h, slot)))"

text \<open>\<open>others\<close> is what the other threads do after the slot is unlocked, before the reference is taken.\<close>

definition rrr_msg_holder_slot_write_incref ::
    "slot_wake list \<Rightarrow> c_int \<Rightarrow> (slot_world \<Rightarrow> slot_world) \<Rightarrow> ptr \<Rightarrow> holder_heap \<Rightarrow> msg_holder_slot \<Rightarrow>
     (c_int \<times> slot_world) res" where
  "rrr_msg_holder_slot_write_incref wakes broadcast others entry_new h slot =
     bindr (rrr_msg_holder_slot_write_entry wakes broadcast entry_new h slot) (\<lambda>(ret, st).
     case others st of (h, slot) \<Rightarrow>
     if ret \<noteq> 0 then Inr (ret, h, slot)
     else bindr (rrr_msg_holder_incref h entry_new) (\<lambda>h. Inr (ret, h, slot)))"

text \<open>
  The loop over a collection: one element of the list per round, with the wake-ups, the result of the
  signal, and what the other threads do between the unlock and the removal from the collection.
\<close>

fun rrr_msg_holder_slot_write_from_collection ::
    "(slot_wake list \<times> c_int \<times> (slot_world \<Rightarrow> slot_world)) list \<Rightarrow> holder_heap \<Rightarrow> msg_holder_slot \<Rightarrow> ll_head \<Rightarrow>
     (c_int \<times> slot_world \<times> ll_head) res" where
  "rrr_msg_holder_slot_write_from_collection [] h slot collection =
     (if RRR_LL_COUNT collection > 0 then Inl Diverge else Inr (0, (h, slot), collection))"
| "rrr_msg_holder_slot_write_from_collection ((wakes, broadcast, others) # rounds) h slot collection =
     (if RRR_LL_COUNT collection > 0 then
        bindr (rrr_msg_holder_slot_write_entry wakes broadcast (ptr_first collection) h slot) (\<lambda>(ret, st).
        case others st of (h, slot) \<Rightarrow>
        if ret \<noteq> 0 then Inr (ret, (h, slot), collection)
        else bindr (RRR_LL_SHIFT h collection) (\<lambda>(_, h, collection).
             rrr_msg_holder_slot_write_from_collection rounds h slot collection))
      else Inr (0, (h, slot), collection))"

subsection \<open>Clones\<close>

lemma append_from_distinct:
  assumes "distinct (members source)"
  shows "rrr_instance_friend_collection_append_from (\<lambda>i. i < n) 0 [] source =
    (if length source \<le> n then (0, source) else (1, take n source))"
proof -
  from append_from_copies [of "[]" source "\<lambda>i. i < n" 0] assms
  consider c where "rrr_instance_friend_collection_append_from (\<lambda>i. i < n) 0 [] source = (1, take c source)" "\<not> c < n"
      "\<forall>i < c. i < n" "c < length source"
    | "rrr_instance_friend_collection_append_from (\<lambda>i. i < n) 0 [] source = (0, source)" "\<forall>i < length source. i < n" by auto
  then show ?thesis
  proof cases
    case 1
    then have "c = n" by (metis linorder_neqE_nat less_irrefl)
    with 1 show ?thesis by simp
  next
    case 2
    then have "length source \<le> n" by (metis less_irrefl not_less)
    with 2 show ?thesis by simp
  qed
qed

definition holder_ok :: "msg_holder \<Rightarrow> bool" where
  "holder_ok e \<longleftrightarrow> 0 < usercount e \<and> msg_msg_head_size \<le> data_length e \<and>
     (\<exists>m. message e = Some m \<and> length m = unat (data_length e)) \<and>
     unat (addr_len e) \<le> sockaddr_storage_size \<and> distinct (members (nexthops e))"

definition cloned :: "msg_holder \<Rightarrow> msg_holder" where
  "cloned e = \<lparr>lock_depth = 0, usercount = 1, data_length = data_length e,
     addr = take (unat (addr_len e)) (addr e) @ drop (unat (addr_len e)) zero_addr, addr_len = addr_len e,
     protocol = protocol e, message = message e, buffer_time = buffer_time e, nexthops = nexthops e,
     send_time = send_time e, send_index = 0, private_data = NULL\<rparr>"

abbreviation fresh_node :: "msg_holder \<Rightarrow> msg_holder ll_node" where
  "fresh_node e \<equiv> \<lparr>ptr_prev = NULL, ptr_next = NULL, payload = e\<rparr>"

definition clone_room :: "clone_env \<Rightarrow> msg_holder \<Rightarrow> bool" where
  "clone_room env e \<longleftrightarrow> mem_message env \<and> mem_entry env \<noteq> NULL \<and> mem_lock env = 0 \<and>
     length (nexthops e) \<le> mem_hops env"

definition env_fresh :: "clone_env \<Rightarrow> holder_heap \<Rightarrow> bool" where
  "env_fresh env h \<longleftrightarrow> (\<forall>b. mem_entry env = Some b \<longrightarrow> h b = None)"

lemma clone_no_wrap: "msg_msg_head_size \<le> x \<Longrightarrow> \<not> x < x - msg_msg_head_size"
  using sub_wraps_iff [of x msg_msg_head_size] by (simp add: not_less)

lemma clone_ok:
  assumes "h a = Some n" "holder_ok (payload n)" "env_fresh env h"
  shows "rrr_msg_holder_util_clone_no_locking env h (Some a) =
     (if clone_room env (payload n)
      then Inr (0, mem_entry env, h(the (mem_entry env) \<mapsto> fresh_node (cloned (payload n))))
      else Inr (1, NULL, h))"
proof -
  obtain m where m: "message (payload n) = Some m" "length m = unat (data_length (payload n))"
    and e: "msg_msg_head_size \<le> data_length (payload n)" "unat (addr_len (payload n)) \<le> sockaddr_storage_size"
      "distinct (members (nexthops (payload n)))"
    using assms(2) by (auto simp: holder_ok_def)
  have hops: "rrr_instance_friend_collection_append_from (\<lambda>i. i < mem_hops env) 0 [] (nexthops (payload n)) =
     (if length (nexthops (payload n)) \<le> mem_hops env then (0, nexthops (payload n))
      else (1, take (mem_hops env) (nexthops (payload n))))"
    using append_from_distinct e(3) by simp
  have bytes: "holder_bytes (payload n) = Inr m" using m by (simp add: holder_bytes_def)
  show ?thesis
  proof (cases "mem_entry env")
    case None
    with assms(1) show ?thesis
      by (simp add: rrr_msg_holder_util_clone_no_locking_def rrr_msg_holder_util_new_with_empty_message_def
          rrr_msg_holder_new_def clone_room_def Let_def)
  next
    case (Some b)
    then have b: "h b = None" using assms(3) by (simp add: env_fresh_def)
    with assms(1) have "b \<noteq> a" by auto
    with assms(1) b Some e hops bytes m clone_no_wrap [OF e(1)] show ?thesis
      by (cases n)
        (auto simp: rrr_msg_holder_util_clone_no_locking_def rrr_msg_holder_util_new_with_empty_message_def
          rrr_msg_holder_new_def rrr_msg_holder_lock_def rrr_msg_holder_unlock_def clone_room_def Let_def
          cloned_def rrr_msg_holder_decref_last fun_upd_idem)
  qed
qed

subsection \<open>One read\<close>

lemma block_simps [simp]:
  "i < length xs \<Longrightarrow> block_at (Block xs) i = Inr (xs ! i)"
  "i < length xs \<Longrightarrow> block_set (Block xs) i x = Inr (Block (xs[i := x]))"
  by (simp_all add: block_at_def block_set_def)

lemma slot_done_loop_ok:
  "i + k \<le> length fs \<Longrightarrow>
   slot_done_loop k i (Block fs) c = Inr (c + of_nat (length (filter (\<lambda>f. f \<noteq> 0) (take k (drop i fs)))))"
proof (induction k arbitrary: i c)
  case (Suc k)
  then have "take (Suc k) (drop i fs) = fs ! i # take k (drop (i + 1) fs)"
    by (simp add: Cons_nth_drop_Suc [symmetric])
  with Suc.prems Suc.IH [of "i + 1"] show ?case by (simp add: algebra_simps)
qed simp

lemma slot_done_all:
  assumes "length fs = unat (count :: rrr_length)"
  shows "of_nat (length (filter (\<lambda>f. f \<noteq> 0) fs)) \<ge> count \<longleftrightarrow> (\<forall>i < length fs. fs ! i \<noteq> 0)"
proof -
  let ?k = "length (filter (\<lambda>f. f \<noteq> 0) fs)"
  have k: "?k \<le> unat count" using length_filter_le [of "\<lambda>f. f \<noteq> 0" fs] assms by simp
  then have "unat (of_nat ?k :: rrr_length) = ?k"
    using unat_bound [of count] by (simp add: unat_of_nat)
  then have "of_nat ?k \<ge> count \<longleftrightarrow> ?k = length fs" using k assms by (auto simp: word_le_nat_alt)
  also have "\<dots> \<longleftrightarrow> (\<forall>f \<in> set fs. f \<noteq> 0)"
  proof -
    have "length (filter (\<lambda>f. \<not> f \<noteq> 0) fs) = 0 \<longleftrightarrow> (\<forall>f \<in> set fs. f \<noteq> 0)" by (simp add: filter_empty_conv)
    then show ?thesis using sum_length_filter_compl [of "\<lambda>f. f \<noteq> 0" fs] by linarith
  qed
  finally show ?thesis by (simp add: all_set_conv_all_nth)
qed

lemma reader_index_loop_ok:
  assumes "j < length rs" "rs ! j = self \<or> rs ! j = NULL" "\<forall>l < j. rs ! l \<noteq> self \<and> rs ! l \<noteq> NULL" "i \<le> j"
  shows "reader_index_loop (length rs - i) i (Block rs) self = Inr (int j, Block (rs[j := self]))"
  using assms(4)
proof (induction rule: inc_induct)
  case base
  have "rs ! j = self \<Longrightarrow> rs[j := self] = rs" using list_update_id [of rs j] by simp
  with assms(1,2) show ?case
    by (subst Suc_diff_Suc [OF assms(1), symmetric]) auto
next
  case (step i)
  then have "i < length rs" using assms(1) by simp
  with step assms(3) show ?case by (subst Suc_diff_Suc [symmetric]) simp_all
qed

lemma decref_locked_frame:
  assumes "h b = Some n" "0 < usercount (payload n)"
  shows "\<exists>v. rrr_msg_holder_decref_while_locked_and_unlock h (Some b) = Inr (h(b := v))"
proof (cases "usercount (payload n) = 1")
  case True
  with assms have "rrr_msg_holder_decref_while_locked_and_unlock h (Some b) = Inr (h(b := None))"
    by (simp add: rrr_msg_holder_decref_while_locked_and_unlock_def rrr_msg_holder_unlock_def)
  then show ?thesis ..
next
  case False
  with assms show ?thesis
    by (auto simp: rrr_msg_holder_decref_while_locked_and_unlock_def rrr_msg_holder_unlock_def)
qed

lemma decref_frame:
  "h a = Some n \<Longrightarrow> 0 < usercount (payload n) \<Longrightarrow>
   \<exists>v. rrr_msg_holder_decref h (Some a) = Inr (h(a := v)) \<and> (usercount (payload n) = 1 \<longrightarrow> v = None)"
  using rrr_msg_holder_decref_last [of h a n] rrr_msg_holder_decref_more [of h a n]
  by (cases "usercount (payload n) = 1") auto

text \<open>
  The contract of a read callback: it gets a clone that it alone refers to, locked twice, and returns
  with the clone still referenced; it may change the clone and its own world, nothing else.
\<close>

definition reader_contract :: "'s slot_callback \<Rightarrow> bool" where
  "reader_contract callback \<longleftrightarrow> (\<forall>h b n w.
     h b = Some n \<and> usercount (payload n) = 1 \<and> lock_depth (payload n) = 2 \<longrightarrow>
     (\<exists>ret keep n' w'. callback h (Some b) w = Inr (ret, keep, h(b \<mapsto> n'), w') \<and> 0 < usercount (payload n')))"

text \<open>What a read leaves in the slot after reader \<open>i\<close> has consumed the message.\<close>

definition slot_consumed :: "nat \<Rightarrow> u8 list \<Rightarrow> msg_holder_slot \<Rightarrow> msg_holder_slot" where
  "slot_consumed i fs slot =
     (let slot = slot\<lparr>reader_has_read := Block (fs[i := 1])\<rparr> in
      if \<forall>j < length fs. fs[i := 1] ! j \<noteq> 0
      then slot\<lparr>total_entries_deleted := total_entries_deleted slot + 1, entry := NULL\<rparr> else slot)"

lemma slot_read_done_ok:
  assumes "entry slot = Some a" "h a = Some n" "0 < usercount (payload n)"
    "reader_has_read slot = Block fs" "length fs = unat (reader_count slot)" "i < length fs"
  shows "\<exists>ret v. slot_read_done broadcast (int i) h slot = Inr (ret, h(a := v), slot_consumed i fs slot) \<and>
     (if entry (slot_consumed i fs slot) \<noteq> NULL then v = h a else usercount (payload n) = 1 \<longrightarrow> v = None)"
proof -
  obtain v where v: "rrr_msg_holder_decref h (Some a) = Inr (h(a := v))" "usercount (payload n) = 1 \<longrightarrow> v = None"
    using decref_frame [of h a n] assms(2,3) by blast
  have cnt: "slot_done_loop (unat (reader_count slot)) 0 (Block (fs[i := 1])) 0 =
      Inr (of_nat (length (filter (\<lambda>f. f \<noteq> 0) (fs[i := 1]))))"
    using slot_done_loop_ok [of 0 "unat (reader_count slot)" "fs[i := 1]" 0] assms(5) by simp
  have all: "of_nat (length (filter (\<lambda>f. f \<noteq> 0) (fs[i := 1]))) \<ge> reader_count slot \<longleftrightarrow>
      (\<forall>j < length fs. fs[i := 1] ! j \<noteq> 0)"
    using slot_done_all [of "fs[i := 1]" "reader_count slot"] assms(5) by simp
  show ?thesis
  proof (cases "\<forall>j < length fs. fs[i := 1] ! j \<noteq> 0")
    case True
    with all have "of_nat (length (filter (\<lambda>f. f \<noteq> 0) (fs[i := 1]))) \<ge> reader_count slot" by blast
    with True assms v(1) cnt have "slot_read_done broadcast (int i) h slot =
        Inr (if broadcast \<noteq> 0 then 1 else 0, h(a := v), slot_consumed i fs slot)"
      "entry (slot_consumed i fs slot) = NULL"
      by (simp_all add: slot_read_done_def slot_consumed_def Let_def)
    with v(2) show ?thesis by auto
  next
    case False
    with all have "\<not> of_nat (length (filter (\<lambda>f. f \<noteq> 0) (fs[i := 1]))) \<ge> reader_count slot" by blast
    with False assms cnt have
      "slot_read_done broadcast (int i) h slot = Inr (if broadcast \<noteq> 0 then 1 else 0, h, slot_consumed i fs slot)"
      by (simp add: slot_read_done_def slot_consumed_def Let_def)
    moreover have "entry (slot_consumed i fs slot) = Some a"
      using False assms(1) by (simp add: slot_consumed_def Let_def)
    ultimately show ?thesis by (intro exI [of _ "if broadcast \<noteq> 0 then 1 else 0"] exI [of _ "h a"]) simp
  qed
qed

text \<open>
  A read by a reader that has not read the message yet: the clone fails and nothing changes, the
  callback does not consume the message, or it does.
\<close>

definition read_clone :: "msg_holder \<Rightarrow> msg_holder ll_node" where
  "read_clone e = fresh_node ((cloned e)\<lparr>lock_depth := 2\<rparr>)"

lemma rrr_msg_holder_slot_read_ok:
  assumes slot: "entry slot = Some a" "h a = Some n" "holder_ok (payload n)"
    and idx: "rrr_msg_holder_slot_reader_index_get_unlocked slot self = Inr (int i, slot\<lparr>readers := rs\<rparr>)"
    and flags: "reader_has_read slot = Block fs" "length fs = unat (reader_count slot)" "i < length fs"
    and env: "env_fresh env h" "reader_contract callback"
  shows "(if fs ! i \<noteq> 0 then rrr_msg_holder_slot_read env broadcast callback self h slot w = Inr (0, h, slot\<lparr>readers := rs\<rparr>, w)
     else if \<not> clone_room env (payload n) then
       rrr_msg_holder_slot_read env broadcast callback self h slot w = Inr (1, h, slot\<lparr>readers := rs\<rparr>, w)
     else \<exists>b ret keep hb w' u. b \<noteq> a \<and>
       callback (h(b \<mapsto> read_clone (payload n))) (Some b) w = Inr (ret, keep, hb, w') \<and>
       (if ret \<noteq> 0 \<or> keep
        then rrr_msg_holder_slot_read env broadcast callback self h slot w = Inr (ret, h(b := u), slot\<lparr>readers := rs\<rparr>, w')
        else \<exists>ret' v. rrr_msg_holder_slot_read env broadcast callback self h slot w =
                Inr (ret', h(b := u, a := v), slot_consumed i fs (slot\<lparr>readers := rs\<rparr>), w') \<and>
              (if entry (slot_consumed i fs (slot\<lparr>readers := rs\<rparr>)) \<noteq> NULL then v = h a
               else usercount (payload n) = 1 \<longrightarrow> v = None)))"
proof -
  let ?slot = "slot\<lparr>readers := rs\<rparr>"
  have at: "block_at (reader_has_read ?slot) i = Inr (fs ! i)" using flags by simp
  have pos: "0 < usercount (payload n)" using slot(3) by (simp add: holder_ok_def)
  let ?n = "payload_update (\<lambda>e. e\<lparr>lock_depth := lock_depth e + 1\<rparr>) n"
  have lock: "rrr_msg_holder_lock h (Some a) = Inr (h(a \<mapsto> ?n))"
    using slot(2) pos by (simp add: rrr_msg_holder_lock_def)
  have cl: "cloned (payload ?n) = cloned (payload n)" "clone_room env (payload ?n) = clone_room env (payload n)"
      "holder_ok (payload ?n)"
    using slot(3) by (simp_all add: cloned_def clone_room_def holder_ok_def)
  have fr: "env_fresh env (h(a \<mapsto> ?n))" using env(1) slot(2) by (auto simp: env_fresh_def)
  have clone: "rrr_msg_holder_util_clone_no_locking env (h(a \<mapsto> ?n)) (Some a) =
     (if clone_room env (payload n)
      then Inr (0, mem_entry env, h(a \<mapsto> ?n, the (mem_entry env) \<mapsto> fresh_node (cloned (payload n))))
      else Inr (1, NULL, h(a \<mapsto> ?n)))"
    using clone_ok [of "h(a \<mapsto> ?n)" a ?n env] cl fr by (simp add: fun_upd_same del: fun_upd_apply)
  have unlock: "rrr_msg_holder_unlock (h'(a \<mapsto> ?n)) (Some a) = Inr (h'(a \<mapsto> n))" for h'
    using pos by (cases n) (simp add: rrr_msg_holder_unlock_def)
  have ha: "h(a \<mapsto> n) = h" using slot(2) by (simp add: fun_upd_idem)
  show ?thesis
  proof (cases "fs ! i \<noteq> 0 \<or> \<not> clone_room env (payload n)")
    case True
    then show ?thesis
      using slot idx at lock clone unlock [of h] ha by (auto simp: rrr_msg_holder_slot_read_def)
  next
    case False
    then obtain b where b: "mem_entry env = Some b" "clone_room env (payload n)" "fs ! i = 0"
      by (auto simp: clone_room_def)
    then have hb: "h b = None" "b \<noteq> a" using env(1) slot(2) by (auto simp: env_fresh_def)
    have g: "\<not> fs ! i \<noteq> 0" "\<not> \<not> clone_room env (payload n)" using b by simp_all
    let ?h = "h(b \<mapsto> read_clone (payload n))"
    have dl: "rrr_msg_holder_lock_double (h(b \<mapsto> fresh_node (cloned (payload n)))) (Some b) = Inr ?h"
      by (simp add: rrr_msg_holder_lock_double_def rrr_msg_holder_lock_def cloned_def read_clone_def numeral_2_eq_2)
    have tw: "h(a \<mapsto> x, b \<mapsto> y) = h(b \<mapsto> y, a \<mapsto> x)" for x y using hb(2) by (intro fun_upd_twist) simp
    have ul: "rrr_msg_holder_unlock (h(a \<mapsto> ?n, b \<mapsto> fresh_node (cloned (payload n)))) (Some a) =
        Inr (h(b \<mapsto> fresh_node (cloned (payload n))))"
      unfolding tw unlock unfolding tw [symmetric] ha ..
    have "?h b = Some (read_clone (payload n)) \<and> usercount (payload (read_clone (payload n))) = 1 \<and>
        lock_depth (payload (read_clone (payload n))) = 2"
      by (simp add: read_clone_def cloned_def)
    from env(2) [unfolded reader_contract_def, rule_format, of ?h b, OF this, of w, unfolded fun_upd_upd] obtain ret keep nb w' where
      cb: "callback ?h (Some b) w = Inr (ret, keep, h(b \<mapsto> nb), w')" "0 < usercount (payload nb)"
      by blast
    have run: "rrr_msg_holder_slot_read env broadcast callback self h slot w =
       bindr (if ret \<noteq> 0 \<or> keep then Inr (ret, h(b \<mapsto> nb), ?slot)
              else slot_read_done broadcast (int i) (h(b \<mapsto> nb)) ?slot) (\<lambda>(ret, h, slot).
       bindr (rrr_msg_holder_decref_while_locked_and_unlock h (Some b)) (\<lambda>h. Inr (ret, h, slot, w')))"
      using slot idx at lock clone b ul dl cb(1) by (simp add: rrr_msg_holder_slot_read_def)
    show ?thesis
    proof (cases "ret \<noteq> 0 \<or> keep")
      case True
      obtain u where "rrr_msg_holder_decref_while_locked_and_unlock (h(b \<mapsto> nb)) (Some b) = Inr (h(b := u))"
        using decref_locked_frame [of "h(b \<mapsto> nb)" b nb] cb(2) by auto
      then have "rrr_msg_holder_slot_read env broadcast callback self h slot w = Inr (ret, h(b := u), ?slot, w')"
        unfolding run if_P [OF True] by simp
      then show ?thesis
        unfolding if_not_P [OF g(1)] if_not_P [OF g(2)]
        by (intro exI [of _ b] exI [of _ ret] exI [of _ keep] exI [of _ "h(b \<mapsto> nb)"] exI [of _ w'] exI [of _ u]
            conjI hb(2) cb(1)) (simp only: True if_True)
    next
      case consumed: False
      obtain ret' v where d: "slot_read_done broadcast (int i) (h(b \<mapsto> nb)) ?slot =
          Inr (ret', h(b \<mapsto> nb, a := v), slot_consumed i fs ?slot)"
          "if entry (slot_consumed i fs ?slot) \<noteq> NULL then v = h a else usercount (payload n) = 1 \<longrightarrow> v = None"
        using slot_read_done_ok [of ?slot a "h(b \<mapsto> nb)" n fs i broadcast] slot pos flags hb(2) by auto
      have "(h(b \<mapsto> nb, a := v)) b = Some nb" using hb(2) by simp
      from decref_locked_frame [of "h(b \<mapsto> nb, a := v)" b nb, OF this cb(2)]
      obtain u where "rrr_msg_holder_decref_while_locked_and_unlock (h(b \<mapsto> nb, a := v)) (Some b) =
          Inr (h(b \<mapsto> nb, a := v, b := u))" by blast
      moreover have "h(b \<mapsto> nb, a := v, b := u) = h(b := u, a := v)" using hb(2) by (auto simp: fun_eq_iff)
      ultimately have "rrr_msg_holder_slot_read env broadcast callback self h slot w =
          Inr (ret', h(b := u, a := v), slot_consumed i fs ?slot, w')"
        unfolding run if_not_P [OF consumed] d(1) by simp
      with d(2) show ?thesis
        unfolding if_not_P [OF g(1)] if_not_P [OF g(2)]
        by (intro exI [of _ b] exI [of _ ret] exI [of _ keep] exI [of _ "h(b \<mapsto> nb)"] exI [of _ w'] exI [of _ u]
            conjI hb(2) cb(1)) (use consumed in \<open>simp only: if_False, blast\<close>)
    qed
  qed
qed

subsection \<open>Delivery\<close>

text \<open>A callback that also notes, for reader \<open>r\<close>, each message it consumes.\<close>

type_synonym delivery_log = "addr \<Rightarrow> u8 list list"

definition logging :: "addr \<Rightarrow> 's slot_callback \<Rightarrow> (delivery_log \<times> 's) slot_callback" where
  "logging r callback h e lw =
     bindr (load h e) (\<lambda>n.
     bindr (callback h e (snd lw)) (\<lambda>(ret, keep, h, w).
     Inr (ret, keep, h, if ret = 0 \<and> \<not> keep \<and> message (payload n) \<noteq> None
                        then (fst lw)(r := fst lw r @ [the (message (payload n))]) else fst lw, w)))"

lemma logging_contract:
  assumes "reader_contract callback"
  shows "reader_contract (logging r callback)"
  unfolding reader_contract_def
proof (intro allI impI)
  fix h :: holder_heap and b n and lw :: "delivery_log \<times> 'a"
  assume n: "h b = Some n \<and> usercount (payload n) = 1 \<and> lock_depth (payload n) = 2"
  from assms [unfolded reader_contract_def, rule_format, of h b, OF n, of "snd lw"] obtain ret keep n' w'
    where "callback h (Some b) (snd lw) = Inr (ret, keep, h(b \<mapsto> n'), w')" "0 < usercount (payload n')" by blast
  with n show "\<exists>ret keep n' w'. logging r callback h (Some b) lw = Inr (ret, keep, h(b \<mapsto> n'), w') \<and>
      0 < usercount (payload n')"
    by (auto simp: logging_def)
qed

text \<open>
  A run of the slot with a fixed number of readers: a reader reads, with any callback that keeps the
  contract; a writer whose wait is over writes a message; the other threads change memory that the
  slot does not refer to. The last component holds the messages written so far.
\<close>

inductive slot_step :: "holder_heap \<times> msg_holder_slot \<times> (delivery_log \<times> 's) \<times> u8 list list \<Rightarrow>
    holder_heap \<times> msg_holder_slot \<times> (delivery_log \<times> 's) \<times> u8 list list \<Rightarrow> bool" where
  step_read: "reader_contract callback \<Longrightarrow> env_fresh env h \<Longrightarrow>
     rrr_msg_holder_slot_read env broadcast (logging r callback) (Some r) h slot lw = Inr (ret, h', slot', lw') \<Longrightarrow>
     slot_step (h, slot, lw, written) (h', slot', lw', written)"
| step_write: "h a = Some n \<Longrightarrow> holder_ok (payload n) \<Longrightarrow> message (payload n) = Some m \<Longrightarrow>
     rrr_msg_holder_slot_write_entry [] broadcast (Some a) h slot = Inr (ret, h', slot') \<Longrightarrow>
     slot_step (h, slot, lw, written) (h', slot', lw, written @ [m])"
| step_others: "\<forall>a. entry slot = Some a \<longrightarrow> h' a = h a \<Longrightarrow> slot_step (h, slot, lw, written) (h', slot, lw, written)"

definition slot_readers :: "rrr_length \<Rightarrow> addr list \<Rightarrow> u8 list \<Rightarrow> msg_holder_slot \<Rightarrow> bool" where
  "slot_readers count ids fs slot \<longleftrightarrow> reader_count slot = count \<and> 0 < count \<and> length ids \<le> unat count \<and> distinct ids \<and>
     readers slot = Block (map Some ids @ replicate (unat count - length ids) NULL) \<and>
     reader_has_read slot = Block fs \<and> length fs = unat count"

text \<open>A full slot: \<open>old\<close> are the messages before the one in the slot.\<close>

definition slot_pending :: "addr list \<Rightarrow> u8 list \<Rightarrow> delivery_log \<Rightarrow> u8 list list \<Rightarrow> u8 list \<Rightarrow> bool" where
  "slot_pending ids fs log old m \<longleftrightarrow>
     (\<forall>i < length ids. log (ids ! i) = (if fs ! i = 0 then old else old @ [m])) \<and>
     (\<forall>i < length fs. length ids \<le> i \<longrightarrow> fs ! i = 0) \<and>
     (length ids < length fs \<longrightarrow> old = []) \<and> (\<exists>i < length fs. fs ! i = 0)"

definition slot_inv :: "rrr_length \<Rightarrow> holder_heap \<times> msg_holder_slot \<times> (delivery_log \<times> 's) \<times> u8 list list \<Rightarrow> bool" where
  "slot_inv count st \<longleftrightarrow> (case st of (h, slot, (log, w), written) \<Rightarrow>
     \<exists>ids fs. slot_readers count ids fs slot \<and> (\<forall>r. r \<notin> set ids \<longrightarrow> log r = []) \<and>
       (case entry slot of
          None \<Rightarrow> (\<forall>r \<in> set ids. log r = written) \<and> (length ids < unat count \<longrightarrow> written = [])
        | Some a \<Rightarrow> \<exists>n m old. h a = Some n \<and> holder_ok (payload n) \<and> message (payload n) = Some m \<and>
            written = old @ [m] \<and> slot_pending ids fs log old m))"

lemma slot_inv_iff:
  "slot_inv count (h, slot, (log, w), written) \<longleftrightarrow>
   (\<exists>ids fs. slot_readers count ids fs slot \<and> (\<forall>r. r \<notin> set ids \<longrightarrow> log r = []) \<and>
      (entry slot = NULL \<longrightarrow> (\<forall>r \<in> set ids. log r = written) \<and> (length ids < unat count \<longrightarrow> written = [])) \<and>
      (\<forall>a. entry slot = Some a \<longrightarrow> (\<exists>n m old. h a = Some n \<and> holder_ok (payload n) \<and> message (payload n) = Some m \<and>
         written = old @ [m] \<and> slot_pending ids fs log old m)))"
  by (cases "entry slot") (simp_all add: slot_inv_def)

lemma slot_reader_index:
  assumes "slot_readers count ids fs slot" "rrr_msg_holder_slot_reader_index_get_unlocked slot (Some r) = Inr (k, slot1)"
  shows "\<exists>i ids'. k = int i \<and> i < length ids' \<and> ids' ! i = r \<and> ids' = (if r \<in> set ids then ids else ids @ [r]) \<and>
     (\<exists>rs. slot1 = slot\<lparr>readers := rs\<rparr>) \<and> slot_readers count ids' fs slot1"
proof -
  let ?rs = "map Some ids @ replicate (unat count - length ids) NULL"
  have s: "reader_count slot = count" "0 < count" "length ids \<le> unat count" "distinct ids" "readers slot = Block ?rs"
    using assms(1) by (simp_all add: slot_readers_def)
  have run: "rrr_msg_holder_slot_reader_index_get_unlocked slot (Some r) =
      bindr (reader_index_loop (length ?rs - 0) 0 (Block ?rs) (Some r)) (\<lambda>(j, rs). Inr (j, slot\<lparr>readers := rs\<rparr>))"
    using s by (simp add: rrr_msg_holder_slot_reader_index_get_unlocked_def)
  show ?thesis
  proof (cases "r \<in> set ids")
    case True
    then obtain i where i: "i < length ids" "ids ! i = r" by (auto simp: in_set_conv_nth)
    have "\<forall>l < i. ?rs ! l \<noteq> Some r \<and> ?rs ! l \<noteq> NULL"
      using i s(4) by (auto simp: nth_append nth_eq_iff_index_eq)
    with i have "reader_index_loop (length ?rs - 0) 0 (Block ?rs) (Some r) = Inr (int i, Block (?rs[i := Some r]))"
      by (intro reader_index_loop_ok) (simp_all add: nth_append)
    moreover have "?rs[i := Some r] = ?rs"
      using i list_update_id [of ids i] by (simp add: list_update_append map_update [symmetric])
    ultimately show ?thesis using run assms i True s(5) by (auto simp: slot_readers_def)
  next
    case new: False
    show ?thesis
    proof (cases "length ids < unat count")
      case True
      let ?i = "length ids"
      have "\<forall>l < ?i. ?rs ! l \<noteq> Some r \<and> ?rs ! l \<noteq> NULL"
        using new by (auto simp: nth_append)
      with True have "reader_index_loop (length ?rs - 0) 0 (Block ?rs) (Some r) = Inr (int ?i, Block (?rs[?i := Some r]))"
        by (intro reader_index_loop_ok) (simp_all add: nth_append)
      moreover have "?rs[?i := Some r] = map Some (ids @ [r]) @ replicate (unat count - length (ids @ [r])) NULL"
        using True by (cases "unat count - length ids") (simp_all add: list_update_append)
      ultimately show ?thesis
        using run assms new True by (auto simp: slot_readers_def intro!: exI [of _ ?i])
    next
      case False
      have "reader_index_loop k i (Block (map Some ids)) (Some r) = Inl Bug" if "i + k = length ids" for k i
        using that new
      proof (induction k arbitrary: i)
        case (Suc k)
        then have "ids ! i \<noteq> r" by (metis add_Suc_right le_add1 le_imp_less_Suc nth_mem)
        with Suc show ?case by simp
      qed simp
      from this [of 0 "length ids"] False s have "rrr_msg_holder_slot_reader_index_get_unlocked slot (Some r) = Inl Bug"
        unfolding run by simp
      with assms(2) show ?thesis by simp
    qed
  qed
qed

lemma slot_pending_register:
  "slot_pending ids fs log old m \<Longrightarrow> log r = [] \<Longrightarrow> length ids < length fs \<Longrightarrow> slot_pending (ids @ [r]) fs log old m"
  by (auto simp: slot_pending_def nth_append less_Suc_eq)

lemma slot_pending_consume:
  assumes "slot_pending ids fs log old m" "distinct ids" "length ids \<le> length fs" "i < length ids" "fs ! i = 0"
  defines "log' \<equiv> log(ids ! i := log (ids ! i) @ [m])"
  shows "if \<forall>j < length fs. fs[i := 1] ! j \<noteq> 0
         then length ids = length fs \<and> (\<forall>r \<in> set ids. log' r = old @ [m])
         else slot_pending ids (fs[i := 1]) log' old m"
proof -
  have p: "\<forall>j < length ids. log (ids ! j) = (if fs ! j = 0 then old else old @ [m])"
    "\<forall>j < length fs. length ids \<le> j \<longrightarrow> fs ! j = 0" "length ids < length fs \<longrightarrow> old = []"
    using assms(1) by (simp_all add: slot_pending_def)
  have l: "log' (ids ! j) = (if fs[i := 1] ! j = 0 then old else old @ [m])" if "j < length ids" for j
  proof (cases "j = i")
    case True
    with p(1) assms(3-5) show ?thesis by (simp add: log'_def)
  next
    case False
    with that assms(2,4) have "ids ! j \<noteq> ids ! i" by (simp add: nth_eq_iff_index_eq)
    with False that p(1) show ?thesis by (simp add: log'_def)
  qed
  show ?thesis
  proof (cases "\<forall>j < length fs. fs[i := 1] ! j \<noteq> 0")
    case True
    have "\<not> length ids < length fs"
      using p(2) True assms(4) by (metis le_refl less_irrefl nth_list_update_neq)
    with True l assms(3) show ?thesis by (auto simp: in_set_conv_nth)
  next
    case False
    then have "\<exists>j < length (fs[i := 1]). fs[i := 1] ! j = 0" by auto
    moreover have "\<forall>j < length (fs[i := 1]). length ids \<le> j \<longrightarrow> fs[i := 1] ! j = 0"
      using p(2) assms(4) by simp
    ultimately have "slot_pending ids (fs[i := 1]) log' old m" using l p(3) by (simp add: slot_pending_def)
    then show ?thesis unfolding if_not_P [OF False] .
  qed
qed

lemma slot_reset_loop_ok:
  "i + k = length fs \<Longrightarrow> slot_reset_loop k i (Block fs) = Inr (Block (take i fs @ replicate k 0))"
proof (induction k arbitrary: i fs)
  case (Suc k)
  then have "take (Suc i) (fs[i := 0]) = take i fs @ [0]" by (simp add: take_Suc_conv_app_nth)
  with Suc.prems Suc.IH [of "i + 1" "fs[i := 0]"] show ?case by (simp add: replicate_app_Cons_same)
qed simp

lemma slot_write_entry_ok:
  assumes "slot_readers count ids fs slot" "rrr_msg_holder_slot_write_entry [] broadcast (Some a) h slot = Inr (ret, h', slot')"
  shows "entry slot = NULL \<and> h' = h \<and> entry slot' = Some a \<and> slot_readers count ids (replicate (unat count) 0) slot'"
proof -
  have "slot_reset_loop (unat (reader_count slot)) 0 (reader_has_read slot) = Inr (Block (replicate (unat count) 0))"
    using assms(1) slot_reset_loop_ok [of 0 "unat count" fs] by (simp add: slot_readers_def)
  with assms show ?thesis
    by (auto simp: rrr_msg_holder_slot_write_entry_def slot_write_and_reset_def slot_readers_def split: if_splits)
qed

lemma slot_inv_write:
  assumes "slot_inv count (h, slot, lw, written)" "h a = Some n" "holder_ok (payload n)" "message (payload n) = Some m"
    "rrr_msg_holder_slot_write_entry [] broadcast (Some a) h slot = Inr (ret, h', slot')"
  shows "slot_inv count (h', slot', lw, written @ [m])"
proof -
  obtain log w where lw: "lw = (log, w)" by fastforce
  from assms(1) obtain ids fs where i: "slot_readers count ids fs slot" "\<forall>r. r \<notin> set ids \<longrightarrow> log r = []"
      "entry slot = NULL \<longrightarrow> (\<forall>r \<in> set ids. log r = written) \<and> (length ids < unat count \<longrightarrow> written = [])"
    unfolding lw slot_inv_iff by iprover
  from slot_write_entry_ok [OF i(1) assms(5)]
  have w: "entry slot = NULL" "h' = h" "entry slot' = Some a" "slot_readers count ids (replicate (unat count) 0) slot'"
    by simp_all
  moreover have "slot_pending ids (replicate (unat count) 0) log written m"
    using i w(1,4) by (auto simp: slot_pending_def slot_readers_def word_less_nat_alt)
  ultimately show ?thesis using i(2) assms(2-4) unfolding lw slot_inv_iff by auto
qed

lemma slot_inv_others:
  "slot_inv count (h, slot, lw, written) \<Longrightarrow> \<forall>a. entry slot = Some a \<longrightarrow> h' a = h a \<Longrightarrow>
   slot_inv count (h', slot, lw, written)"
  by (cases lw) (auto simp: slot_inv_iff)

lemma slot_consumed_readers:
  "slot_readers count ids fs slot \<Longrightarrow> slot_readers count ids (fs[i := 1]) (slot_consumed i fs slot)"
  "entry (slot_consumed i fs slot) = (if \<forall>j < length fs. fs[i := 1] ! j \<noteq> 0 then NULL else entry slot)"
  by (auto simp: slot_readers_def slot_consumed_def Let_def)

text \<open>A read of a full slot, as the invariant sees it: nothing is consumed, or reader \<open>r\<close> consumes the message.\<close>

lemma slot_read_cases:
  assumes "slot_readers count ids fs slot" "entry slot = Some a" "h a = Some n" "holder_ok (payload n)"
    "message (payload n) = Some m" "reader_contract callback" "env_fresh env h"
    "rrr_msg_holder_slot_read env broadcast (logging r callback) (Some r) h slot (log, w) = Inr (ret, h', slot', log', w')"
  obtains i ids' where "ids' = (if r \<in> set ids then ids else ids @ [r])" "i < length ids'" "ids' ! i = r"
      "slot_readers count ids' fs slot'" "entry slot' = Some a" "h' a = Some n" "log' = log"
    | i ids' where "ids' = (if r \<in> set ids then ids else ids @ [r])" "i < length ids'" "ids' ! i = r" "fs ! i = 0"
      "slot_readers count ids' (fs[i := 1]) slot'" "log' = log(r := log r @ [m])"
      "entry slot' = (if \<forall>j < length fs. fs[i := 1] ! j \<noteq> 0 then NULL else Some a)" "entry slot' \<noteq> NULL \<longrightarrow> h' a = Some n"
proof -
  let ?read = "rrr_msg_holder_slot_read env broadcast (logging r callback) (Some r) h slot (log, w)"
  obtain k slot1 where idx: "rrr_msg_holder_slot_reader_index_get_unlocked slot (Some r) = Inr (k, slot1)"
    using assms(2,8) by (auto simp: rrr_msg_holder_slot_read_def bindr_eq_Inr)
  from slot_reader_index [OF assms(1) idx] obtain i ids' rs where
    k: "k = int i" "i < length ids'" "ids' ! i = r" "ids' = (if r \<in> set ids then ids else ids @ [r])"
      "slot1 = slot\<lparr>readers := rs\<rparr>" "slot_readers count ids' fs slot1" by blast
  have fs: "reader_has_read slot = Block fs" "length fs = unat (reader_count slot)" "length ids' \<le> length fs"
    using assms(1) k(6) by (simp_all add: slot_readers_def)
  have e1: "entry slot1 = Some a" using assms(2) k(5) by simp
  note R = rrr_msg_holder_slot_read_ok [where callback = "logging r callback" and self = "Some r" and w = "(log, w)"
      and broadcast = broadcast, OF assms(2-4) idx [unfolded k(1,5)] fs(1,2) less_le_trans [OF k(2) fs(3)] assms(7)
      logging_contract [OF assms(6)], folded k(5)]
  show ?thesis
  proof (cases "fs ! i \<noteq> 0 \<or> \<not> clone_room env (payload n)")
    case True
    with R assms(8) have "h' = h" "slot' = slot1" "log' = log" by (auto split: if_splits)
    with that(1) k e1 assms(3) show ?thesis by blast
  next
    case False
    then have g: "\<not> fs ! i \<noteq> 0" "\<not> \<not> clone_room env (payload n)" by blast+
    from R [unfolded if_not_P [OF g(1)] if_not_P [OF g(2)]] obtain b ret1 keep hb lw u where b: "b \<noteq> a"
      "logging r callback (h(b \<mapsto> read_clone (payload n))) (Some b) (log, w) = Inr (ret1, keep, hb, lw)"
      "if ret1 \<noteq> 0 \<or> keep then ?read = Inr (ret1, h(b := u), slot1, lw)
       else \<exists>ret' v. ?read = Inr (ret', h(b := u, a := v), slot_consumed i fs slot1, lw) \<and>
              (if entry (slot_consumed i fs slot1) \<noteq> NULL then v = h a else usercount (payload n) = 1 \<longrightarrow> v = None)"
      by iprover
    have "message (payload (read_clone (payload n))) = Some m" by (simp add: read_clone_def cloned_def assms(5))
    with b(2) have l: "fst lw = (if ret1 = 0 \<and> \<not> keep then log(r := log r @ [m]) else log)"
      by (auto simp: logging_def bindr_eq_Inr)
    show ?thesis
    proof (cases "ret1 \<noteq> 0 \<or> keep")
      case True
      with b l assms(8) have "h' = h(b := u)" "slot' = slot1" "log' = log" by auto
      with that(1) k e1 assms(3) b(1) show ?thesis by simp
    next
      case consumed: False
      with b(3) assms(8) obtain v where v: "h' = h(b := u, a := v)" "slot' = slot_consumed i fs slot1" "(log', w') = lw"
        "entry (slot_consumed i fs slot1) \<noteq> NULL \<longrightarrow> v = h a" by auto
      have "log' = log(r := log r @ [m])" using l v(3) consumed by auto
      moreover have "entry slot' \<noteq> NULL \<longrightarrow> h' a = Some n" using v assms(3) by simp
      moreover have "slot_readers count ids' (fs[i := 1]) slot'"
        unfolding v(2) by (rule slot_consumed_readers(1) [OF k(6)])
      moreover have "entry slot' = (if \<forall>j < length fs. fs[i := 1] ! j \<noteq> 0 then NULL else Some a)"
        unfolding v(2) slot_consumed_readers(2) e1 ..
      ultimately show ?thesis using that(2) [OF k(4,2,3)] g(1) by blast
    qed
  qed
qed

lemma slot_inv_read:
  assumes "slot_inv count (h, slot, (log, w), written)" "reader_contract callback" "env_fresh env h"
    "rrr_msg_holder_slot_read env broadcast (logging r callback) (Some r) h slot (log, w) = Inr (ret, h', slot', log', w')"
  shows "slot_inv count (h', slot', (log', w'), written)"
proof (cases "entry slot")
  case None
  with assms(4) have "(h', slot', log', w') = (h, slot, log, w)" by (simp add: rrr_msg_holder_slot_read_def)
  with assms(1) show ?thesis by simp
next
  case (Some a)
  with assms(1) obtain ids fs n m old where i: "slot_readers count ids fs slot" "\<forall>r. r \<notin> set ids \<longrightarrow> log r = []"
      "h a = Some n" "holder_ok (payload n)" "message (payload n) = Some m" "written = old @ [m]" "slot_pending ids fs log old m"
    unfolding slot_inv_iff by blast
  let ?ids = "if r \<in> set ids then ids else ids @ [r]"
  have reg: "slot_pending ?ids fs log old m \<and> (\<forall>r. r \<notin> set ?ids \<longrightarrow> log r = [])" if "length ?ids \<le> length fs"
    using i(2,7) slot_pending_register [OF i(7), of r] that by auto
  from i(1) Some i(3-5) assms(2-4) show ?thesis
  proof (cases rule: slot_read_cases)
    case (1 j ids')
    then have "length ids' \<le> length fs" by (simp add: slot_readers_def)
    with 1 reg i show ?thesis unfolding slot_inv_iff by auto
  next
    case (2 j ids')
    then have l: "length ids' \<le> length fs" "distinct ids'" "length fs = unat count" by (simp_all add: slot_readers_def)
    have p: "slot_pending ids' fs log old m" "\<forall>r. r \<notin> set ids' \<longrightarrow> log' r = []"
      using reg l(1) 2(1,2,3,6) nth_mem [of j ids'] by auto
    note c = slot_pending_consume [OF p(1) l(2,1) 2(2,4), unfolded 2(3), folded 2(6)]
    show ?thesis
    proof (cases "entry slot'")
      case None
      with 2(7) c have "length ids' = length fs" "\<forall>r \<in> set ids'. log' r = written" by (auto simp: i(6) split: if_splits)
      with None 2(5) p(2) l(3) show ?thesis unfolding slot_inv_iff by auto
    next
      case full: (Some a')
      with 2(7) have "a' = a" "\<not> (\<forall>j' < length fs. fs[j := 1] ! j' \<noteq> 0)" by (auto split: if_splits)
      with c 2(5,8) full i(4-6) p(2) show ?thesis unfolding slot_inv_iff by (auto simp: if_not_P)
    qed
  qed
qed

definition slot_start :: "rrr_length \<Rightarrow> holder_heap \<times> msg_holder_slot \<times> (delivery_log \<times> 's) \<times> u8 list list \<Rightarrow> bool" where
  "slot_start count st \<longleftrightarrow> (case st of (h, slot, (log, w), written) \<Rightarrow>
     (\<exists>fs. slot_readers count [] fs slot) \<and> entry slot = NULL \<and> (\<forall>r. log r = []) \<and> written = [])"

lemma slot_inv_start: "slot_start count st \<Longrightarrow> slot_inv count st"
  by (force simp: slot_inv_def slot_start_def)

lemma slot_inv_step:
  assumes "slot_inv count x" "slot_step x y"
  shows "slot_inv count y"
  using assms(2,1)
proof cases
  case (step_read callback env h broadcast r slot lw ret h' slot' lw' written)
  obtain log w log' w' where "lw = (log, w)" "lw' = (log', w')" by (cases lw; cases lw')
  with step_read assms(1) show ?thesis by (simp add: slot_inv_read)
next
  case (step_write h a n m broadcast slot ret h' slot' lw written)
  with assms(1) show ?thesis by (simp add: slot_inv_write)
next
  case (step_others slot h' h lw written)
  with assms(1) show ?thesis by (simp add: slot_inv_others)
qed

interpretation delivery: inv_system "slot_start count" slot_step "slot_inv count" for count
  by unfold_locales (fact slot_inv_start slot_inv_step)+

lemma discard_contract: "reader_contract rrr_msg_holder_slot_discard_callback"
  unfolding reader_contract_def
proof (intro allI impI)
  fix h :: holder_heap and b n and w :: bool
  assume n: "h b = Some n \<and> usercount (payload n) = 1 \<and> lock_depth (payload n) = 2"
  then show "\<exists>ret keep n' w'. rrr_msg_holder_slot_discard_callback h (Some b) w = Inr (ret, keep, h(b \<mapsto> n'), w') \<and>
      0 < usercount (payload n')"
    by (intro exI [of _ 0] exI [of _ False] exI [of _ "payload_update (\<lambda>e. e\<lparr>lock_depth := lock_depth e - 1\<rparr>) n"]
        exI [of _ True]) (simp add: rrr_msg_holder_slot_discard_callback_def rrr_msg_holder_unlock_def)
qed

subsection \<open>Properties\<close>

text \<open>
  Claim C7: a slot delivers to each reader exactly the messages written, in order. After any run of
  reads, writes and changes to other memory, starting from a new slot with \<open>count\<close> readers, a reader
  that is registered has consumed all messages written, or all but the one still in the slot; a
  reader that is not registered has consumed none; and a message leaves the slot only when all
  \<open>count\<close> readers are registered and have consumed it.
\<close>

theorem slot_delivers_in_order:
  assumes "rrr_msg_holder_slot_new True 0 0 = (0, Some slot0)" "0 < count"
    "rrr_msg_holder_slot_reader_count_set True True slot0 count = Inr (0, slot1)"
    "slot_step\<^sup>*\<^sup>* (h0, slot1, (\<lambda>_. [], w0), []) (h, slot, (log, w), written)"
  shows "\<exists>ids. distinct ids \<and> readers slot = Block (map Some ids @ replicate (unat count - length ids) NULL) \<and>
     (\<forall>r \<in> set ids. log r = written \<or> entry slot \<noteq> NULL \<and> written \<noteq> [] \<and> log r = butlast written) \<and>
     (\<forall>r. r \<notin> set ids \<longrightarrow> log r = []) \<and>
     (entry slot = NULL \<and> written \<noteq> [] \<longrightarrow> length ids = unat count \<and> (\<forall>r \<in> set ids. log r = written))"
proof -
  have "slot_start count (h0, slot1, (\<lambda>_. [], w0), [])"
    using assms(1-3)
    by (auto simp: slot_start_def slot_readers_def rrr_msg_holder_slot_new_def RRR_FREE_IF_NOT_NULL_def Let_def
        rrr_msg_holder_slot_reader_count_set_def)
  from delivery.inv_reachable [OF assms(4) this] obtain ids fs where
    i: "slot_readers count ids fs slot" "\<forall>r. r \<notin> set ids \<longrightarrow> log r = []"
      "entry slot = NULL \<longrightarrow> (\<forall>r \<in> set ids. log r = written) \<and> (length ids < unat count \<longrightarrow> written = [])"
      "\<forall>a. entry slot = Some a \<longrightarrow> (\<exists>m old. written = old @ [m] \<and> slot_pending ids fs log old m)"
    unfolding slot_inv_iff by iprover
  have "log r = written \<or> entry slot \<noteq> NULL \<and> written \<noteq> [] \<and> log r = butlast written" if r: "r \<in> set ids" for r
  proof (cases "entry slot")
    case None
    with i(3) r show ?thesis by simp
  next
    case (Some a)
    with i(4) obtain m old where "written = old @ [m]" "slot_pending ids fs log old m" by blast
    with Some r show ?thesis by (auto simp: slot_pending_def in_set_conv_nth)
  qed
  with i(1-3) show ?thesis by (intro exI [of _ ids]) (auto simp: slot_readers_def)
qed

definition demo_msg :: "u8 list" where "demo_msg = replicate 30 7"

definition demo_holder :: "msg_holder ll_node" where
  "demo_holder = fresh_node \<lparr>lock_depth = 0, usercount = 1, data_length = 30, addr = zero_addr, addr_len = 0,
     protocol = 0, message = Some demo_msg, buffer_time = 0, nexthops = [], send_time = 0, send_index = 0,
     private_data = NULL\<rparr>"

definition demo_env :: "addr \<Rightarrow> clone_env" where
  "demo_env b = \<lparr>mem_message = True, mem_entry = Some b, mem_lock = 0, mem_hops = 5\<rparr>"

definition demo_slot :: "ptr \<Rightarrow> ptr list \<Rightarrow> u8 list \<Rightarrow> u64 \<Rightarrow> u64 \<Rightarrow> msg_holder_slot" where
  "demo_slot e rs fs d n = \<lparr>entry = e, reader_count = 1, readers = Block rs, reader_has_read = Block fs,
     total_entries_deleted = d, total_entries_written = n\<rparr>"

lemma demo_holder_ok: "holder_ok (payload demo_holder)" "message (payload demo_holder) = Some demo_msg"
  by (simp_all add: holder_ok_def demo_holder_def demo_msg_def msg_msg_head_size_def sockaddr_storage_size_def)

lemma demo_slot_write:
  "rrr_msg_holder_slot_write_entry [] 0 (Some 1) h (demo_slot NULL [NULL] [0] 0 0) =
   Inr (0, h, demo_slot (Some 1) [NULL] [0] 0 1)"
  by (simp add: rrr_msg_holder_slot_write_entry_def slot_write_and_reset_def demo_slot_def)

lemma demo_slot_read:
  "rrr_msg_holder_slot_read (demo_env 2) 0 (logging 5 rrr_msg_holder_slot_discard_callback) (Some 5) [1 \<mapsto> demo_holder]
     (demo_slot (Some 1) [NULL] [0] 0 1) (\<lambda>_. [], False) =
   Inr (0, Map.empty, demo_slot NULL [Some 5] [1] 1 1, (\<lambda>_. [])(5 := [demo_msg]), True)"
proof -
  have c: "rrr_msg_holder_util_clone_no_locking (demo_env 2)
      [1 \<mapsto> payload_update (\<lambda>e. e\<lparr>lock_depth := 1\<rparr>) demo_holder] (Some 1) =
    Inr (0, Some 2, [1 \<mapsto> payload_update (\<lambda>e. e\<lparr>lock_depth := 1\<rparr>) demo_holder, 2 \<mapsto> demo_holder])"
    using clone_ok [of "[1 \<mapsto> payload_update (\<lambda>e. e\<lparr>lock_depth := 1\<rparr>) demo_holder]" 1
        "payload_update (\<lambda>e. e\<lparr>lock_depth := 1\<rparr>) demo_holder" "demo_env 2"] demo_holder_ok
    by (simp add: holder_ok_def env_fresh_def demo_env_def clone_room_def demo_holder_def cloned_def)
  show ?thesis
    using c
    by (simp add: rrr_msg_holder_slot_read_def demo_slot_def rrr_msg_holder_slot_reader_index_get_unlocked_def
        rrr_msg_holder_lock_def rrr_msg_holder_unlock_def rrr_msg_holder_lock_double_def logging_def demo_holder_def
        rrr_msg_holder_slot_discard_callback_def slot_read_done_def rrr_msg_holder_decref_def
        rrr_msg_holder_decref_while_locked_and_unlock_def fun_upd_twist)
qed

theorem slot_delivers_in_order_witness:
  "\<exists>log :: delivery_log. log 5 = [demo_msg] \<and> (\<exists>ids. distinct ids \<and>
     readers (demo_slot NULL [Some 5] [1] 1 1) = Block (map Some ids @ replicate (1 - length ids) NULL) \<and>
     length ids = 1 \<and> (\<forall>r \<in> set ids. log r = [demo_msg]))"
proof -
  let ?s0 = "\<lparr>entry = NULL, reader_count = 0, readers = Null, reader_has_read = Null,
                     total_entries_deleted = 0, total_entries_written = 0\<rparr>"
  let ?h = "[1 \<mapsto> demo_holder]"
  have "slot_step (?h, demo_slot NULL [NULL] [0] 0 0, (\<lambda>_. [], False), [])
      (?h, demo_slot (Some 1) [NULL] [0] 0 1, (\<lambda>_. [], False), [] @ [demo_msg])"
    by (rule step_write [where a = 1 and n = demo_holder, OF _ demo_holder_ok demo_slot_write]) simp
  moreover have "slot_step (?h, demo_slot (Some 1) [NULL] [0] 0 1, (\<lambda>_. [], False), [demo_msg])
      (Map.empty, demo_slot NULL [Some 5] [1] 1 1, ((\<lambda>_. [])(5 := [demo_msg]), True), [demo_msg])"
    by (rule step_read [OF discard_contract _ demo_slot_read]) (simp add: env_fresh_def demo_env_def)
  ultimately have r: "slot_step\<^sup>*\<^sup>* (?h, demo_slot NULL [NULL] [0] 0 0, (\<lambda>_. [], False), [])
      (Map.empty, demo_slot NULL [Some 5] [1] 1 1, ((\<lambda>_. [])(5 := [demo_msg]), True), [demo_msg])"
    by (metis (no_types) append_Nil rtranclp.simps)
  have n: "rrr_msg_holder_slot_new True 0 0 = (0, Some ?s0)" by (simp add: rrr_msg_holder_slot_new_def)
  have c: "rrr_msg_holder_slot_reader_count_set True True ?s0 1 = Inr (0, demo_slot NULL [NULL] [0] 0 0)"
    by (simp add: rrr_msg_holder_slot_reader_count_set_def RRR_FREE_IF_NOT_NULL_def demo_slot_def Let_def)
  have "entry (demo_slot NULL [Some 5] [1] 1 1) = NULL" by (simp add: demo_slot_def)
  moreover have "(0 :: rrr_length) < 1" by simp
  ultimately obtain ids where "distinct ids"
      "readers (demo_slot NULL [Some 5] [1] 1 1) = Block (map Some ids @ replicate (unat (1 :: rrr_length) - length ids) NULL)"
      "length ids = unat (1 :: rrr_length)" "\<forall>r \<in> set ids. ((\<lambda>_. [])(5 := [demo_msg])) r = [demo_msg]"
    using slot_delivers_in_order [OF n _ c r] by blast
  then show ?thesis by (intro exI [of _ "(\<lambda>_. [])(5 := [demo_msg])"] conjI exI [of _ ids]) simp_all
qed

text \<open>
  Claim C29: a clone of a holder is a new holder with one reference and the same message, address,
  protocol, times and next hops; the send index and the private data are not copied. Without the
  memory for any part of it the call returns 1 and the heap is as before.
\<close>

theorem holder_clone_exact:
  assumes "h a = Some n" "holder_ok (payload n)" "env_fresh env h"
  shows "rrr_msg_holder_util_clone_no_locking env h (Some a) =
     (if clone_room env (payload n)
      then Inr (0, mem_entry env, h(the (mem_entry env) \<mapsto> fresh_node \<lparr>lock_depth = 0, usercount = 1,
        data_length = data_length (payload n),
        addr = take (unat (addr_len (payload n))) (addr (payload n)) @ drop (unat (addr_len (payload n))) zero_addr,
        addr_len = addr_len (payload n), protocol = protocol (payload n), message = message (payload n),
        buffer_time = buffer_time (payload n), nexthops = nexthops (payload n), send_time = send_time (payload n),
        send_index = 0, private_data = NULL\<rparr>))
      else Inr (1, NULL, h))"
  using clone_ok [of h a n env] assms by (simp add: cloned_def)

theorem holder_clone_exact_witness:
  "rrr_msg_holder_util_clone_no_locking (demo_env 2) [1 \<mapsto> demo_holder] (Some 1) =
   Inr (0, Some 2, [1 \<mapsto> demo_holder, 2 \<mapsto> demo_holder])"
  using holder_clone_exact [of "[1 \<mapsto> demo_holder]" 1 demo_holder "demo_env 2"] demo_holder_ok
  by (simp add: env_fresh_def demo_env_def clone_room_def demo_holder_def)

definition wake_regular :: "slot_wake \<Rightarrow> bool" where
  "wake_regular wake \<longleftrightarrow> (wait_result wake = 0 \<or> wait_result wake = ETIMEDOUT) \<and>
     (wait_cancel wake = None \<or> wait_cancel wake = Some 0)"

definition wake_error :: "slot_wake \<Rightarrow> c_int" where
  "wake_error wake = (if wait_result wake \<noteq> 0 \<and> wait_result wake \<noteq> ETIMEDOUT then 1 else the (wait_cancel wake))"

definition slot_after :: "slot_wake list \<Rightarrow> nat \<Rightarrow> slot_world \<Rightarrow> slot_world" where
  "slot_after wakes k st = fold wait_others (take k wakes) st"

lemma slot_after_Cons [simp]: "slot_after (wake # wakes) (Suc k) st = slot_after wakes k (wait_others wake st)"
  "slot_after wakes 0 st = st"
  by (simp_all add: slot_after_def)

text \<open>
  Claim C20: a waiting writer goes on. If the other threads have emptied the slot after the wake-up
  number \<open>k\<close> and every wake-up before was regular (a signal or a timeout, no cancellation), the wait
  returns 0 with the slot as they left it. If the wake-up number \<open>k\<close> is the first irregular one and the
  slot was full until then, it returns the cancellation value, or 1 for a failed wait, never 0.
\<close>

theorem slot_writer_proceeds:
  "(k \<le> length wakes \<and> (\<forall>i < k. entry (snd (slot_after wakes i st)) \<noteq> NULL \<and> wake_regular (wakes ! i)) \<and>
      entry (snd (slot_after wakes k st)) = NULL \<longrightarrow>
    rrr_msg_holder_slot_write_wait wakes st = Inr (0, slot_after wakes k st)) \<and>
   (k < length wakes \<and> (\<forall>i \<le> k. entry (snd (slot_after wakes i st)) \<noteq> NULL) \<and> (\<forall>i < k. wake_regular (wakes ! i)) \<and>
      \<not> wake_regular (wakes ! k) \<longrightarrow>
    rrr_msg_holder_slot_write_wait wakes st = Inr (wake_error (wakes ! k), slot_after wakes (Suc k) st) \<and>
    wake_error (wakes ! k) \<noteq> 0)"
proof (induction wakes arbitrary: k st)
  case Nil
  show ?case by (cases k) simp_all
next
  case (Cons wake wakes)
  show ?case
  proof (cases k)
    case 0
    then show ?thesis by (auto simp: wake_regular_def wake_error_def Let_def)
  next
    case (Suc k')
    have step: "rrr_msg_holder_slot_write_wait (wake # wakes) st =
        rrr_msg_holder_slot_write_wait wakes (wait_others wake st)"
      if "entry (snd st) \<noteq> NULL" "wake_regular wake"
      using that by (auto simp: wake_regular_def Let_def)
    have all: "(\<forall>i < Suc k'. P i) \<longleftrightarrow> P 0 \<and> (\<forall>i < k'. P (Suc i))" "(\<forall>i \<le> Suc k'. P i) \<longleftrightarrow> P 0 \<and> (\<forall>i \<le> k'. P (Suc i))"
      for P :: "nat \<Rightarrow> bool"
      by (metis less_Suc_eq_0_disj) (metis Suc_le_mono le0 not0_implies_Suc)
    show ?thesis
      using Cons.IH [of k' "wait_others wake st"] step unfolding Suc all by auto
  qed
qed

definition demo_wake :: slot_wake where
  "demo_wake = \<lparr>wait_result = 110, wait_others = (\<lambda>(h, slot). (h, slot\<lparr>entry := NULL\<rparr>)), wait_cancel = Some 0\<rparr>"

theorem slot_writer_proceeds_witness:
  "rrr_msg_holder_slot_write_wait [demo_wake] (Map.empty, demo_slot (Some 1) [NULL] [0] 0 1) =
   Inr (0, Map.empty, demo_slot NULL [NULL] [0] 0 1)"
  using slot_writer_proceeds [of 1 "[demo_wake]" "(Map.empty, demo_slot (Some 1) [NULL] [0] 0 1)"]
  by (simp add: slot_after_def demo_wake_def demo_slot_def wake_regular_def ETIMEDOUT_def)

text \<open>
  Claim C30: a write of a clone neither leaks nor shares, with and without a callback that changes the clone. When the clone can not be made, 1 is returned and nothing
  changes. Otherwise, with a callback that returns, and other threads and a callback that leave the clone with its one reference: when the wait ends well, the clone is the
  entry of the slot; when the wait fails or is cancelled, the clone is freed and the rest of memory is as the callback and the other threads
  left it.
\<close>

theorem slot_write_clone_no_leak:
  assumes "h a = Some n" "holder_ok (payload n)" "env_fresh env h"
  shows "if \<not> clone_room env (payload n)
     then rrr_msg_holder_slot_write_clone env wakes broadcast callback (Some a) h slot = Inr (1, h, slot)
     else \<forall>b h0 ret h1 slot1 m count ids fs.
       mem_entry env = Some b \<and>
       (case callback of None \<Rightarrow> Inr (h(b \<mapsto> fresh_node (cloned (payload n)))) | Some f \<Rightarrow> f (h(b \<mapsto> fresh_node (cloned (payload n)))) (Some b)) = Inr h0 \<and>
       rrr_msg_holder_slot_write_wait wakes (h0, slot) = Inr (ret, h1, slot1) \<and>
       h1 b = Some m \<and> usercount (payload m) = 1 \<and> slot_readers count ids fs slot1 \<longrightarrow>
       (if ret \<noteq> 0 then rrr_msg_holder_slot_write_clone env wakes broadcast callback (Some a) h slot = Inr (ret, h1(b := None), slot1)
        else \<exists>ret' slot'. rrr_msg_holder_slot_write_clone env wakes broadcast callback (Some a) h slot = Inr (ret', h1, slot') \<and>
          entry slot' = Some b \<and> slot_readers count ids (replicate (unat count) 0) slot' \<and>
          total_entries_written slot' = total_entries_written slot1 + 1)"
proof (cases "clone_room env (payload n)")
  case False
  with clone_ok [of h a n env] assms show ?thesis
    by (simp add: rrr_msg_holder_slot_write_clone_def slot_holder_destroy_double_ptr_def)
next
  case True
  then have room: "\<not> \<not> clone_room env (payload n)" by simp
  have main: "if ret \<noteq> 0 then rrr_msg_holder_slot_write_clone env wakes broadcast callback (Some a) h slot = Inr (ret, h1(b := None), slot1)
        else \<exists>ret' slot'. rrr_msg_holder_slot_write_clone env wakes broadcast callback (Some a) h slot = Inr (ret', h1, slot') \<and>
          entry slot' = Some b \<and> slot_readers count ids (replicate (unat count) 0) slot' \<and>
          total_entries_written slot' = total_entries_written slot1 + 1"
    if b: "mem_entry env = Some b"
      "(case callback of None \<Rightarrow> Inr (h(b \<mapsto> fresh_node (cloned (payload n)))) | Some f \<Rightarrow> f (h(b \<mapsto> fresh_node (cloned (payload n)))) (Some b)) = Inr h0"
      "rrr_msg_holder_slot_write_wait wakes (h0, slot) = Inr (ret, h1, slot1)"
      "h1 b = Some m" "usercount (payload m) = 1" "slot_readers count ids fs slot1" for b h0 ret h1 slot1 m count ids fs
  proof -
    have clone: "rrr_msg_holder_util_clone_no_locking env h (Some a) = Inr (0, Some b, h(b \<mapsto> fresh_node (cloned (payload n))))"
      using clone_ok [of h a n env] assms True b(1) by simp
    have free: "rrr_msg_holder_decref h1 (Some b) = Inr (h1(b := None))"
      using rrr_msg_holder_decref_last [of h1 b, OF b(4)] b(5) by simp
    have "slot_reset_loop (unat (reader_count slot1)) 0 (reader_has_read slot1) = Inr (Block (replicate (unat count) 0))"
      using b(6) slot_reset_loop_ok [of 0 "unat count" fs] by (simp add: slot_readers_def)
    with clone free b show ?thesis
      by (auto simp: rrr_msg_holder_slot_write_clone_def slot_holder_destroy_double_ptr_def slot_write_and_reset_def slot_readers_def)
  qed
  show ?thesis unfolding if_not_P [OF room] by (intro allI impI, elim conjE) (rule main)
qed

text \<open>A callback that sets the next hops of the clone, as that of the message broker does.\<close>

definition demo_hops :: "holder_heap \<Rightarrow> ptr \<Rightarrow> holder_heap res" where
  "demo_hops h p = modify h p (payload_update (\<lambda>e. e\<lparr>nexthops := [\<lparr>finstance = 7, parameter = NULL\<rparr>]\<rparr>))"

lemma demo_slot_readers: "slot_readers 1 [] [0] (demo_slot e [NULL] [0] d n)"
  by (simp add: slot_readers_def demo_slot_def)

theorem slot_write_clone_no_leak_witness:
  "\<exists>ret' slot' m. rrr_msg_holder_slot_write_clone (demo_env 2) [] 0 (Some demo_hops) (Some 1) [1 \<mapsto> demo_holder] (demo_slot NULL [NULL] [0] 0 0)
     = Inr (ret', [1 \<mapsto> demo_holder, 2 \<mapsto> m], slot') \<and> entry slot' = Some 2 \<and> members (nexthops (payload m)) = [7]"
proof -
  let ?m = "demo_holder\<lparr>payload := (payload demo_holder)\<lparr>nexthops := [\<lparr>finstance = 7, parameter = NULL\<rparr>]\<rparr>\<rparr>"
  let ?s = "demo_slot NULL [NULL] [0] 0 0"
  have e: "fresh_node (cloned (payload demo_holder)) = demo_holder" by (simp add: demo_holder_def cloned_def)
  have f: "demo_hops [1 \<mapsto> demo_holder, 2 \<mapsto> demo_holder] (Some 2) = Inr [1 \<mapsto> demo_holder, 2 \<mapsto> ?m]"
    by (simp add: demo_hops_def demo_holder_def)
  have w: "rrr_msg_holder_slot_write_wait [] ([1 \<mapsto> demo_holder, 2 \<mapsto> ?m], ?s) = Inr (0, [1 \<mapsto> demo_holder, 2 \<mapsto> ?m], ?s)"
    by (simp add: demo_slot_def)
  have r: "clone_room (demo_env 2) (payload demo_holder)" "env_fresh (demo_env 2) [1 \<mapsto> demo_holder]" "mem_entry (demo_env 2) = Some 2"
    "usercount (payload ?m) = 1" "members (nexthops (payload ?m)) = [7]"
    by (simp_all add: env_fresh_def demo_env_def clone_room_def demo_holder_def)
  note T = slot_write_clone_no_leak [of "[1 \<mapsto> demo_holder]" 1 demo_holder "demo_env 2" "[]" 0 "Some demo_hops" ?s, OF _ demo_holder_ok(1) r(2)]
  from T have "\<exists>ret' slot'. rrr_msg_holder_slot_write_clone (demo_env 2) [] 0 (Some demo_hops) (Some 1) [1 \<mapsto> demo_holder] ?s
      = Inr (ret', [1 \<mapsto> demo_holder, 2 \<mapsto> ?m], slot') \<and> entry slot' = Some 2"
    using r(1,3,4) f w demo_slot_readers [of NULL 0 0] unfolding e by (fastforce simp: e)
  then obtain ret' slot' where "rrr_msg_holder_slot_write_clone (demo_env 2) [] 0 (Some demo_hops) (Some 1) [1 \<mapsto> demo_holder] ?s
      = Inr (ret', [1 \<mapsto> demo_holder, 2 \<mapsto> ?m], slot')" "entry slot' = Some 2" by (elim exE conjE)
  with r(5) show ?thesis by (intro exI [of _ ret'] exI [of _ slot'] exI [of _ ?m] conjI)
qed

definition reader_runs :: "clone_env \<Rightarrow> addr \<Rightarrow> slot_world \<Rightarrow> slot_world" where
  "reader_runs env r st =
     (case rrr_msg_holder_slot_discard env 0 (Some r) (fst st) (snd st) of
        Inr (ret, h, slot, did_discard) \<Rightarrow> (h, slot) | Inl _ \<Rightarrow> st)"

lemma reader_runs_frees:
  assumes "slot_readers 1 ids [0] slot" "ids = [] \<or> ids = [r]" "entry slot = Some a" "h a = Some n" "holder_ok (payload n)"
    "usercount (payload n) = 1" "env_fresh env h" "clone_room env (payload n)"
  shows "fst (reader_runs env r (h, slot)) a = None"
proof -
  let ?read = "rrr_msg_holder_slot_read env 0 rrr_msg_holder_slot_discard_callback (Some r) h slot False"
  let ?slot = "slot\<lparr>readers := Block [Some r]\<rparr>"
  have s: "reader_count slot = 1" "reader_has_read slot = Block [0]" "readers slot = Block [NULL] \<or> readers slot = Block [Some r]"
    using assms(1,2) by (auto simp: slot_readers_def)
  have idx: "rrr_msg_holder_slot_reader_index_get_unlocked slot (Some r) = Inr (int 0, ?slot)"
    using s by (auto simp: rrr_msg_holder_slot_reader_index_get_unlocked_def)
  have l: "length [0 :: u8] = unat (reader_count slot)" "0 < length [0 :: u8]" using s(1) by simp_all
  note R = rrr_msg_holder_slot_read_ok [where callback = rrr_msg_holder_slot_discard_callback and self = "Some r"
      and w = False and broadcast = 0, OF assms(3-5) idx s(2) l assms(7) discard_contract]
  have g: "\<not> [0 :: u8] ! 0 \<noteq> 0" "\<not> \<not> clone_room env (payload n)" using assms(8) by simp_all
  have cb: "\<exists>hb. rrr_msg_holder_slot_discard_callback (h(b \<mapsto> read_clone (payload n))) (Some b) False = Inr (0, False, hb, True)" for b
    by (simp add: rrr_msg_holder_slot_discard_callback_def rrr_msg_holder_unlock_def read_clone_def cloned_def)
  have e: "entry (slot_consumed 0 [0] ?slot) = NULL" by (simp add: slot_consumed_def Let_def)
  from R [unfolded if_not_P [OF g(1)] if_not_P [OF g(2)]] obtain b ret1 keep hb w1 u where b:
    "rrr_msg_holder_slot_discard_callback (h(b \<mapsto> read_clone (payload n))) (Some b) False = Inr (ret1, keep, hb, w1)"
    "if ret1 \<noteq> 0 \<or> keep then ?read = Inr (ret1, h(b := u), ?slot, w1)
     else \<exists>ret' v. ?read = Inr (ret', h(b := u, a := v), slot_consumed 0 [0] ?slot, w1) \<and>
       (if entry (slot_consumed 0 [0] ?slot) \<noteq> NULL then v = h a else usercount (payload n) = 1 \<longrightarrow> v = None)"
    by iprover
  have "\<not> (ret1 \<noteq> 0 \<or> keep)" using b(1) cb [of b] by auto
  from b(2) [unfolded if_not_P [OF this]] e assms(6) obtain ret where
    "?read = Inr (ret, h(b := u, a := None), slot_consumed 0 [0] ?slot, w1)" by auto
  then show ?thesis by (simp add: reader_runs_def rrr_msg_holder_slot_discard_def)
qed

text \<open>
  Claim C36: writing a collection to a slot can use freed memory. The entry is taken out of the
  collection only after the slot is unlocked. When the single reader consumes the entry in between, the
  entry, whose only reference the slot owned, is freed, and the removal reads its next pointer.
\<close>

theorem slot_collection_race:
  assumes "dll h collection (a # b # as)" "h a = Some n" "holder_ok (payload n)" "usercount (payload n) = 1"
    "slot_readers 1 ids fs slot" "ids = [] \<or> ids = [r]" "entry slot = NULL" "env_fresh env h" "clone_room env (payload n)"
  shows "rrr_msg_holder_slot_write_from_collection (([], 0, reader_runs env r) # rounds) h slot collection = Inl Bad_Access"
proof -
  have c: "RRR_LL_COUNT collection > 0" "ptr_first collection = Some a" "ptr_last collection \<noteq> ptr_first collection"
    using dll_count [OF assms(1)] dll_first [OF assms(1)] dll_last [OF assms(1)] assms(1) by (auto simp: dll_def)
  have "slot_reset_loop (unat (reader_count slot)) 0 (reader_has_read slot) = Inr (Block (replicate (unat (1 :: rrr_length)) 0))"
    using assms(5) slot_reset_loop_ok [of 0 1 fs] by (simp add: slot_readers_def)
  then obtain ret slot' where w: "rrr_msg_holder_slot_write_entry [] 0 (Some a) h slot = Inr (0, h, slot')"
    using assms(7) by (simp add: rrr_msg_holder_slot_write_entry_def slot_write_and_reset_def)
  from slot_write_entry_ok [OF assms(5) w] have "slot_readers 1 ids [0] slot'" "entry slot' = Some a" by simp_all
  with reader_runs_frees [of ids slot' r a h n env] assms obtain h' slot'' where
    "reader_runs env r (h, slot') = (h', slot'')" "h' a = None" by (metis prod.collapse)
  then show ?thesis using c w by (simp add: RRR_LL_SHIFT_def load_def Let_def)
qed

definition demo_pair :: holder_heap where
  "demo_pair = [1 \<mapsto> demo_holder\<lparr>ptr_next := Some 2\<rparr>, 2 \<mapsto> demo_holder\<lparr>ptr_prev := Some 1\<rparr>]"

theorem slot_collection_race_witness:
  "rrr_msg_holder_slot_write_from_collection [([], 0, reader_runs (demo_env 3) 5)] demo_pair (demo_slot NULL [NULL] [0] 0 0)
     \<lparr>ptr_first = Some 1, ptr_last = Some 2, node_count = 2\<rparr> = Inl Bad_Access"
proof -
  have "dll demo_pair \<lparr>ptr_first = Some 1, ptr_last = Some 2, node_count = 2\<rparr> [1, 2]"
    by (simp add: dll_def demo_pair_def demo_holder_def)
  moreover have "demo_pair 1 = Some (demo_holder\<lparr>ptr_next := Some 2\<rparr>)" by (simp add: demo_pair_def)
  moreover have "holder_ok (payload (demo_holder\<lparr>ptr_next := Some 2\<rparr>))" using demo_holder_ok(1) by simp
  moreover have "usercount (payload (demo_holder\<lparr>ptr_next := Some 2\<rparr>)) = 1" by (simp add: demo_holder_def)
  moreover have "entry (demo_slot NULL [NULL] [0] 0 0) = NULL" by (simp add: demo_slot_def)
  moreover have "env_fresh (demo_env 3) demo_pair" by (simp add: env_fresh_def demo_env_def demo_pair_def)
  moreover have "clone_room (demo_env 3) (payload (demo_holder\<lparr>ptr_next := Some 2\<rparr>))"
    by (simp add: clone_room_def demo_env_def demo_holder_def)
  ultimately show ?thesis
    using slot_collection_race [of demo_pair _ 1 2 "[]" _ "[]" "[0]"] demo_slot_readers by blast
qed

text \<open>
  When the second allocation fails while the number of readers is set, the slot keeps a
  pointer to the freed list of readers, and destroying the slot frees it again.
\<close>

theorem slot_reader_count_double_free:
  assumes "readers slot \<noteq> Dangling" "reader_has_read slot \<noteq> Dangling" "count > 0" "entry slot = NULL"
  shows "\<exists>slot'. rrr_msg_holder_slot_reader_count_set True False slot count = Inr (1, slot') \<and>
     rrr_msg_holder_slot_destroy h slot' = Inl Bad_Access \<and>
     rrr_msg_holder_slot_reader_count_set True True slot' count = Inl Bad_Access"
  using assms
  by (simp add: rrr_msg_holder_slot_reader_count_set_def rrr_msg_holder_slot_destroy_def RRR_FREE_IF_NOT_NULL_def Let_def)

theorem slot_reader_count_double_free_witness:
  "\<exists>slot'. rrr_msg_holder_slot_reader_count_set True False (demo_slot NULL [NULL] [0] 0 0) 2 = Inr (1, slot') \<and>
     rrr_msg_holder_slot_destroy Map.empty slot' = Inl Bad_Access"
  using slot_reader_count_double_free [of "demo_slot NULL [NULL] [0] 0 0" 2 Map.empty] by (auto simp: demo_slot_def)

end
