(* ===== verification/RRR_Base64.thy ===== *)
theory RRR_Base64
  imports RRR_Types
begin

text \<open>
  Base64 and base64url, \<^verbatim>\<open>src/lib/util/base64.c\<close>. A call returns the bytes written to the buffer, without
  the terminating NUL, or \<open>None\<close> for a NULL result; whether there is memory for the buffer is a
  parameter. The buffer has the size that the code computes in 64-bit arithmetic, and a write beyond
  it is \<open>Bad_Access\<close>.
  The theory shows that the sizes are always large enough (and the overflow check complete), the
  round trips, and the inputs for which the round trip of base64url fails.
\<close>

subsection \<open>The model\<close>

definition emit :: "nat \<Rightarrow> u8 list \<Rightarrow> u8 list \<Rightarrow> u8 list res" where
  "emit cap out bytes = (if length out + length bytes \<le> cap then Inr (out @ bytes) else Inl Bad_Access)"

definition base64_table :: "u8 list" where
  "base64_table = map of_char ''ABCDEFGHIJKLMNOPQRSTUVWXYZabcdefghijklmnopqrstuvwxyz0123456789+/''"

definition base64url_table :: "u8 list" where
  "base64url_table = map of_char ''ABCDEFGHIJKLMNOPQRSTUVWXYZabcdefghijklmnopqrstuvwxyz0123456789-_''"

definition base64_olen :: "rrr_biglength \<Rightarrow> rrr_biglength" where
  "base64_olen len = (let olen = len * 4 div 3 + 4; olen = olen + olen div 72 in olen + 1)"

text \<open>The four table indexes of three bytes.\<close>

definition index0 :: "u8 \<Rightarrow> u8" where "index0 a = drop_bit 2 a"
definition index1 :: "u8 \<Rightarrow> u8 \<Rightarrow> u8" where "index1 a b = push_bit 4 (a AND 0x03) OR drop_bit 4 b"
definition index2 :: "u8 \<Rightarrow> u8 \<Rightarrow> u8" where "index2 b c = push_bit 2 (b AND 0x0f) OR drop_bit 6 c"
definition index3 :: "u8 \<Rightarrow> u8" where "index3 c = c AND 0x3f"

abbreviation quad :: "u8 list \<Rightarrow> u8 \<Rightarrow> u8 \<Rightarrow> u8 \<Rightarrow> u8 list" where
  "quad tab a b c \<equiv> [tab ! unat (index0 a), tab ! unat (index1 a b), tab ! unat (index2 b c), tab ! unat (index3 c)]"

fun base64_encode_loop :: "nat \<Rightarrow> u8 list \<Rightarrow> nat \<Rightarrow> u8 list \<Rightarrow> (u8 list \<times> nat \<times> u8 list) res" where
  "base64_encode_loop cap out line_len (a # b # c # src) =
     bindr (emit cap out (quad base64_table a b c)) (\<lambda>out.
     if line_len + 4 \<ge> 72
     then bindr (emit cap out [0x0a]) (\<lambda>out. base64_encode_loop cap out 0 src)
     else base64_encode_loop cap out (line_len + 4) src)"
| "base64_encode_loop cap out line_len src = Inr (out, line_len, src)"

definition base64_encode_rest :: "nat \<Rightarrow> u8 list \<Rightarrow> nat \<Rightarrow> u8 list \<Rightarrow> (u8 list \<times> nat) res" where
  "base64_encode_rest cap out line_len src =
     (case src of
        [] \<Rightarrow> Inr (out, line_len)
      | [a] \<Rightarrow> bindr (emit cap out [base64_table ! unat (index0 a), base64_table ! unat (push_bit 4 (a AND 0x03)), 0x3d, 0x3d])
                (\<lambda>out. Inr (out, line_len + 4))
      | a # b # _ \<Rightarrow> bindr (emit cap out [base64_table ! unat (index0 a), base64_table ! unat (index1 a b),
                              base64_table ! unat (push_bit 2 (b AND 0x0f)), 0x3d])
                (\<lambda>out. Inr (out, line_len + 4)))"

definition rrr_base64_encode :: "bool \<Rightarrow> u8 list \<Rightarrow> u8 list option res" where
  "rrr_base64_encode have_memory src =
     (let len = of_nat (length src); olen = base64_olen len in
      if olen < len then Inr None
      else if \<not> have_memory then Inr None
      else bindr (base64_encode_loop (unat olen) [] 0 src) (\<lambda>(out, line_len, src).
           bindr (base64_encode_rest (unat olen) out line_len src) (\<lambda>(out, line_len).
           bindr (if line_len \<noteq> 0 then emit (unat olen) out [0x0a] else Inr out) (\<lambda>out.
           bindr (emit (unat olen) out [0]) (\<lambda>_. Inr (Some out))))))"

text \<open>The table of the decoder: 0x80 for the bytes that are skipped.\<close>

primrec dtable_fill :: "u8 list \<Rightarrow> nat \<Rightarrow> u8 list \<Rightarrow> u8 list" where
  "dtable_fill [] i dtable = dtable"
| "dtable_fill (t # tab) i dtable = dtable_fill tab (i + 1) (dtable[unat t := of_nat i])"

definition base64_dtable :: "u8 list" where
  "base64_dtable = (dtable_fill base64_table 0 (replicate 256 0x80))[unat (0x3d :: u8) := 0]"

definition base64url_dtable :: "u8 list" where
  "base64url_dtable = dtable_fill base64url_table 0 (replicate 256 0x80)"

definition base64_count :: "u8 list \<Rightarrow> u8 list \<Rightarrow> nat" where
  "base64_count dtable src = length (filter (\<lambda>s. dtable ! unat s \<noteq> 0x80) src)"

definition triple :: "u8 list \<Rightarrow> u8 list" where
  "triple block = [push_bit 2 (block ! 0) OR drop_bit 4 (block ! 1),
     push_bit 4 (block ! 1) OR drop_bit 2 (block ! 2), push_bit 6 (block ! 2) OR block ! 3]"

text \<open>A block holds the values of the current group of four; \<open>pad\<close> counts the padding characters.\<close>

primrec base64_decode_loop :: "nat \<Rightarrow> u8 list \<Rightarrow> u8 list \<Rightarrow> nat \<Rightarrow> u8 list \<Rightarrow> u8 list option res" where
  "base64_decode_loop cap out block pad [] = Inr (Some out)"
| "base64_decode_loop cap out block pad (s # src) =
     (let tmp = base64_dtable ! unat s in
      if tmp = 0x80 then base64_decode_loop cap out block pad src
      else let pad = (if s = 0x3d then pad + 1 else pad); block = block @ [tmp] in
        if length block = 4 then
          bindr (emit cap out (triple block)) (\<lambda>out.
          if pad = 0 then base64_decode_loop cap out [] pad src
          else if pad = 1 then Inr (Some (take (length out - 1) out))
          else if pad = 2 then Inr (Some (take (length out - 2) out))
          else Inr None)
        else base64_decode_loop cap out block pad src)"

definition rrr_base64_decode :: "bool \<Rightarrow> u8 list \<Rightarrow> u8 list option res" where
  "rrr_base64_decode have_memory src =
     (let count = base64_count base64_dtable src in
      if count = 0 \<or> count mod 4 \<noteq> 0 then Inr None
      else if \<not> have_memory then Inr None
      else base64_decode_loop (count div 4 * 3) [] [] 0 src)"

fun base64url_encode_loop :: "nat \<Rightarrow> u8 list \<Rightarrow> u8 list \<Rightarrow> (u8 list \<times> u8 list) res" where
  "base64url_encode_loop cap out (a # b # c # src) =
     bindr (emit cap out (quad base64url_table a b c)) (\<lambda>out. base64url_encode_loop cap out src)"
| "base64url_encode_loop cap out src = Inr (out, src)"

definition base64url_encode_rest :: "nat \<Rightarrow> u8 list \<Rightarrow> u8 list \<Rightarrow> u8 list res" where
  "base64url_encode_rest cap out src =
     (case src of
        [] \<Rightarrow> Inr out
      | [a] \<Rightarrow> emit cap out [base64url_table ! unat (index0 a), base64url_table ! unat (push_bit 4 (a AND 0x03))]
      | a # b # _ \<Rightarrow> emit cap out [base64url_table ! unat (index0 a), base64url_table ! unat (index1 a b),
                              base64url_table ! unat (push_bit 2 (b AND 0x0f))])"

definition rrr_base64url_encode :: "bool \<Rightarrow> u8 list \<Rightarrow> u8 list option res" where
  "rrr_base64url_encode have_memory src =
     (let len = of_nat (length src); olen = base64_olen len in
      if olen < len then Inr None
      else if \<not> have_memory then Inr None
      else bindr (base64url_encode_loop (unat olen) [] src) (\<lambda>(out, src).
           bindr (base64url_encode_rest (unat olen) out src) (\<lambda>out.
           bindr (emit (unat olen) out [0]) (\<lambda>_. Inr (Some out)))))"

primrec base64url_decode_loop :: "nat \<Rightarrow> u8 list \<Rightarrow> u8 list \<Rightarrow> u8 list \<Rightarrow> u8 list res" where
  "base64url_decode_loop cap out block [] = Inr out"
| "base64url_decode_loop cap out block (s # src) =
     (let tmp = base64url_dtable ! unat s in
      if tmp = 0x80 then base64url_decode_loop cap out block src
      else let block = block @ [tmp] in
        if length block = 4 then
          bindr (emit cap out (triple block)) (\<lambda>out. base64url_decode_loop cap out [] src)
        else base64url_decode_loop cap out block src)"

definition rrr_base64url_decode :: "bool \<Rightarrow> u8 list \<Rightarrow> u8 list option res" where
  "rrr_base64url_decode have_memory src =
     (let count = base64_count base64url_dtable src in
      if count = 0 \<or> count mod 4 \<noteq> 0 then Inr None
      else if \<not> have_memory then Inr None
      else bindr (base64url_decode_loop (count div 4 * 3) [] [] src) (\<lambda>out. Inr (Some out)))"

subsection \<open>Sizes\<close>

lemma emit_ok [simp]: "length out + length bytes \<le> cap \<Longrightarrow> emit cap out bytes = Inr (out @ bytes)"
  by (simp add: emit_def)

text \<open>The size without wrap-around; with wrap-around the check \<open>olen < len\<close> holds.\<close>

lemma base64_olen_nat:
  fixes len :: u64
  defines "m \<equiv> unat len * 4 mod 2 ^ 64"
  shows "unat (base64_olen len) = m div 3 + 4 + (m div 3 + 4) div 72 + 1"
proof -
  have mb: "m < 2 ^ 64" unfolding m_def by simp
  define x where "x = len * 4 div 3 + 4"
  define y where "y = x + x div 72"
  have "unat (len * 4 div 3) = m div 3" by (simp add: unat_div unat_word_ariths(2) m_def)
  then have x: "unat x = m div 3 + 4" using mb by (simp add: x_def unat_word_ariths(1))
  then have "unat (x div 72) = (m div 3 + 4) div 72" by (simp add: unat_div)
  with x mb have y: "unat y = m div 3 + 4 + (m div 3 + 4) div 72" by (simp add: y_def unat_word_ariths(1))
  have "unat (y + 1) = m div 3 + 4 + (m div 3 + 4) div 72 + 1" using y mb by (simp add: unat_word_ariths(1))
  then show ?thesis unfolding base64_olen_def Let_def x_def [symmetric] y_def [symmetric] .
qed

lemma base64_olen_exact:
  assumes "n < 2 ^ 62"
  shows "unat (base64_olen (of_nat n)) = n * 4 div 3 + 4 + (n * 4 div 3 + 4) div 72 + 1"
proof -
  have "unat (of_nat n :: u64) * 4 mod 2 ^ 64 = n * 4" using assms by (simp add: unat_of_nat)
  then show ?thesis using base64_olen_nat [of "of_nat n"] by simp
qed

lemma base64_olen_overflow:
  assumes "2 ^ 62 \<le> unat len"
  shows "base64_olen len < len"
proof -
  define m where "m = unat len * 4 mod 2 ^ 64"
  have mb: "m < 2 ^ 64" unfolding m_def by simp
  have "m div 3 + 4 + (m div 3 + 4) div 72 + 1 < unat len"
  proof (cases "unat len < 2 ^ 63")
    case True
    then have "m = unat len * 4 - 2 ^ 64"
      unfolding m_def using assms by (simp add: le_mod_geq)
    with True assms show ?thesis by simp
  next
    case False
    with mb show ?thesis by simp
  qed
  then show ?thesis using base64_olen_nat [of len] by (simp add: word_less_nat_alt m_def)
qed

subsection \<open>The text of an encoding\<close>

fun base64_text :: "nat \<Rightarrow> u8 list \<Rightarrow> u8 list" where
  "base64_text line_len (a # b # c # src) =
     quad base64_table a b c @ (if line_len + 4 \<ge> 72 then 0x0a # base64_text 0 src else base64_text (line_len + 4) src)"
| "base64_text line_len [a, b] =
     [base64_table ! unat (index0 a), base64_table ! unat (index1 a b), base64_table ! unat (index2 b 0), 0x3d, 0x0a]"
| "base64_text line_len [a] =
     [base64_table ! unat (index0 a), base64_table ! unat (index1 a 0), 0x3d, 0x3d, 0x0a]"
| "base64_text line_len [] = (if line_len \<noteq> 0 then [0x0a] else [])"

fun base64url_text :: "u8 list \<Rightarrow> u8 list" where
  "base64url_text (a # b # c # src) = quad base64url_table a b c @ base64url_text src"
| "base64url_text [a, b] =
     [base64url_table ! unat (index0 a), base64url_table ! unat (index1 a b), base64url_table ! unat (index2 b 0)]"
| "base64url_text [a] = [base64url_table ! unat (index0 a), base64url_table ! unat (index1 a 0)]"
| "base64url_text [] = []"

lemma index_rest: "push_bit 4 (a AND 0x03) = index1 a 0" "push_bit 2 (b AND 0x0f) = index2 b 0"
  by (simp_all add: index1_def index2_def)

lemmas encode_rest_index = base64_encode_rest_def [unfolded index_rest] base64url_encode_rest_def [unfolded index_rest]

lemma base64_text_length:
  "line_len = 4 * l \<Longrightarrow> l < 18 \<Longrightarrow> length (base64_text line_len src) =
     4 * ((length src + 2) div 3) + (4 * ((length src + 2) div 3) + line_len + 71) div 72"
proof (induction line_len src arbitrary: l rule: base64_text.induct)
  case (1 line_len a b c src)
  have g: "(length (a # b # c # src) + 2) div 3 = Suc ((length src + 2) div 3)" by simp
  show ?case
  proof (cases "l = 17")
    case True
    with 1(1) [of 0] 1(3) show ?thesis unfolding g by simp
  next
    case False
    with 1(2) [of "l + 1"] 1(3,4) show ?thesis unfolding g by simp
  qed
qed auto

lemma base64_text_fits:
  "length (base64_text 0 src) + 1 \<le> length src * 4 div 3 + 4 + (length src * 4 div 3 + 4) div 72 + 1"
proof -
  define x where "x = 4 * ((length src + 2) div 3)"
  define y where "y = length src * 4 div 3 + 4"
  have "x + 1 \<le> y" unfolding x_def y_def by linarith
  moreover have "length (base64_text 0 src) = x + (x + 71) div 72"
    using base64_text_length [of 0 0 src] by (simp add: x_def)
  moreover have "(x + 71) div 72 \<le> (y + 72) div 72" using calculation(1) by (intro div_le_mono) simp
  ultimately show ?thesis unfolding y_def [symmetric] by simp
qed

lemma base64url_text_length: "length (base64url_text src) \<le> length src * 4 div 3 + 1"
  by (induction src rule: base64url_text.induct) auto

lemma base64_encode_run:
  "length out + length (base64_text line_len src) \<le> cap \<Longrightarrow>
   bindr (base64_encode_loop cap out line_len src) (\<lambda>(out, line_len, src).
   bindr (base64_encode_rest cap out line_len src) (\<lambda>(out, line_len).
   bindr (if line_len \<noteq> 0 then emit cap out [0x0a] else Inr out) f)) = f (out @ base64_text line_len src)"
  by (induction cap out line_len src rule: base64_encode_loop.induct)
     (auto simp: encode_rest_index)

lemma base64url_encode_run:
  "length out + length (base64url_text src) \<le> cap \<Longrightarrow>
   bindr (base64url_encode_loop cap out src) (\<lambda>(out, src).
   bindr (base64url_encode_rest cap out src) f) = f (out @ base64url_text src)"
  by (induction cap out src rule: base64url_encode_loop.induct)
     (auto simp: encode_rest_index)

lemma encode_size_check:
  assumes "length src < 2 ^ 64"
  shows "base64_olen (of_nat (length src)) < of_nat (length src) \<longleftrightarrow> 2 ^ 62 \<le> length src"
proof -
  have u: "unat (of_nat (length src) :: u64) = length src" using assms by (simp add: unat_of_nat)
  show ?thesis
  proof (cases "2 ^ 62 \<le> length src")
    case True
    with base64_olen_overflow [of "of_nat (length src)"] u show ?thesis by simp
  next
    case False
    then show ?thesis
      using base64_olen_exact [of "length src"] u by (simp add: word_less_nat_alt)
  qed
qed

lemma rrr_base64_encode_eq:
  assumes "length src < 2 ^ 64"
  shows "rrr_base64_encode have_memory src =
     Inr (if have_memory \<and> length src < 2 ^ 62 then Some (base64_text 0 src) else None)"
proof (cases "have_memory \<and> length src < 2 ^ 62")
  case True
  let ?cap = "unat (base64_olen (of_nat (length src)))"
  have "length (base64_text 0 src) + 1 \<le> ?cap"
    using base64_text_fits [of src] base64_olen_exact [of "length src"] True by simp
  with base64_encode_run [of "[]" 0 src ?cap "\<lambda>out. bindr (emit ?cap out [0]) (\<lambda>_. Inr (Some out))"] True
    encode_size_check [OF assms]
  show ?thesis by (simp add: rrr_base64_encode_def Let_def)
next
  case False
  then show ?thesis using encode_size_check [OF assms] by (auto simp: rrr_base64_encode_def Let_def)
qed

lemma rrr_base64url_encode_eq:
  assumes "length src < 2 ^ 64"
  shows "rrr_base64url_encode have_memory src =
     Inr (if have_memory \<and> length src < 2 ^ 62 then Some (base64url_text src) else None)"
proof (cases "have_memory \<and> length src < 2 ^ 62")
  case True
  let ?cap = "unat (base64_olen (of_nat (length src)))"
  have "length (base64url_text src) + 1 \<le> ?cap"
    using base64url_text_length [of src] base64_olen_exact [of "length src"] True by simp
  with base64url_encode_run [of "[]" src ?cap "\<lambda>out. bindr (emit ?cap out [0]) (\<lambda>_. Inr (Some out))"] True
    encode_size_check [OF assms]
  show ?thesis by (simp add: rrr_base64url_encode_def Let_def)
next
  case False
  then show ?thesis using encode_size_check [OF assms] by (auto simp: rrr_base64url_encode_def Let_def)
qed

subsection \<open>Bits and tables\<close>

lemma and_masks: "(a :: u8) AND 0x03 = take_bit 2 a" "(a :: u8) AND 0x0f = take_bit 4 a" "(a :: u8) AND 0x3f = take_bit 6 a"
  by (simp_all add: take_bit_eq_mask mask_eq_exp_minus_1)

lemmas index_defs = index0_def index1_def index2_def index3_def and_masks

lemmas octet_bits = bit_or_iff bit_push_bit_iff bit_drop_bit_eq bit_take_bit_iff possible_bit_word comp_def

lemma octet_eqI:
  assumes "\<And>n. n \<in> {0, 1, 2, 3, 4, 5, 6, 7} \<Longrightarrow> bit a n \<longleftrightarrow> bit b n"
  shows "a = (b :: u8)"
proof (rule bit_word_eqI)
  fix n assume "n < LENGTH(8)"
  then have "n \<in> {0, 1, 2, 3, 4, 5, 6, 7}" by auto
  then show "bit a n \<longleftrightarrow> bit b n" by (rule assms)
qed

lemma bit_high: "8 \<le> n \<Longrightarrow> \<not> bit (a :: u8) n"
  using bit_imp_le_length [of a n] by auto

lemma triple_quad: "push_bit 2 (index0 a) OR drop_bit 4 (index1 a b) = a"
  "push_bit 4 (index1 a b) OR drop_bit 2 (index2 b c) = b" "push_bit 6 (index2 b c) OR index3 c = c"
  unfolding index_defs
  by (rule octet_eqI, simp only: octet_bits, elim insertE emptyE, auto simp: bit_high)+

lemma less_64: "(\<And>n. 6 \<le> n \<Longrightarrow> \<not> bit x n) \<Longrightarrow> unat (x :: u8) < 64"
proof -
  assume "\<And>n. 6 \<le> n \<Longrightarrow> \<not> bit x n"
  then have "take_bit 6 x = x" by (intro bit_word_eqI) (use not_le in \<open>auto simp: bit_take_bit_iff\<close>)
  then have "unat x = take_bit 6 (unat x)" by (metis unsigned_take_bit_eq)
  then show ?thesis using take_bit_nat_less_exp [of 6 "unat x"] by simp
qed

lemma index_less: "unat (index0 a) < 64" "unat (index1 a b) < 64" "unat (index2 b c) < 64" "unat (index3 c) < 64"
  unfolding index_defs by (rule less_64, simp only: octet_bits, auto simp: bit_high)+

lemma dtable_fill_length [simp]: "length (dtable_fill tab i d) = length d"
  by (induction tab arbitrary: i d) simp_all

lemma dtable_fill_other: "x \<notin> set tab \<Longrightarrow> dtable_fill tab i d ! unat x = d ! unat x"
  by (induction tab arbitrary: i d) (auto simp: word_unat_eq_iff)

lemma dtable_fill_nth:
  "distinct tab \<Longrightarrow> length d = 256 \<Longrightarrow> j < length tab \<Longrightarrow> dtable_fill tab i d ! unat (tab ! j) = of_nat (i + j)"
proof (induction tab arbitrary: i d j)
  case (Cons t tab)
  have "unat t < 256" using unat_bound [of t] by simp
  with Cons show ?case by (cases j) (auto simp: dtable_fill_other)
qed simp

lemma base64_table_facts:
  "distinct base64_table" "length base64_table = 64" "distinct base64url_table" "length base64url_table = 64"
  "list_all (\<lambda>x. x \<noteq> 0x3d \<and> x \<noteq> 0x0a) base64_table"
  by code_simp+

lemma base64_table_nth:
  assumes "unat i < 64"
  shows "base64_table ! unat i \<noteq> 0x3d" "base64_dtable ! unat (base64_table ! unat i) = i"
    "base64url_dtable ! unat (base64url_table ! unat i) = i" "i \<noteq> 0x80"
proof -
  have n: "base64_table ! unat i \<noteq> 0x3d"
    using base64_table_facts(2,5) assms by (simp add: list_all_length)
  then have "unat (base64_table ! unat i) \<noteq> unat (0x3d :: u8)" by (simp add: word_unat_eq_iff)
  with dtable_fill_nth [of base64_table "replicate 256 0x80" "unat i" 0] base64_table_facts(1,2) assms
  show "base64_dtable ! unat (base64_table ! unat i) = i" by (simp add: base64_dtable_def)
  from dtable_fill_nth [of base64url_table "replicate 256 0x80" "unat i" 0] base64_table_facts(3,4) assms
  show "base64url_dtable ! unat (base64url_table ! unat i) = i" by (simp add: base64url_dtable_def)
  show "base64_table ! unat i \<noteq> 0x3d" "i \<noteq> 0x80" using n assms by auto
qed

lemma base64_dtable_special: "base64_dtable ! 61 = 0" "base64_dtable ! 10 = 0x80"
proof -
  show "base64_dtable ! 61 = 0" by (simp add: base64_dtable_def)
  have "0x0a \<notin> set base64_table" using base64_table_facts(5) by (auto simp: list_all_iff)
  then have "dtable_fill base64_table 0 (replicate 256 0x80) ! unat (0x0a :: u8) = 0x80"
    by (subst dtable_fill_other) simp_all
  then show "base64_dtable ! 10 = 0x80" by (simp add: base64_dtable_def)
qed

subsection \<open>Decoding\<close>

lemmas table_simps [simp] = base64_table_nth(1,2,3) [OF index_less(1)] base64_table_nth(1,2,3) [OF index_less(2)]
  base64_table_nth(1,2,3) [OF index_less(3)] base64_table_nth(1,2,3) [OF index_less(4)]
  base64_table_nth(4) [OF index_less(1)] base64_table_nth(4) [OF index_less(2)]
  base64_table_nth(4) [OF index_less(3)] base64_table_nth(4) [OF index_less(4)]

lemma triple_quads [simp]:
  "triple [index0 a, index1 a b, index2 b c, index3 c] = [a, b, c]"
  "take 2 (triple [index0 a, index1 a b, index2 b 0, 0]) = [a, b]"
  "take (Suc 0) (triple [index0 a, index1 a 0, 0, 0]) = [a]"
  "length (triple block) = 3"
  by (simp_all add: triple_def triple_quad)

lemma take_triple: "take (length out + k) (out @ triple block) = out @ take k (triple block)"
  by simp

lemma base64_decode_text:
  "length out + 3 * ((length src + 2) div 3) \<le> cap \<Longrightarrow>
   base64_decode_loop cap out [] 0 (base64_text line_len src) = Inr (Some (out @ src))"
proof (induction line_len src arbitrary: out rule: base64_text.induct)
  case (1 line_len a b c src)
  have "(length (a # b # c # src) + 2) div 3 = Suc ((length src + 2) div 3)" by simp
  with 1 show ?case by (simp add: base64_dtable_special)
next
  case (2 line_len a b)
  then show ?case
    using take_triple [of out 2 "[index0 a, index1 a b, index2 b 0, 0]"]
    by (simp add: base64_dtable_special)
next
  case (3 line_len a)
  then show ?case
    using take_triple [of out 1 "[index0 a, index1 a 0, 0, 0]"]
    by (simp add: base64_dtable_special)
next
  case (4 line_len)
  show ?case by (simp add: base64_dtable_special)
qed

lemma base64_count_text: "base64_count base64_dtable (base64_text line_len src) = 4 * ((length src + 2) div 3)"
proof (induction line_len src rule: base64_text.induct)
  case (1 line_len a b c src)
  have "(length (a # b # c # src) + 2) div 3 = Suc ((length src + 2) div 3)" by simp
  with 1 show ?case by (simp add: base64_count_def base64_dtable_special)
qed (simp_all add: base64_count_def base64_dtable_special)

lemma base64url_decode_text:
  "length src mod 3 = 0 \<Longrightarrow> length out + length src \<le> cap \<Longrightarrow>
   base64url_decode_loop cap out [] (base64url_text src) = Inr (out @ src)"
  by (induction src arbitrary: out rule: base64url_text.induct) simp_all

lemma base64url_count_text:
  "base64_count base64url_dtable (base64url_text src) = length src div 3 * 4 + (if length src mod 3 = 0 then 0 else length src mod 3 + 1)"
proof (induction src rule: base64url_text.induct)
  case (1 a b c src)
  have "length (a # b # c # src) = length src + 3" by simp
  then have "length (a # b # c # src) div 3 = Suc (length src div 3)" "length (a # b # c # src) mod 3 = length src mod 3"
    by presburger+
  with 1 show ?case by (simp add: base64_count_def)
qed (auto simp: base64_count_def)

lemma count_Cons: "base64_count dtable (s # src) = (if dtable ! unat s \<noteq> 0x80 then 1 else 0) + base64_count dtable src"
  by (simp add: base64_count_def)

lemma base64_decode_safe_loop:
  "length block < 4 \<Longrightarrow> length out + 3 * ((length block + base64_count base64_dtable src) div 4) \<le> cap \<Longrightarrow>
   \<exists>r. base64_decode_loop cap out block pad src = Inr r \<and> (\<forall>bytes. r = Some bytes \<longrightarrow> length bytes \<le> cap)"
proof (induction src arbitrary: out block pad)
  case (Cons s src)
  show ?case
  proof (cases "base64_dtable ! unat s = 0x80")
    case True
    with Cons show ?thesis by (simp add: count_Cons)
  next
    case valid: False
    show ?thesis
    proof (cases "length block = 3")
      case True
      with Cons.prems valid have l: "length out + 3 + 3 * (base64_count base64_dtable src div 4) \<le> cap"
        by (simp add: count_Cons div_add_self1)
      with Cons.IH [of "[]" "out @ triple (block @ [base64_dtable ! unat s])" 0] True valid show ?thesis
        by (auto simp: Let_def)
    next
      case False
      with Cons.IH [of "block @ [base64_dtable ! unat s]" out] Cons.prems valid show ?thesis
        by (auto simp: Let_def count_Cons)
    qed
  qed
qed simp

lemma base64url_decode_safe_loop:
  "length block < 4 \<Longrightarrow> length out + 3 * ((length block + base64_count base64url_dtable src) div 4) \<le> cap \<Longrightarrow>
   \<exists>bytes. base64url_decode_loop cap out block src = Inr bytes \<and> length bytes \<le> cap"
proof (induction src arbitrary: out block)
  case (Cons s src)
  show ?case
  proof (cases "base64url_dtable ! unat s = 0x80")
    case True
    with Cons show ?thesis by (simp add: count_Cons)
  next
    case valid: False
    show ?thesis
    proof (cases "length block = 3")
      case True
      with Cons.prems valid have l: "length out + 3 + 3 * (base64_count base64url_dtable src div 4) \<le> cap"
        by (simp add: count_Cons div_add_self1)
      with Cons.IH [of "[]" "out @ triple (block @ [base64url_dtable ! unat s])"] True valid show ?thesis
        by (auto simp: Let_def)
    next
      case False
      with Cons.IH [of "block @ [base64url_dtable ! unat s]" out] Cons.prems valid show ?thesis
        by (auto simp: Let_def count_Cons)
    qed
  qed
qed simp

subsection \<open>Properties\<close>

text \<open>The codec, over what a caller with enough memory gets from the two calls.\<close>

definition base64_decoded :: "u8 list option res \<Rightarrow> u8 list option" where
  "base64_decoded r = (case r of Inr (Some txt) \<Rightarrow> (case rrr_base64_decode True txt of Inr d \<Rightarrow> d | Inl _ \<Rightarrow> None) | _ \<Rightarrow> None)"

lemma base64_decode_encode:
  assumes "src \<noteq> []" "length src < 2 ^ 62"
  shows "rrr_base64_encode True src = Inr (Some (base64_text 0 src))"
    "rrr_base64_decode True (base64_text 0 src) = Inr (Some src)"
proof -
  show "rrr_base64_encode True src = Inr (Some (base64_text 0 src))"
    using rrr_base64_encode_eq [of src True] assms(2) by simp
  have "(length src + 2) div 3 \<noteq> 0" using assms(1) by (cases src) auto
  then show "rrr_base64_decode True (base64_text 0 src) = Inr (Some src)"
    using base64_decode_text [of "[]" src _ 0] by (simp add: rrr_base64_decode_def base64_count_text Let_def)
qed

interpretation b64: codec "\<lambda>src. src \<noteq> [] \<and> length src < 2 ^ 62" "rrr_base64_encode True" base64_decoded
  by unfold_locales (simp add: base64_decode_encode base64_decoded_def)

text \<open>
  Claim C14: base64 encoding followed by decoding gives back the input, for every input that is not
  empty and shorter than 2^62 bytes; different inputs have different encodings. The encoding of the
  empty input is the empty text, which the decoder refuses.
\<close>

theorem base64_roundtrip:
  "(src \<noteq> [] \<and> length src < 2 ^ 62 \<longrightarrow>
     (\<exists>txt. rrr_base64_encode True src = Inr (Some txt) \<and> rrr_base64_decode True txt = Inr (Some src)) \<and>
     (\<forall>src'. src' \<noteq> [] \<and> length src' < 2 ^ 62 \<and> rrr_base64_encode True src' = rrr_base64_encode True src \<longrightarrow> src' = src)) \<and>
   rrr_base64_encode True [] = Inr (Some []) \<and> rrr_base64_decode True [] = Inr None"
  using base64_decode_encode b64.encode_inj rrr_base64_encode_eq [of "[]" True]
  by (auto simp: rrr_base64_decode_def base64_count_def)

theorem base64_roundtrip_witness:
  "\<exists>txt. rrr_base64_encode True [0x52, 0x52, 0x52, 0xff] = Inr (Some txt) \<and>
     rrr_base64_decode True txt = Inr (Some [0x52, 0x52, 0x52, 0xff])"
  using base64_roundtrip [of "[0x52, 0x52, 0x52, 0xff]"] by auto

text \<open>
  Claim C16: no call writes outside its buffer. For every input that fits in memory, the encoders
  return; they return NULL exactly when memory is short or the input has 2^62 bytes or more, where the
  size computation would wrap. For every input the decoders return, and a result is no longer than
  the buffer of three bytes per four counted characters.
\<close>

theorem base64_memory_safe:
  assumes "length src < 2 ^ 64"
  shows "(\<exists>r. rrr_base64_encode have_memory src = Inr r \<and> (r = None \<longleftrightarrow> \<not> have_memory \<or> 2 ^ 62 \<le> length src)) \<and>
     (\<exists>r. rrr_base64url_encode have_memory src = Inr r \<and> (r = None \<longleftrightarrow> \<not> have_memory \<or> 2 ^ 62 \<le> length src)) \<and>
     (\<exists>r. rrr_base64_decode have_memory src = Inr r \<and>
        (\<forall>bytes. r = Some bytes \<longrightarrow> length bytes \<le> base64_count base64_dtable src div 4 * 3)) \<and>
     (\<exists>r. rrr_base64url_decode have_memory src = Inr r \<and>
        (\<forall>bytes. r = Some bytes \<longrightarrow> length bytes \<le> base64_count base64url_dtable src div 4 * 3))"
proof -
  obtain r where "base64_decode_loop (base64_count base64_dtable src div 4 * 3) [] [] 0 src = Inr r"
      "\<forall>bytes. r = Some bytes \<longrightarrow> length bytes \<le> base64_count base64_dtable src div 4 * 3"
    using base64_decode_safe_loop [of "[]" "[]" src "base64_count base64_dtable src div 4 * 3" 0] by auto
  moreover obtain bytes where "base64url_decode_loop (base64_count base64url_dtable src div 4 * 3) [] [] src = Inr bytes"
      "length bytes \<le> base64_count base64url_dtable src div 4 * 3"
    using base64url_decode_safe_loop [of "[]" "[]" src "base64_count base64url_dtable src div 4 * 3"] by auto
  ultimately show ?thesis
    using rrr_base64_encode_eq [OF assms, of have_memory] rrr_base64url_encode_eq [OF assms, of have_memory]
    by (auto simp: rrr_base64_decode_def rrr_base64url_decode_def Let_def)
qed

theorem base64_memory_safe_witness: "\<exists>r. rrr_base64_decode True [0x52, 0x3d, 0x3d, 0x3d] = Inr r"
  using base64_memory_safe [of "[0x52, 0x3d, 0x3d, 0x3d]" True] by auto

text \<open>
  Claim C37: base64url decoding inverts base64url encoding only for inputs whose length is a positive
  multiple of three. The encoder writes no padding and the decoder returns NULL when the number of
  characters is not a multiple of four, so every other encoding is refused.
\<close>

theorem base64url_roundtrip_limited:
  assumes "length src < 2 ^ 62"
  shows "\<exists>txt. rrr_base64url_encode True src = Inr (Some txt) \<and>
     rrr_base64url_decode True txt = Inr (if src \<noteq> [] \<and> length src mod 3 = 0 then Some src else None)"
proof -
  have "rrr_base64url_encode True src = Inr (Some (base64url_text src))"
    using rrr_base64url_encode_eq [of src True] assms by simp
  moreover have "rrr_base64url_decode True (base64url_text src) =
      Inr (if src \<noteq> [] \<and> length src mod 3 = 0 then Some src else None)"
  proof (cases "length src mod 3 = 0")
    case True
    then have "length src div 3 * 3 = length src" by auto
    moreover from this have "src \<noteq> [] \<Longrightarrow> 0 < length src div 3" by (cases "length src div 3") auto
    ultimately show ?thesis
      using True base64url_decode_text [of src "[]" "length src div 3 * 3"]
      by (cases "src = []") (auto simp: rrr_base64url_decode_def base64url_count_text base64_count_def [of _ "[]"] Let_def)
  next
    case False
    have "length src mod 3 < 3" by simp
    with False have "(length src div 3 * 4 + (length src mod 3 + 1)) mod 4 \<noteq> 0" by (simp add: mod_Suc)
    with False show ?thesis by (simp add: rrr_base64url_decode_def base64url_count_text Let_def)
  qed
  ultimately show ?thesis by blast
qed

theorem base64url_roundtrip_limited_witness:
  "\<exists>txt. rrr_base64url_encode True [0x52, 0x52] = Inr (Some txt) \<and> rrr_base64url_decode True txt = Inr None"
  using base64url_roundtrip_limited [of "[0x52, 0x52]"] by simp

end
