(* ===== verification/RRR_Parse.thy ===== *)
theory RRR_Parse
  imports RRR_Types
begin

text \<open>
  The text scanner, \<^verbatim>\<open>src/lib/parse.c\<close> and \<^verbatim>\<open>parse.h\<close>. The input is the memory object that
  \<open>data\<close> points to; it may be longer than \<open>size\<close> says, and a read outside it is \<open>Bad_Access\<close>. A C string
  is the list of its bytes without the terminating NUL. A buffer that a function changes in place
  is the list of the bytes before its terminator, of which the C string is the part before the first NUL.
  Every loop is a function with a termination proof, so each of them returns.
  The theory shows what the scanners accept as list functions on the remaining input
  (\<open>takeWhile\<close>, prefixes), the line counting, and that the in-place string functions compute what
  their names say. Writing a location message (\<^verbatim>\<open>rrr_parse_make_location_message\<close>) is text formatting and is
  not modelled.
\<close>

subsection \<open>Characters\<close>

definition RRR_PARSE_MATCH_SPACE_TAB :: rrr_length where "RRR_PARSE_MATCH_SPACE_TAB = 0x001"
definition RRR_PARSE_MATCH_COMMAS :: rrr_length where "RRR_PARSE_MATCH_COMMAS = 0x002"
definition RRR_PARSE_MATCH_LETTERS :: rrr_length where "RRR_PARSE_MATCH_LETTERS = 0x004"
definition RRR_PARSE_MATCH_HEX :: rrr_length where "RRR_PARSE_MATCH_HEX = 0x008"
definition RRR_PARSE_MATCH_NUMBERS :: rrr_length where "RRR_PARSE_MATCH_NUMBERS = 0x010"
definition RRR_PARSE_MATCH_NEWLINES :: rrr_length where "RRR_PARSE_MATCH_NEWLINES = 0x020"
definition RRR_PARSE_MATCH_NULL :: rrr_length where "RRR_PARSE_MATCH_NULL = 0x040"
definition RRR_PARSE_MATCH_END :: rrr_length where "RRR_PARSE_MATCH_END = 0x080"
definition RRR_PARSE_MATCH_DASH :: rrr_length where "RRR_PARSE_MATCH_DASH = 0x100"
definition RRR_PARSE_MATCH_CONTROL :: rrr_length where "RRR_PARSE_MATCH_CONTROL = 0x200"

lemmas match_flag_defs = RRR_PARSE_MATCH_SPACE_TAB_def RRR_PARSE_MATCH_COMMAS_def RRR_PARSE_MATCH_LETTERS_def
  RRR_PARSE_MATCH_HEX_def RRR_PARSE_MATCH_NUMBERS_def RRR_PARSE_MATCH_NEWLINES_def RRR_PARSE_MATCH_NULL_def
  RRR_PARSE_MATCH_END_def RRR_PARSE_MATCH_DASH_def RRR_PARSE_MATCH_CONTROL_def

definition RRR_PARSE_MATCH_NAME :: rrr_length where
  "RRR_PARSE_MATCH_NAME = RRR_PARSE_MATCH_LETTERS OR RRR_PARSE_MATCH_NUMBERS OR RRR_PARSE_MATCH_DASH"

definition RRR_PARSE_MATCH_C_SPACE_TAB :: "u8 \<Rightarrow> bool" where
  "RRR_PARSE_MATCH_C_SPACE_TAB c \<longleftrightarrow> c = 0x20 \<or> c = 0x09"

definition RRR_PARSE_MATCH_C_NEWLINES :: "u8 \<Rightarrow> bool" where
  "RRR_PARSE_MATCH_C_NEWLINES c \<longleftrightarrow> c = 0x0d \<or> c = 0x0a"

definition RRR_PARSE_MATCH_C_COMMAS :: "u8 \<Rightarrow> bool" where
  "RRR_PARSE_MATCH_C_COMMAS c \<longleftrightarrow> c = 0x2c \<or> c = 0x3b"

definition RRR_PARSE_MATCH_C_DASH :: "u8 \<Rightarrow> bool" where
  "RRR_PARSE_MATCH_C_DASH c \<longleftrightarrow> c = 0x2d"

definition RRR_PARSE_MATCH_C_LETTER :: "u8 \<Rightarrow> bool" where
  "RRR_PARSE_MATCH_C_LETTER c \<longleftrightarrow> 0x61 \<le> c \<and> c \<le> 0x7a \<or> 0x41 \<le> c \<and> c \<le> 0x5a \<or> c = 0x5f"

definition RRR_PARSE_MATCH_C_HEX :: "u8 \<Rightarrow> bool" where
  "RRR_PARSE_MATCH_C_HEX c \<longleftrightarrow> 0x61 \<le> c \<and> c \<le> 0x66 \<or> 0x41 \<le> c \<and> c \<le> 0x46 \<or> 0x30 \<le> c \<and> c \<le> 0x39"

definition RRR_PARSE_MATCH_C_NUMBER :: "u8 \<Rightarrow> bool" where
  "RRR_PARSE_MATCH_C_NUMBER c \<longleftrightarrow> 0x30 \<le> c \<and> c \<le> 0x39"

definition RRR_PARSE_MATCH_C_NULL :: "u8 \<Rightarrow> bool" where
  "RRR_PARSE_MATCH_C_NULL c \<longleftrightarrow> c = 0"

text \<open>
  The test for control characters is applied to a \<^verbatim>\<open>char\<close>, which is signed (the bytes from 0x80 on
  are negative and pass the test), except in \<^verbatim>\<open>__rrr_parse_is_control\<close>, which takes an \<^verbatim>\<open>unsigned char\<close>.
\<close>

definition RRR_PARSE_MATCH_C_CONTROL :: "u8 \<Rightarrow> bool" where
  "RRR_PARSE_MATCH_C_CONTROL c \<longleftrightarrow> sint c \<le> 0x1f"

definition rrr_parse_is_space_or_tab :: "u8 \<Rightarrow> bool" where
  "rrr_parse_is_space_or_tab c \<longleftrightarrow> RRR_PARSE_MATCH_C_SPACE_TAB c"

definition rrr_parse_is_spaces :: "u8 \<Rightarrow> bool" where
  "rrr_parse_is_spaces c \<longleftrightarrow> RRR_PARSE_MATCH_C_SPACE_TAB c \<or> RRR_PARSE_MATCH_C_NEWLINES c"

definition rrr_parse_is_control :: "u8 \<Rightarrow> bool" where
  "rrr_parse_is_control c \<longleftrightarrow> c \<le> 0x1f"

definition rrr_parse_match_char :: "u8 \<Rightarrow> rrr_length \<Rightarrow> bool" where
  "rrr_parse_match_char c flags \<longleftrightarrow>
     has_flag flags RRR_PARSE_MATCH_SPACE_TAB \<and> RRR_PARSE_MATCH_C_SPACE_TAB c \<or>
     has_flag flags RRR_PARSE_MATCH_COMMAS \<and> RRR_PARSE_MATCH_C_COMMAS c \<or>
     has_flag flags RRR_PARSE_MATCH_LETTERS \<and> RRR_PARSE_MATCH_C_LETTER c \<or>
     has_flag flags RRR_PARSE_MATCH_HEX \<and> RRR_PARSE_MATCH_C_HEX c \<or>
     has_flag flags RRR_PARSE_MATCH_NUMBERS \<and> RRR_PARSE_MATCH_C_NUMBER c \<or>
     has_flag flags RRR_PARSE_MATCH_NEWLINES \<and> RRR_PARSE_MATCH_C_NEWLINES c \<or>
     has_flag flags RRR_PARSE_MATCH_NULL \<and> RRR_PARSE_MATCH_C_NULL c \<or>
     has_flag flags RRR_PARSE_MATCH_DASH \<and> RRR_PARSE_MATCH_C_DASH c \<or>
     has_flag flags RRR_PARSE_MATCH_CONTROL \<and> RRR_PARSE_MATCH_C_CONTROL c"

subsection \<open>Positions\<close>

record parse_pos =
  data :: "u8 list"
  pos :: rrr_length
  psize :: rrr_length
  line :: rrr_length
  line_begin_pos :: rrr_length

definition rrr_parse_pos_init :: "u8 list \<Rightarrow> rrr_length \<Rightarrow> parse_pos" where
  "rrr_parse_pos_init d n = \<lparr>data = d, pos = 0, psize = n, line = 1, line_begin_pos = 0\<rparr>"

definition RRR_PARSE_CHECK_EOF :: "parse_pos \<Rightarrow> bool" where
  "RRR_PARSE_CHECK_EOF p \<longleftrightarrow> psize p \<le> pos p"

definition byte_at :: "parse_pos \<Rightarrow> rrr_length \<Rightarrow> u8 res" where
  "byte_at p i = (if unat i < length (data p) then Inr (data p ! unat i) else Inl Bad_Access)"

definition pos_inc :: "parse_pos \<Rightarrow> parse_pos" where
  "pos_inc p = p\<lparr>pos := pos p + 1\<rparr>"

lemma pos_inc_simps [simp]: "pos (pos_inc p) = pos p + 1" "psize (pos_inc p) = psize p" "data (pos_inc p) = data p"
  "line (pos_inc p) = line p" "line_begin_pos (pos_inc p) = line_begin_pos p"
  by (simp_all add: pos_inc_def)

lemma unat_inc: "(i :: rrr_length) < n \<Longrightarrow> unat (i + 1) = unat i + 1"
  using unat_bound [of n] by (simp add: unat_word_ariths(1) word_less_nat_alt)

lemma pos_inc_less: "pos p < psize p \<Longrightarrow> unat (psize p) - unat (pos p + 1) < unat (psize p) - unat (pos p)"
  using unat_inc [of "pos p" "psize p"] by (simp add: word_less_nat_alt)

text \<open>The quick functions do not check for the end of the input and do not count lines.\<close>

definition rrr_parse_quick_match_or_skip :: "parse_pos \<Rightarrow> u8 \<Rightarrow> (c_int \<times> parse_pos) res" where
  "rrr_parse_quick_match_or_skip p c =
     bindr (byte_at p (pos p)) (\<lambda>pos_c. Inr (if pos_c = c then 0 else 1, pos_inc p))"

definition rrr_parse_quick_match :: "parse_pos \<Rightarrow> u8 \<Rightarrow> (c_int \<times> parse_pos) res" where
  "rrr_parse_quick_match p c =
     bindr (byte_at p (pos p)) (\<lambda>pos_c. if pos_c = c then Inr (0, pos_inc p) else Inr (1, p))"

definition rrr_parse_quick_byte :: "parse_pos \<Rightarrow> (u8 \<times> parse_pos) res" where
  "rrr_parse_quick_byte p = bindr (byte_at p (pos p)) (\<lambda>c. Inr (c, pos_inc p))"

subsection \<open>Skipping\<close>

text \<open>The line bookkeeping at character \<open>c\<close>; of a Windows newline the first character is passed as well.\<close>

definition line_step :: "u8 \<Rightarrow> u8 \<Rightarrow> parse_pos \<Rightarrow> parse_pos" where
  "line_step c nxt p =
     (if c = 0x0d \<and> nxt = 0x0a then
        let p = pos_inc p in p\<lparr>line := line p + 1, line_begin_pos := pos p + 1\<rparr>
      else if c = 0x0a then p\<lparr>line := line p + 1, line_begin_pos := pos p + 1\<rparr>
      else if c = 0x0d then p\<lparr>line := line p + 1, line_begin_pos := pos p + 1\<rparr>
      else p)"

function ignore_and_increment_line_loop :: "(u8 \<Rightarrow> bool) \<Rightarrow> u8 \<Rightarrow> parse_pos \<Rightarrow> parse_pos res" where
  "ignore_and_increment_line_loop condition_cb c p =
     (if condition_cb c \<and> pos p < psize p then
        bindr (if pos p + 1 < psize p then byte_at p (pos p + 1) else Inr 0) (\<lambda>nxt.
        let p' = pos_inc (line_step c nxt p) in
        if RRR_PARSE_CHECK_EOF p' then Inr p'
        else bindr (byte_at p' (pos p')) (\<lambda>c'. ignore_and_increment_line_loop condition_cb c' p'))
      else Inr p)"
  by pat_completeness auto

lemma line_step_simps [simp]:
  "psize (line_step c nxt p) = psize p" "data (line_step c nxt p) = data p"
  "pos (line_step c nxt p) = (if c = 0x0d \<and> nxt = 0x0a then pos p + 1 else pos p)"
  by (simp_all add: line_step_def Let_def)

lemma unat_inc2: "(i :: rrr_length) + 1 < n \<Longrightarrow> i < n \<Longrightarrow> unat (i + 1 + 1) = unat i + 2"
  using unat_inc [of i n] unat_inc [of "i + 1" n] by simp

lemma line_step_less:
  assumes "pos p < psize p" "if pos p + 1 < psize p then byte_at p (pos p + 1) = Inr nxt else nxt = 0"
  shows "unat (pos p) < unat (pos (pos_inc (line_step c nxt p)))"
  using assms unat_inc [of "pos p" "psize p"] unat_inc2 [of "pos p" "psize p"] by (auto split: if_splits)

termination ignore_and_increment_line_loop
proof (relation "measure (\<lambda>(condition_cb, c, p). unat (psize p) - unat (pos p))", goal_cases)
  case (2 condition_cb c p nxt p' c')
  then have "unat (pos p) < unat (pos p')"
    using line_step_less [of p nxt c] by (auto split: if_splits)
  with 2 show ?case by (auto simp: word_less_nat_alt)
qed simp

definition rrr_parse_ignore_and_increment_line :: "(u8 \<Rightarrow> bool) \<Rightarrow> parse_pos \<Rightarrow> parse_pos res" where
  "rrr_parse_ignore_and_increment_line condition_cb p =
     (if psize p \<le> pos p then Inr p
      else bindr (byte_at p (pos p)) (\<lambda>c. ignore_and_increment_line_loop condition_cb c p))"

definition rrr_parse_ignore_space_and_tab :: "parse_pos \<Rightarrow> parse_pos res" where
  "rrr_parse_ignore_space_and_tab p = rrr_parse_ignore_and_increment_line rrr_parse_is_space_or_tab p"

definition rrr_parse_ignore_control_and_increment_line :: "parse_pos \<Rightarrow> parse_pos res" where
  "rrr_parse_ignore_control_and_increment_line p = rrr_parse_ignore_and_increment_line rrr_parse_is_control p"

definition rrr_parse_ignore_spaces_and_increment_line :: "parse_pos \<Rightarrow> parse_pos res" where
  "rrr_parse_ignore_spaces_and_increment_line p = rrr_parse_ignore_and_increment_line rrr_parse_is_spaces p"

text \<open>The loop reads the character after the one it passes, also after the last one.\<close>

function comment_loop :: "u8 \<Rightarrow> parse_pos \<Rightarrow> parse_pos res" where
  "comment_loop c p =
     (if c \<noteq> 0x0d \<and> c \<noteq> 0x0a \<and> pos p < psize p then
        bindr (byte_at (pos_inc p) (pos (pos_inc p))) (\<lambda>c. comment_loop c (pos_inc p))
      else Inr p)"
  by pat_completeness auto

termination comment_loop
  by (relation "measure (\<lambda>(c, p). unat (psize p) - unat (pos p))") (auto simp: pos_inc_less)

definition rrr_parse_comment :: "parse_pos \<Rightarrow> parse_pos res" where
  "rrr_parse_comment p =
     (if psize p \<le> pos p then Inr p
      else bindr (byte_at p (pos p)) (\<lambda>c.
           bindr (comment_loop c p) rrr_parse_ignore_spaces_and_increment_line))"

subsection \<open>Matching\<close>

fun match_word_case_loop :: "parse_pos \<Rightarrow> u8 list \<Rightarrow> (parse_pos \<times> u8 list) res" where
  "match_word_case_loop p (w # word) =
     (if pos p < psize p then
        bindr (byte_at p (pos p)) (\<lambda>c.
        let c_case = (if 0x61 \<le> c \<and> c \<le> 0x7a then c - 32 else if 0x41 \<le> c \<and> c \<le> 0x5a then c + 32 else 0) in
        if w \<noteq> c \<and> w \<noteq> c_case then Inr (p, w # word) else match_word_case_loop (pos_inc p) word)
      else Inr (p, w # word))"
| "match_word_case_loop p [] = Inr (p, [])"

definition rrr_parse_match_word_case :: "parse_pos \<Rightarrow> u8 list \<Rightarrow> (c_int \<times> parse_pos) res" where
  "rrr_parse_match_word_case p word =
     bindr (match_word_case_loop p word) (\<lambda>(p', rest).
     if rest = [] then Inr (1, p') else Inr (0, p'\<lparr>pos := pos p\<rparr>))"

fun match_word_loop :: "parse_pos \<Rightarrow> u8 list \<Rightarrow> (parse_pos \<times> u8 list) res" where
  "match_word_loop p (w # word) =
     (if pos p < psize p then
        bindr (byte_at p (pos p)) (\<lambda>c.
        if w \<noteq> c then Inr (p, w # word) else match_word_loop (pos_inc p) word)
      else Inr (p, w # word))"
| "match_word_loop p [] = Inr (p, [])"

definition rrr_parse_match_word :: "parse_pos \<Rightarrow> u8 list \<Rightarrow> (c_int \<times> parse_pos) res" where
  "rrr_parse_match_word p word =
     bindr (match_word_loop p word) (\<lambda>(p', rest).
     if rest = [] then Inr (1, p') else Inr (0, p'\<lparr>pos := pos p\<rparr>))"

function match_letters_simple_loop :: "c_int \<Rightarrow> parse_pos \<Rightarrow> (c_int \<times> parse_pos) res" where
  "match_letters_simple_loop ret p =
     (if \<not> RRR_PARSE_CHECK_EOF p then
        bindr (byte_at p (pos p)) (\<lambda>letter.
        if \<not> RRR_PARSE_MATCH_C_LETTER letter then Inr (ret, p)
        else match_letters_simple_loop 1 (pos_inc p))
      else Inr (ret, p))"
  by pat_completeness auto

termination match_letters_simple_loop
  by (relation "measure (\<lambda>(ret, p). unat (psize p) - unat (pos p))") (auto simp: pos_inc_less RRR_PARSE_CHECK_EOF_def not_le)

definition rrr_parse_match_letters_simple :: "parse_pos \<Rightarrow> (c_int \<times> parse_pos) res" where
  "rrr_parse_match_letters_simple p = match_letters_simple_loop 0 p"

function match_letters_peek_loop :: "rrr_length \<Rightarrow> parse_pos \<Rightarrow> parse_pos res" where
  "match_letters_peek_loop flags p =
     (if \<not> RRR_PARSE_CHECK_EOF p then
        bindr (byte_at p (pos p)) (\<lambda>c.
        if \<not> rrr_parse_match_char c flags then Inr p
        else bindr (rrr_length_inc_bug (pos p)) (\<lambda>_. match_letters_peek_loop flags (pos_inc p)))
      else Inr p)"
  by pat_completeness auto

termination match_letters_peek_loop
  by (relation "measure (\<lambda>(flags, p). unat (psize p) - unat (pos p))") (auto simp: pos_inc_less RRR_PARSE_CHECK_EOF_def not_le)

definition rrr_parse_match_letters_peek :: "parse_pos \<Rightarrow> rrr_length \<Rightarrow> rrr_length res" where
  "rrr_parse_match_letters_peek p flags =
     bindr (match_letters_peek_loop flags p) (\<lambda>pos_tmp. Inr (pos pos_tmp - pos p))"

text \<open>The functions with a start and an end return \<open>(start, end, position)\<close>.\<close>

definition rrr_parse_match_letters :: "parse_pos \<Rightarrow> rrr_length \<Rightarrow> (rrr_length \<times> rrr_slength \<times> parse_pos) res" where
  "rrr_parse_match_letters p flags =
     bindr (rrr_parse_match_letters_peek p flags) (\<lambda>n.
     bindr (rrr_length_add_bug (pos p) n) (\<lambda>pos'.
     Inr (pos p, int (unat pos') - 1, p\<lparr>pos := pos'\<rparr>)))"

function match_until_loop :: "rrr_length \<Rightarrow> u8 \<Rightarrow> parse_pos \<Rightarrow> (bool \<times> parse_pos) res" where
  "match_until_loop flags c p =
     (if \<not> RRR_PARSE_CHECK_EOF p then
        if rrr_parse_match_char c flags then Inr (True, p)
        else if RRR_PARSE_CHECK_EOF (pos_inc p) then Inr (has_flag flags RRR_PARSE_MATCH_END, pos_inc p)
        else bindr (byte_at (pos_inc p) (pos (pos_inc p))) (\<lambda>c. match_until_loop flags c (pos_inc p))
      else Inr (False, p))"
  by pat_completeness auto

termination match_until_loop
  by (relation "measure (\<lambda>(flags, c, p). unat (psize p) - unat (pos p))") (auto simp: pos_inc_less RRR_PARSE_CHECK_EOF_def not_le)

definition rrr_parse_match_until :: "parse_pos \<Rightarrow> rrr_length \<Rightarrow> (rrr_length \<times> rrr_slength \<times> parse_pos) res" where
  "rrr_parse_match_until p flags =
     bindr (byte_at p (pos p)) (\<lambda>c.
     bindr (match_until_loop flags c p) (\<lambda>(found, p').
     let p' = (if found then p' else p'\<lparr>pos := pos p\<rparr>) in
     Inr (pos p, int (unat (pos p')) - 1, p')))"

text \<open>The common loop of the next two functions, which pass characters until one meets a condition.\<close>

function parse_non_loop :: "(u8 \<Rightarrow> bool) \<Rightarrow> u8 \<Rightarrow> parse_pos \<Rightarrow> parse_pos res" where
  "parse_non_loop stop c p =
     (if \<not> RRR_PARSE_CHECK_EOF p then
        if stop c then Inr p
        else if RRR_PARSE_CHECK_EOF (pos_inc p) then Inr (pos_inc p)
        else bindr (byte_at (pos_inc p) (pos (pos_inc p))) (\<lambda>c. parse_non_loop stop c (pos_inc p))
      else Inr p)"
  by pat_completeness auto

termination parse_non_loop
  by (relation "measure (\<lambda>(stop, c, p). unat (psize p) - unat (pos p))") (auto simp: pos_inc_less RRR_PARSE_CHECK_EOF_def not_le)

definition rrr_parse_non_newline :: "parse_pos \<Rightarrow> (rrr_length \<times> rrr_slength \<times> parse_pos) res" where
  "rrr_parse_non_newline p =
     bindr (byte_at p (pos p)) (\<lambda>c.
     bindr (parse_non_loop (\<lambda>c. c = 0x0d \<or> c = 0x0a) c p) (\<lambda>p'.
     Inr (pos p, int (unat (pos p')) - 1, p')))"

definition rrr_parse_non_control :: "parse_pos \<Rightarrow> (rrr_length \<times> rrr_slength \<times> parse_pos) res" where
  "rrr_parse_non_control p =
     bindr (byte_at p (pos p)) (\<lambda>c.
     bindr (parse_non_loop RRR_PARSE_MATCH_C_CONTROL c p) (\<lambda>p'.
     Inr (pos p, int (unat (pos p')) - 1, p')))"

subsection \<open>Strings\<close>

definition bytes_between :: "parse_pos \<Rightarrow> nat \<Rightarrow> nat \<Rightarrow> u8 list res" where
  "bytes_between p start n = (if start + n \<le> length (data p) then Inr (take n (drop start (data p))) else Inl Bad_Access)"

definition rrr_parse_str_extract :: "bool \<Rightarrow> parse_pos \<Rightarrow> rrr_length \<Rightarrow> rrr_length \<Rightarrow> (c_int \<times> u8 list option) res" where
  "rrr_parse_str_extract have_memory p start n =
     bug_if (n = 0)
       (if \<not> have_memory then Inr (1, None)
        else bindr (bytes_between p (unat start) (unat n)) (\<lambda>bytes. Inr (0, Some bytes)))"

text \<open>\<open>None\<close>: too many elements.\<close>

primrec str_split_loop :: "nat \<Rightarrow> u8 \<Rightarrow> u8 list list \<Rightarrow> u8 list \<Rightarrow> u8 list \<Rightarrow> u8 list list option" where
  "str_split_loop elements_max chr elements element [] =
     (if length elements = elements_max then None else Some (elements @ [element]))"
| "str_split_loop elements_max chr elements element (c # str) =
     (if length elements = elements_max then None
      else if c = chr then str_split_loop elements_max chr (elements @ [element]) [] str
      else str_split_loop elements_max chr elements (element @ [c]) str)"

definition rrr_parse_str_split ::
    "bool \<Rightarrow> u8 list \<Rightarrow> u8 \<Rightarrow> rrr_length \<Rightarrow> (u8 list list \<Rightarrow> 's \<Rightarrow> c_int \<times> 's) \<Rightarrow> 's \<Rightarrow> c_int \<times> 's" where
  "rrr_parse_str_split have_memory str chr elements_max callback w =
     (if str = [] then callback [] w
      else if \<not> have_memory then (1, w)
      else case str_split_loop (unat elements_max) chr [] [] str of
             None \<Rightarrow> (1, w)
           | Some elements \<Rightarrow> callback elements w)"

text \<open>\<^verbatim>\<open>strchr\<close> also finds the terminator.\<close>

definition rrr_parse_str_extract_until :: "bool \<Rightarrow> u8 list \<Rightarrow> u8 \<Rightarrow> c_int \<times> (u8 list \<times> rrr_length) option" where
  "rrr_parse_str_extract_until have_memory str end_char =
     (if end_char \<notin> set str \<and> end_char \<noteq> 0 then (0, None)
      else let n = of_nat (length (takeWhile (\<lambda>c. c \<noteq> end_char) str)) in
        if \<not> have_memory then (1, None) else (0, Some (take (unat n) str, n)))"

definition rrr_parse_str_extract_name :: "bool \<Rightarrow> parse_pos \<Rightarrow> u8 \<Rightarrow> (c_int \<times> u8 list option \<times> parse_pos) res" where
  "rrr_parse_str_extract_name have_memory p end_char =
     bindr (rrr_parse_ignore_spaces_and_increment_line p) (\<lambda>p.
     if RRR_PARSE_CHECK_EOF p then Inr (0, None, p)
     else bindr (rrr_parse_match_letters p RRR_PARSE_MATCH_NAME) (\<lambda>(start, stop, p).
       if stop < int (unat start) then Inr (0, None, p)
       else bindr (rrr_parse_ignore_spaces_and_increment_line p) (\<lambda>p.
         bindr (if RRR_PARSE_CHECK_EOF p then Inr False else bindr (byte_at p (pos p)) (\<lambda>c. Inr (c = end_char))) (\<lambda>at_end.
         if \<not> at_end then Inr (1, None, p)
         else bindr (rrr_length_inc_bug (pos p)) (\<lambda>pos'. let p = p\<lparr>pos := pos'\<rparr> in
              bindr (rrr_length_from_slength_sub_bug_const stop (int (unat start))) (\<lambda>n.
              bindr (rrr_length_inc_bug_const n) (\<lambda>name_length.
              if \<not> have_memory then Inr (1, None, p)
              else bindr (bytes_between p (unat start) (unat name_length)) (\<lambda>name. Inr (0, Some name, p)))))))))"

function strip_skip :: "u8 list \<Rightarrow> nat \<Rightarrow> nat \<Rightarrow> nat" where
  "strip_skip str i skip_count =
     (if skip_count + i < length str \<and> (str ! (i + skip_count) = 0x0d \<or> str ! (i + skip_count) = 0x0a)
      then strip_skip str i (skip_count + 1) else skip_count)"
  by pat_completeness auto

termination strip_skip
  by (relation "measure (\<lambda>(str, i, skip_count). length str - (skip_count + i))") auto

function strip_newlines_loop :: "nat \<Rightarrow> nat \<Rightarrow> u8 list \<Rightarrow> u8 list" where
  "strip_newlines_loop i skip_count str =
     (if i < length str then
        let skip_count = strip_skip str i skip_count in
        if skip_count + i \<ge> length str then str[i := 0]
        else strip_newlines_loop (i + 1) skip_count (str[i := str ! (i + skip_count)])
      else str)"
  by pat_completeness auto

termination strip_newlines_loop
  by (relation "measure (\<lambda>(i, skip_count, str). length str - i)") auto

definition rrr_parse_str_strip_newlines :: "u8 list \<Rightarrow> u8 list" where
  "rrr_parse_str_strip_newlines str = strip_newlines_loop 0 0 str"

text \<open>The loop runs backwards over the \<open>k\<close> characters that are left.\<close>

primrec str_trim_loop :: "nat \<Rightarrow> u8 list \<Rightarrow> u8 list" where
  "str_trim_loop 0 str = str"
| "str_trim_loop (Suc k) str =
     (if str ! k = 0x20 \<or> str ! k = 0x0d \<or> str ! k = 0x0a \<or> str ! k = 0x09
      then str_trim_loop k (str[k := 0]) else str)"

definition rrr_parse_str_trim :: "u8 list \<Rightarrow> u8 list" where
  "rrr_parse_str_trim str = str_trim_loop (length str) str"

declare ignore_and_increment_line_loop.simps [simp del] comment_loop.simps [simp del]
  match_letters_simple_loop.simps [simp del] match_letters_peek_loop.simps [simp del] match_until_loop.simps [simp del]
  parse_non_loop.simps [simp del] strip_skip.simps [simp del] strip_newlines_loop.simps [simp del]

subsection \<open>The remaining input\<close>

definition pos_ok :: "parse_pos \<Rightarrow> bool" where
  "pos_ok p \<longleftrightarrow> unat (psize p) \<le> length (data p) \<and> pos p \<le> psize p"

definition rest :: "parse_pos \<Rightarrow> u8 list" where
  "rest p = drop (unat (pos p)) (take (unat (psize p)) (data p))"

definition adv :: "nat \<Rightarrow> parse_pos \<Rightarrow> parse_pos" where
  "adv n p = p\<lparr>pos := pos p + of_nat n\<rparr>"

lemma adv_simps [simp]: "adv 0 p = p" "adv (Suc 0) p = pos_inc p" "adv n (pos_inc p) = adv (Suc n) p" "(adv n p)\<lparr>pos := x\<rparr> = p\<lparr>pos := x\<rparr>"
  "(pos_inc p)\<lparr>pos := x\<rparr> = p\<lparr>pos := x\<rparr>"
  by (simp_all add: adv_def pos_inc_def algebra_simps)

lemma rest_eof: "pos_ok p \<Longrightarrow> psize p \<le> pos p \<longleftrightarrow> rest p = []"
  by (auto simp: pos_ok_def rest_def word_le_nat_alt)

lemma rest_step:
  assumes "pos_ok p" "rest p = c # cs"
  shows "byte_at p (pos p) = Inr c" "rest (pos_inc p) = cs" "pos_ok (pos_inc p)" "pos p < psize p"
    "unat (pos p + 1) = Suc (unat (pos p))"
proof -
  have l: "unat (psize p) \<le> length (data p)" "pos p \<le> psize p" using assms(1) by (simp_all add: pos_ok_def)
  show less: "pos p < psize p" using assms rest_eof [OF assms(1)] by (simp add: not_le [symmetric])
  then have n: "unat (pos p) < unat (psize p)" by (simp add: word_less_nat_alt)
  show u: "unat (pos p + 1) = Suc (unat (pos p))" using unat_inc [OF less] by simp
  have "rest p = data p ! unat (pos p) # drop (Suc (unat (pos p))) (take (unat (psize p)) (data p))"
    unfolding rest_def using n l by (subst Cons_nth_drop_Suc [symmetric]) simp_all
  with assms(2) have c: "c = data p ! unat (pos p)" "cs = drop (Suc (unat (pos p))) (take (unat (psize p)) (data p))"
    by simp_all
  show "byte_at p (pos p) = Inr c" using n l c(1) by (simp add: byte_at_def)
  show "rest (pos_inc p) = cs" using c(2) u by (simp add: rest_def)
  show "pos_ok (pos_inc p)" using l n u by (simp add: pos_ok_def word_le_nat_alt)
qed

lemma rest_nil: "pos_ok p \<Longrightarrow> rest p = [] \<Longrightarrow> RRR_PARSE_CHECK_EOF p \<and> \<not> pos p < psize p"
  using rest_eof [of p] by (simp add: RRR_PARSE_CHECK_EOF_def not_less)

lemma rest_cons: "pos_ok p \<Longrightarrow> rest p = c # cs \<Longrightarrow> \<not> RRR_PARSE_CHECK_EOF p"
  using rest_eof [of p] by (simp add: RRR_PARSE_CHECK_EOF_def)

lemma rest_length: "pos_ok p \<Longrightarrow> length (rest p) = unat (psize p) - unat (pos p)"
  by (simp add: rest_def pos_ok_def)

lemma pos_ok_init: "unat n \<le> length d \<Longrightarrow> pos_ok (rrr_parse_pos_init d n)"
  "rest (rrr_parse_pos_init d n) = take (unat n) d"
  by (simp_all add: pos_ok_def rest_def rrr_parse_pos_init_def)

lemma adv_ok:
  assumes "pos_ok p" "n \<le> length (rest p)"
  shows "pos_ok (adv n p) \<and> rest (adv n p) = drop n (rest p) \<and> unat (pos (adv n p)) = unat (pos p) + n"
proof -
  have "unat (pos p) + n \<le> unat (psize p)" using assms rest_length [OF assms(1)]
    by (auto simp: pos_ok_def word_le_nat_alt)
  moreover from this have "unat (pos p + of_nat n) = unat (pos p) + n"
    using unat_bound [of "psize p"] by (simp add: unat_word_ariths(1) unat_of_nat)
  ultimately show ?thesis using assms(1) by (simp add: pos_ok_def rest_def adv_def word_le_nat_alt add.commute)
qed

lemma adv_uint: "pos_ok p \<Longrightarrow> n \<le> length (rest p) \<Longrightarrow> uint (pos (adv n p)) = uint (pos p) + int n"
  using adv_ok [of p n] unfolding uint_nat by simp

subsection \<open>Runs of characters\<close>

lemma match_letters_simple_loop_ok:
  "pos_ok p \<Longrightarrow> match_letters_simple_loop ret p =
     Inr (if takeWhile RRR_PARSE_MATCH_C_LETTER (rest p) = [] then ret else 1,
          adv (length (takeWhile RRR_PARSE_MATCH_C_LETTER (rest p))) p)"
proof (induction ret p rule: match_letters_simple_loop.induct)
  case (1 ret p)
  show ?case
  proof (cases "rest p")
    case Nil
    with 1(2) rest_nil show ?thesis by (subst match_letters_simple_loop.simps) simp
  next
    case (Cons c cs)
    note st = rest_step [OF 1(2) Cons] rest_cons [OF 1(2) Cons]
    show ?thesis
    proof (cases "RRR_PARSE_MATCH_C_LETTER c")
      case True
      with 1(1) [OF st(6,1)] st Cons show ?thesis by (subst match_letters_simple_loop.simps) simp
    next
      case False
      with st Cons show ?thesis by (subst match_letters_simple_loop.simps) simp
    qed
  qed
qed

lemma match_letters_peek_loop_ok:
  "pos_ok p \<Longrightarrow> match_letters_peek_loop flags p =
     Inr (adv (length (takeWhile (\<lambda>c. rrr_parse_match_char c flags) (rest p))) p)"
proof (induction flags p rule: match_letters_peek_loop.induct)
  case (1 flags p)
  show ?case
  proof (cases "rest p")
    case Nil
    with 1(2) rest_nil show ?thesis by (subst match_letters_peek_loop.simps) simp
  next
    case (Cons c cs)
    note st = rest_step [OF 1(2) Cons] rest_cons [OF 1(2) Cons]
    have inc: "rrr_length_inc_bug (pos p) = Inr (pos p + 1)"
      using st(5) by (simp add: rrr_length_inc_bug_def Let_def) (metis nat.simps(3) unat_0)
    show ?thesis
    proof (cases "rrr_parse_match_char c flags")
      case True
      with 1(1) [OF st(6,1) _ inc] st Cons inc show ?thesis by (subst match_letters_peek_loop.simps) simp
    next
      case False
      with st Cons show ?thesis by (subst match_letters_peek_loop.simps) simp
    qed
  qed
qed

lemma parse_non_loop_ok:
  "pos_ok p \<Longrightarrow> rest p = c # cs \<Longrightarrow>
   parse_non_loop stop c p = Inr (adv (length (takeWhile (\<lambda>c. \<not> stop c) (rest p))) p)"
proof (induction stop c p arbitrary: cs rule: parse_non_loop.induct)
  case (1 stop c p)
  note st = rest_step [OF 1(2,3)] rest_cons [OF 1(2,3)]
  show ?case
  proof (cases cs)
    case Nil
    with st rest_nil [OF st(3)] 1(3) show ?thesis by (subst parse_non_loop.simps) simp
  next
    case (Cons d ds)
    with st have r: "rest (pos_inc p) = d # ds" by simp
    note st' = rest_step [OF st(3) r] rest_cons [OF st(3) r]
    show ?thesis
    proof (cases "stop c")
      case True
      with st 1(3) show ?thesis by (subst parse_non_loop.simps) simp
    next
      case False
      with 1(1) [OF st(6) False st'(6,1) st(3) r] st st' r 1(3) Cons show ?thesis
        by (subst parse_non_loop.simps) simp
    qed
  qed
qed

lemma match_until_loop_ok:
  "pos_ok p \<Longrightarrow> rest p = c # cs \<Longrightarrow>
   match_until_loop flags c p =
     (let n = length (takeWhile (\<lambda>c. \<not> rrr_parse_match_char c flags) (rest p)) in
      Inr (n < length (rest p) \<or> has_flag flags RRR_PARSE_MATCH_END, adv n p))"
proof (induction flags c p arbitrary: cs rule: match_until_loop.induct)
  case (1 flags c p)
  note st = rest_step [OF 1(2,3)] rest_cons [OF 1(2,3)]
  show ?case
  proof (cases cs)
    case Nil
    with st rest_nil [OF st(3)] 1(3) show ?thesis by (subst match_until_loop.simps) (simp add: Let_def)
  next
    case (Cons d ds)
    with st have r: "rest (pos_inc p) = d # ds" by simp
    note st' = rest_step [OF st(3) r] rest_cons [OF st(3) r]
    show ?thesis
    proof (cases "rrr_parse_match_char c flags")
      case True
      with st 1(3) show ?thesis by (subst match_until_loop.simps) (simp add: Let_def)
    next
      case False
      with 1(1) [OF st(6) False st'(6,1) st(3) r] st st' r 1(3) Cons show ?thesis
        by (subst match_until_loop.simps) (simp add: Let_def)
    qed
  qed
qed

subsection \<open>Words\<close>

text \<open>The comparison of two characters, and of their runs, up to the case of letters.\<close>

definition case_swap :: "u8 \<Rightarrow> u8" where
  "case_swap c = (if 0x61 \<le> c \<and> c \<le> 0x7a then c - 32 else if 0x41 \<le> c \<and> c \<le> 0x5a then c + 32 else 0)"

lemma match_word_loop_ok:
  "pos_ok p \<Longrightarrow> \<exists>p' r. match_word_loop p word = Inr (p', r) \<and> (\<forall>x. p'\<lparr>pos := x\<rparr> = p\<lparr>pos := x\<rparr>) \<and>
     (r = [] \<longleftrightarrow> take (length word) (rest p) = word) \<and> (r = [] \<longrightarrow> p' = adv (length word) p)"
proof (induction p word rule: match_word_loop.induct)
  case (1 p w word)
  show ?case
  proof (cases "rest p")
    case Nil
    with 1(2) rest_nil show ?thesis by auto
  next
    case (Cons c cs)
    note st = rest_step [OF 1(2) Cons]
    show ?thesis
    proof (cases "w = c")
      case True
      with 1(1) [OF st(4,1) _ st(3)] st Cons show ?thesis by auto
    next
      case False
      with st Cons show ?thesis by auto
    qed
  qed
qed simp

lemma match_word_case_loop_ok:
  "pos_ok p \<Longrightarrow> \<exists>p' r. match_word_case_loop p word = Inr (p', r) \<and> (\<forall>x. p'\<lparr>pos := x\<rparr> = p\<lparr>pos := x\<rparr>) \<and>
     (r = [] \<longleftrightarrow> list_all2 (\<lambda>w c. w = c \<or> w = case_swap c) word (take (length word) (rest p))) \<and>
     (r = [] \<longrightarrow> p' = adv (length word) p)"
proof (induction p word rule: match_word_case_loop.induct)
  case (1 p w word)
  show ?case
  proof (cases "rest p")
    case Nil
    with 1(2) rest_nil show ?thesis by auto
  next
    case (Cons c cs)
    note st = rest_step [OF 1(2) Cons]
    show ?thesis
    proof (cases "w = c \<or> w = case_swap c")
      case True
      with 1(1) [OF st(4,1) refl _ st(3), folded case_swap_def] st Cons show ?thesis
        by (auto simp: Let_def simp flip: case_swap_def)
    next
      case False
      with st Cons show ?thesis by (auto simp: Let_def simp flip: case_swap_def)
    qed
  qed
qed simp

subsection \<open>Lines\<close>

text \<open>The line breaks of a text, a carriage return with a line feed being one, and the begin of its last line.\<close>

fun line_breaks :: "u8 list \<Rightarrow> nat" where
  "line_breaks [] = 0"
| "line_breaks [x] = (if RRR_PARSE_MATCH_C_NEWLINES x then 1 else 0)"
| "line_breaks (x # y # xs) =
     (if x = 0x0d \<and> y = 0x0a then Suc (line_breaks xs)
      else (if RRR_PARSE_MATCH_C_NEWLINES x then 1 else 0) + line_breaks (y # xs))"

primrec line_begin :: "rrr_length \<Rightarrow> rrr_length \<Rightarrow> u8 list \<Rightarrow> rrr_length" where
  "line_begin i b [] = b"
| "line_begin i b (x # xs) = line_begin (i + 1) (if RRR_PARSE_MATCH_C_NEWLINES x then i + 1 else b) xs"

definition skip_text :: "u8 list \<Rightarrow> parse_pos \<Rightarrow> parse_pos" where
  "skip_text xs p = p\<lparr>pos := pos p + of_nat (length xs), line := line p + of_nat (line_breaks xs),
     line_begin_pos := line_begin (pos p) (line_begin_pos p) xs\<rparr>"

lemma one_line:
  assumes "\<forall>x \<in> set xs. \<not> RRR_PARSE_MATCH_C_NEWLINES x"
  shows "line_breaks xs = 0" "line_begin i b xs = b"
proof -
  show "line_breaks xs = 0"
    using assms by (induction xs rule: line_breaks.induct) (auto simp: RRR_PARSE_MATCH_C_NEWLINES_def)
  show "line_begin i b xs = b" using assms by (induction xs arbitrary: i) auto
qed

lemma skip_text_Nil [simp]: "skip_text [] p = p"
  by (simp add: skip_text_def)

lemma skip_text_crlf: "skip_text (0x0d # 0x0a # xs) p = skip_text xs (pos_inc (line_step 0x0d 0x0a p))"
  by (simp add: skip_text_def line_step_def pos_inc_def Let_def RRR_PARSE_MATCH_C_NEWLINES_def algebra_simps)

lemma skip_text_Cons:
  assumes "\<not> (c = 0x0d \<and> nxt = 0x0a)" "xs = [] \<or> hd xs = nxt \<or> c \<noteq> 0x0d \<or> hd xs \<noteq> 0x0a"
  shows "skip_text (c # xs) p = skip_text xs (pos_inc (line_step c nxt p))"
  using assms
  by (cases xs) (auto simp: skip_text_def line_step_def pos_inc_def Let_def RRR_PARSE_MATCH_C_NEWLINES_def algebra_simps)

lemma ignore_loop_ok:
  assumes "cond 0x0d \<longrightarrow> cond 0x0a"
  shows "pos_ok p \<Longrightarrow> rest p = c # cs \<Longrightarrow>
    ignore_and_increment_line_loop cond c p = Inr (skip_text (takeWhile cond (rest p)) p)"
  using assms
proof (induction cond c p arbitrary: cs rule: ignore_and_increment_line_loop.induct)
  case (1 cond c p)
  note st = rest_step [OF 1(2,3)]
  show ?case
  proof (cases "cond c")
    case False
    with 1(3) show ?thesis by (subst ignore_and_increment_line_loop.simps) simp
  next
    case c: True
    have step: "ignore_and_increment_line_loop cond c p = (let p' = pos_inc (line_step c nxt p) in
        if RRR_PARSE_CHECK_EOF p' then Inr p'
        else bindr (byte_at p' (pos p')) (\<lambda>c'. ignore_and_increment_line_loop cond c' p'))"
      if "(if pos p + 1 < psize p then byte_at p (pos p + 1) else Inr 0) = Inr nxt" for nxt
      using that c st(4) by (subst ignore_and_increment_line_loop.simps) (simp add: Let_def)
    have frame: "pos_ok (pos_inc (line_step c nxt p)) \<and> rest (pos_inc (line_step c nxt p)) = r"
      if "pos_ok q" "rest q = r" "pos q = pos (pos_inc (line_step c nxt p))" "psize q = psize p" "data q = data p" for q r nxt
      using that by (simp add: pos_ok_def rest_def)
    show ?thesis
    proof (cases cs)
      case Nil
      with st rest_nil [of "pos_inc p"] have n: "\<not> pos p + 1 < psize p" by simp
      then have "pos_inc (line_step c 0 p) = skip_text [c] p" by (simp add: skip_text_Cons [of c 0])
      moreover have "RRR_PARSE_CHECK_EOF (pos_inc (line_step c 0 p))" using n by (simp add: RRR_PARSE_CHECK_EOF_def not_less)
      ultimately show ?thesis using step [of 0] n c Nil 1(3) by simp
    next
      case (Cons d ds)
      with st have r1: "rest (pos_inc p) = d # ds" by simp
      note st1 = rest_step [OF st(3) r1]
      have nxt: "(if pos p + 1 < psize p then byte_at p (pos p + 1) else Inr 0) = Inr d"
        using st1(1,4) by (simp add: byte_at_def split: if_splits)
      show ?thesis
      proof (cases "c = 0x0d \<and> d = 0x0a")
        case True
        let ?q = "pos_inc (line_step c d p)"
        have q: "pos_ok ?q" "rest ?q = ds" using frame [of "pos_inc (pos_inc p)" ds d] st1 True by simp_all
        have tw: "takeWhile cond (rest p) = 0x0d # 0x0a # takeWhile cond ds" using 1(3) Cons True c 1(4) by auto
        show ?thesis
        proof (cases ds)
          case Nil
          with rest_nil [OF q(1)] q(2) step [OF nxt] tw True show ?thesis by (simp add: skip_text_crlf)
        next
          case (Cons e es)
          with q have r: "rest ?q = e # es" by simp
          note sq = rest_step [OF q(1) r] rest_cons [OF q(1) r]
          have "ignore_and_increment_line_loop cond c p = ignore_and_increment_line_loop cond e ?q"
            using step [OF nxt] sq by (simp add: Let_def)
          also have "\<dots> = Inr (skip_text (takeWhile cond (rest ?q)) ?q)"
            using 1(1) [OF _ nxt refl sq(6) _ q(1) r 1(4)] c st(4) sq(1) by simp
          finally show ?thesis using tw True q(2) skip_text_crlf [of "takeWhile cond ds" p] by simp
        qed
      next
        case False
        let ?q = "pos_inc (line_step c d p)"
        have q: "pos_ok ?q" "rest ?q = d # ds" using frame [of "pos_inc p" "d # ds" d] st r1 False by simp_all
        note sq = rest_step [OF q] rest_cons [OF q]
        have "ignore_and_increment_line_loop cond c p = ignore_and_increment_line_loop cond d ?q"
          using step [OF nxt] sq by (simp add: Let_def)
        also have "\<dots> = Inr (skip_text (takeWhile cond (rest ?q)) ?q)"
          using 1(1) [OF _ nxt refl sq(6) _ q 1(4)] c st(4) sq(1) by simp
        finally show ?thesis
          using 1(3) Cons c q(2) skip_text_Cons [OF False, of "takeWhile cond (d # ds)" p]
          by (cases "cond d") auto
      qed
    qed
  qed
qed

lemma ignore_ok:
  assumes "pos_ok p" "cond 0x0d \<longrightarrow> cond 0x0a"
  shows "rrr_parse_ignore_and_increment_line cond p = Inr (skip_text (takeWhile cond (rest p)) p)"
proof (cases "rest p")
  case Nil
  with rest_eof [OF assms(1)] show ?thesis by (simp add: rrr_parse_ignore_and_increment_line_def)
next
  case (Cons c cs)
  with rest_step [OF assms(1) Cons] ignore_loop_ok [OF assms(2,1) Cons] rest_eof [OF assms(1)] show ?thesis
    by (simp add: rrr_parse_ignore_and_increment_line_def)
qed

lemma skip_text_ok:
  assumes "pos_ok p" "length xs \<le> length (rest p)"
  shows "pos_ok (skip_text xs p) \<and> rest (skip_text xs p) = drop (length xs) (rest p) \<and> data (skip_text xs p) = data p \<and>
     unat (pos (skip_text xs p)) = unat (pos p) + length xs"
  using adv_ok [OF assms] by (simp add: skip_text_def adv_def pos_ok_def rest_def add.commute)

subsection \<open>Splitting, stripping, trimming\<close>

text \<open>Joining with a separator, the inverse of splitting.\<close>

fun join :: "u8 \<Rightarrow> u8 list list \<Rightarrow> u8 list" where
  "join chr [] = []"
| "join chr [e] = e"
| "join chr (e # es) = e @ chr # join chr es"

lemma join_snoc: "join chr (es @ [a, b]) = join chr (es @ [a]) @ chr # b"
proof (induction es)
  case (Cons e es)
  then show ?case by (cases es) auto
qed simp

lemma join_snoc_app: "join chr (es @ [a @ [c]]) = join chr (es @ [a]) @ [c]"
proof (induction es)
  case (Cons e es)
  then show ?case by (cases es) auto
qed simp

lemma str_split_loop_ok:
  "\<forall>e \<in> set (elements @ [element]). chr \<notin> set e \<Longrightarrow> length elements \<le> m \<Longrightarrow>
   (case str_split_loop m chr elements element str of
      None \<Rightarrow> m < length elements + count_list str chr + 1
    | Some es \<Rightarrow> join chr es = join chr (elements @ [element]) @ str \<and> (\<forall>e \<in> set es. chr \<notin> set e) \<and>
        length es = length elements + count_list str chr + 1 \<and> length es \<le> m)"
proof (induction str arbitrary: elements element)
  case Nil
  then show ?case by auto
next
  case (Cons c str)
  show ?case
  proof (cases "length elements = m")
    case True
    then show ?thesis by simp
  next
    case room: False
    show ?thesis
    proof (cases "c = chr")
      case True
      with Cons.IH [of "elements @ [element]" "[]"] Cons.prems room show ?thesis
        by (auto simp: join_snoc split: option.splits)
    next
      case False
      with Cons.IH [of elements "element @ [c]"] Cons.prems room show ?thesis
        by (auto simp: join_snoc_app split: option.splits)
    qed
  qed
qed

abbreviation newline_free :: "u8 list \<Rightarrow> u8 list" where
  "newline_free \<equiv> filter (\<lambda>c. \<not> RRR_PARSE_MATCH_C_NEWLINES c)"

lemma strip_skip_ok:
  "skip + i \<le> length str \<Longrightarrow> skip \<le> strip_skip str i skip \<and> strip_skip str i skip + i \<le> length str \<and>
   newline_free (drop (i + skip) str) = newline_free (drop (i + strip_skip str i skip) str) \<and>
   (strip_skip str i skip + i < length str \<longrightarrow> \<not> RRR_PARSE_MATCH_C_NEWLINES (str ! (i + strip_skip str i skip)))"
proof (induction str i skip rule: strip_skip.induct)
  case (1 str i skip)
  show ?case
  proof (cases "skip + i < length str \<and> (str ! (i + skip) = 0x0d \<or> str ! (i + skip) = 0x0a)")
    case True
    then have "drop (i + skip) str = str ! (i + skip) # drop (Suc (i + skip)) str"
      by (simp add: Cons_nth_drop_Suc add.commute)
    moreover have "strip_skip str i skip = strip_skip str i (skip + 1)"
      using True by (subst strip_skip.simps) simp
    ultimately show ?thesis using 1(1) [OF True] True by (auto simp: RRR_PARSE_MATCH_C_NEWLINES_def)
  next
    case False
    then have "strip_skip str i skip = skip" by (subst strip_skip.simps) (simp only: if_False)
    with False 1(2) show ?thesis by (auto simp: RRR_PARSE_MATCH_C_NEWLINES_def add.commute)
  qed
qed

lemma takeWhile_nul: "0 \<notin> set xs \<Longrightarrow> takeWhile (\<lambda>c. c \<noteq> 0) (xs @ 0 # ys) = (xs :: u8 list)"
  by (simp add: takeWhile_append)

lemma strip_newlines_loop_ok:
  "i \<le> length str \<Longrightarrow> skip + i \<le> length str \<or> i = length str \<Longrightarrow> 0 \<notin> set (take i str) \<Longrightarrow> 0 \<notin> set (drop (i + skip) str) \<Longrightarrow>
   takeWhile (\<lambda>c. c \<noteq> 0) (strip_newlines_loop i skip str) = take i str @ newline_free (drop (i + skip) str)"
proof (induction i skip str rule: strip_newlines_loop.induct)
  case (1 i skip str)
  show ?case
  proof (cases "i < length str")
    case False
    with 1 show ?thesis by (subst strip_newlines_loop.simps) (auto simp: takeWhile_eq_all_conv)
  next
    case True
    let ?s = "strip_skip str i skip"
    have s: "skip \<le> ?s" "?s + i \<le> length str" "newline_free (drop (i + skip) str) = newline_free (drop (i + ?s) str)"
      "?s + i < length str \<longrightarrow> \<not> RRR_PARSE_MATCH_C_NEWLINES (str ! (i + ?s))"
      using strip_skip_ok [of skip i str] 1(3) True by auto
    show ?thesis
    proof (cases "?s + i \<ge> length str")
      case fin: True
      have "str[i := 0] = take i str @ 0 # drop (Suc i) str" using True by (simp add: upd_conv_take_nth_drop)
      with fin True 1(4) s(3) show ?thesis
        by (subst strip_newlines_loop.simps) (simp add: Let_def takeWhile_nul add.commute)
    next
      case False
      let ?c = "str ! (i + ?s)" and ?str = "str[i := str ! (i + ?s)]"
      have d: "drop (i + ?s) str = ?c # drop (Suc (i + ?s)) str" using False by (simp add: Cons_nth_drop_Suc add.commute)
      have sub: "set (drop (i + ?s) str) \<subseteq> set (drop (i + skip) str)" using s(1) by (intro set_drop_subset_set_drop) simp
      have t: "take (i + 1) ?str = take i str @ [?c]" using True by (simp add: take_Suc_conv_app_nth)
      have dr: "drop (i + 1 + ?s) ?str = drop (Suc (i + ?s)) str" by simp
      have z: "0 \<notin> set (take (i + 1) ?str)" "0 \<notin> set (drop (i + 1 + ?s) ?str)"
        unfolding t dr using 1(4,5) sub d by auto
      have "takeWhile (\<lambda>c. c \<noteq> 0) (strip_newlines_loop (i + 1) ?s ?str) = take (i + 1) ?str @ newline_free (drop (i + 1 + ?s) ?str)"
        using 1(1) [OF True refl False _ _ z] True False by simp
      also have "\<dots> = take i str @ newline_free (drop (i + skip) str)"
        unfolding t dr s(3) d using s(4) False by (simp add: add.commute)
      finally show ?thesis using True False by (subst strip_newlines_loop.simps) (simp add: Let_def)
    qed
  qed
qed

abbreviation trim_space :: "u8 \<Rightarrow> bool" where
  "trim_space c \<equiv> c = 0x20 \<or> c = 0x0d \<or> c = 0x0a \<or> c = 0x09"

lemma str_trim_loop_ok:
  "0 \<notin> set xs \<Longrightarrow> takeWhile (\<lambda>c. c \<noteq> 0) (str_trim_loop (length xs) (xs @ replicate n 0)) = rev (dropWhile trim_space (rev xs))"
proof (induction xs arbitrary: n rule: rev_induct)
  case Nil
  then show ?case by (cases n) simp_all
next
  case (snoc x xs)
  have "(xs @ x # replicate n 0)[length xs := 0] = xs @ replicate (Suc n) 0" by (simp add: list_update_append)
  moreover have "takeWhile (\<lambda>c. c \<noteq> 0) (xs @ x # replicate n 0) = xs @ [x]"
    using snoc.prems by (cases n) (simp_all add: takeWhile_append)
  ultimately show ?case using snoc.IH [of "Suc n"] snoc.prems by (auto simp: nth_append)
qed

subsection \<open>Comments\<close>

abbreviation not_newline :: "u8 \<Rightarrow> bool" where
  "not_newline c \<equiv> \<not> RRR_PARSE_MATCH_C_NEWLINES c"

text \<open>The loop needs one more readable byte after the input, unless there is a newline.\<close>

lemma comment_loop_ok:
  "pos_ok p \<Longrightarrow> byte_at p (pos p) = Inr c \<Longrightarrow>
   (unat (psize p) < length (data p) \<or> (\<exists>x \<in> set (rest p). RRR_PARSE_MATCH_C_NEWLINES x) \<longrightarrow>
      comment_loop c p = Inr (adv (length (takeWhile not_newline (rest p))) p)) \<and>
   (unat (psize p) = length (data p) \<and> (\<forall>x \<in> set (rest p). not_newline x) \<and> rest p \<noteq> [] \<longrightarrow>
      comment_loop c p = Inl Bad_Access)"
proof (induction c p rule: comment_loop.induct)
  case (1 c p)
  show ?case
  proof (cases "rest p")
    case Nil
    with rest_nil [OF 1(2)] show ?thesis by (subst (1 2) comment_loop.simps) simp
  next
    case (Cons d cs)
    note st = rest_step [OF 1(2) Cons]
    with 1(3) have d: "d = c" by simp
    show ?thesis
    proof (cases "RRR_PARSE_MATCH_C_NEWLINES c")
      case True
      with Cons d show ?thesis by (subst (1 2) comment_loop.simps) (auto simp: RRR_PARSE_MATCH_C_NEWLINES_def)
    next
      case False
      then have c: "c \<noteq> 0x0d" "c \<noteq> 0x0a" by (simp_all add: RRR_PARSE_MATCH_C_NEWLINES_def)
      have step: "comment_loop c p = bindr (byte_at (pos_inc p) (pos (pos_inc p))) (\<lambda>c. comment_loop c (pos_inc p))"
        using c st(4) by (subst comment_loop.simps) simp
      show ?thesis
      proof (cases "byte_at (pos_inc p) (pos (pos_inc p))")
        case (Inl e)
        then have "e = Bad_Access" "length (data p) \<le> Suc (unat (pos p))"
          using st(5) by (auto simp: byte_at_def split: if_splits)
        moreover have "Suc (unat (pos p)) \<le> unat (psize p)" using st(4) by (simp add: word_less_nat_alt)
        moreover have "unat (psize p) \<le> length (data p)" using 1(2) by (simp add: pos_ok_def)
        ultimately have e: "e = Bad_Access" "unat (psize p) = length (data p)" "unat (psize p) = Suc (unat (pos p))" by simp_all
        then have "cs = []" using st(2) st(5) rest_length [OF st(3)] by simp
        with Inl e step False Cons d show ?thesis by simp
      next
        case (Inr c')
        have "comment_loop c p = comment_loop c' (pos_inc p)" using Inr step by simp
        moreover have "cs \<noteq> []" if "unat (psize p) = length (data p)"
          using Inr that st(2,3,5) rest_length [OF st(3)] by (auto simp: byte_at_def split: if_splits)
        ultimately show ?thesis
          using 1(1) [OF _ Inr st(3) Inr] c st Cons d False by auto
      qed
    qed
  qed
qed

subsection \<open>Skipping white space and comments\<close>

lemma ignore_eq:
  assumes "pos_ok p"
  shows "rrr_parse_ignore_spaces_and_increment_line p = Inr (skip_text (takeWhile rrr_parse_is_spaces (rest p)) p)"
    "rrr_parse_ignore_control_and_increment_line p = Inr (skip_text (takeWhile rrr_parse_is_control (rest p)) p)"
    "rrr_parse_ignore_space_and_tab p = Inr (adv (length (takeWhile rrr_parse_is_space_or_tab (rest p))) p)"
proof -
  have "\<forall>x \<in> set (takeWhile rrr_parse_is_space_or_tab (rest p)). not_newline x"
    by (auto dest!: set_takeWhileD simp: rrr_parse_is_space_or_tab_def RRR_PARSE_MATCH_C_SPACE_TAB_def
        RRR_PARSE_MATCH_C_NEWLINES_def)
  from one_line [OF this] have "skip_text (takeWhile rrr_parse_is_space_or_tab (rest p)) p =
      adv (length (takeWhile rrr_parse_is_space_or_tab (rest p))) p"
    by (simp add: skip_text_def adv_def)
  then show "rrr_parse_ignore_spaces_and_increment_line p = Inr (skip_text (takeWhile rrr_parse_is_spaces (rest p)) p)"
    "rrr_parse_ignore_control_and_increment_line p = Inr (skip_text (takeWhile rrr_parse_is_control (rest p)) p)"
    "rrr_parse_ignore_space_and_tab p = Inr (adv (length (takeWhile rrr_parse_is_space_or_tab (rest p))) p)"
    using ignore_ok [OF assms, of rrr_parse_is_spaces] ignore_ok [OF assms, of rrr_parse_is_control]
      ignore_ok [OF assms, of rrr_parse_is_space_or_tab]
    by (simp_all add: rrr_parse_ignore_spaces_and_increment_line_def rrr_parse_ignore_control_and_increment_line_def
        rrr_parse_ignore_space_and_tab_def rrr_parse_is_spaces_def rrr_parse_is_control_def
        rrr_parse_is_space_or_tab_def RRR_PARSE_MATCH_C_SPACE_TAB_def RRR_PARSE_MATCH_C_NEWLINES_def)
qed

definition scans :: "parse_pos \<Rightarrow> parse_pos \<Rightarrow> bool" where
  "scans p p' \<longleftrightarrow> pos_ok p' \<and> pos p \<le> pos p' \<and> data p' = data p \<and> psize p' = psize p"

lemma scans_adv: "pos_ok p \<Longrightarrow> n \<le> length (rest p) \<Longrightarrow> scans p (adv n p)"
  using adv_ok [of p n] by (simp add: scans_def word_le_nat_alt) (simp add: adv_def)

lemma scans_skip: "pos_ok p \<Longrightarrow> length xs \<le> length (rest p) \<Longrightarrow> scans p (skip_text xs p)"
  using skip_text_ok [of p xs] by (simp add: scans_def word_le_nat_alt) (simp add: skip_text_def)

lemma scans_refl: "pos_ok p \<Longrightarrow> scans p p"
  by (simp add: scans_def)

lemma comment_eq:
  assumes "pos_ok p"
  shows "if rest p = [] \<or> unat (psize p) < length (data p) \<or> (\<exists>x \<in> set (rest p). RRR_PARSE_MATCH_C_NEWLINES x)
     then \<exists>p'. rrr_parse_comment p = Inr p' \<and> scans p p' \<and> rest p' = dropWhile rrr_parse_is_spaces (dropWhile not_newline (rest p))
     else rrr_parse_comment p = Inl Bad_Access"
proof (cases "rest p = []")
  case True
  then have "psize p \<le> pos p" using rest_eof [OF assms] by simp
  with True scans_refl [OF assms] show ?thesis by (simp add: rrr_parse_comment_def)
next
  case ne: False
  obtain c cs where r: "rest p = c # cs" using ne by (cases "rest p") auto
  note b = rest_step(1) [OF assms r]
  have nl: "\<not> psize p \<le> pos p" using rest_eof [OF assms] r by simp
  let ?n = "length (takeWhile not_newline (rest p))"
  let ?p = "adv ?n p"
  have a: "pos_ok ?p" "rest ?p = dropWhile not_newline (rest p)" "scans p ?p"
    using adv_ok [OF assms, of ?n] length_takeWhile_le [of not_newline "rest p"] scans_adv [OF assms, of ?n]
    by (simp_all add: dropWhile_eq_drop)
  note i = ignore_eq(1) [OF a(1)]
  let ?xs = "takeWhile rrr_parse_is_spaces (rest ?p)"
  have s: "scans ?p (skip_text ?xs ?p)" "rest (skip_text ?xs ?p) = dropWhile rrr_parse_is_spaces (rest ?p)"
    using scans_skip [OF a(1), of ?xs] skip_text_ok [OF a(1), of ?xs] length_takeWhile_le [of rrr_parse_is_spaces "rest ?p"]
    by (simp_all add: dropWhile_eq_drop)
  have sc: "scans p (skip_text ?xs ?p)" using a(3) s(1) by (auto simp: scans_def)
  show ?thesis
  proof (cases "unat (psize p) < length (data p) \<or> (\<exists>x \<in> set (rest p). RRR_PARSE_MATCH_C_NEWLINES x)")
    case True
    then have "comment_loop c p = Inr ?p" using comment_loop_ok [OF assms b] by blast
    with True sc b nl i s(2) a(2) show ?thesis by (simp add: rrr_parse_comment_def)
  next
    case False
    moreover have "unat (psize p) \<le> length (data p)" using assms by (simp add: pos_ok_def)
    ultimately have "comment_loop c p = Inl Bad_Access" using comment_loop_ok [OF assms b] ne by auto
    with False ne b nl show ?thesis by (simp add: rrr_parse_comment_def)
  qed
qed

subsection \<open>Properties\<close>

text \<open>
  Claim C23: the functions that ignore white space or control characters advance over exactly the
  longest run of such characters; the line number grows by the line breaks passed, a carriage return
  followed by a line feed being one break, and the begin of the current line is the position after
  the last of them.
\<close>

theorem parse_ignore_counts_lines:
  assumes "pos_ok p"
  shows "rrr_parse_ignore_spaces_and_increment_line p = Inr (skip_text (takeWhile rrr_parse_is_spaces (rest p)) p) \<and>
     rrr_parse_ignore_control_and_increment_line p = Inr (skip_text (takeWhile rrr_parse_is_control (rest p)) p) \<and>
     rrr_parse_ignore_space_and_tab p = Inr (adv (length (takeWhile rrr_parse_is_space_or_tab (rest p))) p)"
  using ignore_eq [OF assms] by blast

definition demo_text :: parse_pos where
  "demo_text = rrr_parse_pos_init [0x20, 0x0d, 0x0a, 0x0a, 0x61, 0x62, 0x20, 0x3d, 0x31] 9"

lemma demo_text_ok: "pos_ok demo_text" "rest demo_text = [0x20, 0x0d, 0x0a, 0x0a, 0x61, 0x62, 0x20, 0x3d, 0x31]"
  by (simp_all add: demo_text_def pos_ok_init)

theorem parse_ignore_counts_lines_witness:
  "\<exists>p. rrr_parse_ignore_spaces_and_increment_line demo_text = Inr p \<and> pos p = 4 \<and> line p = 3 \<and> line_begin_pos p = 4"
  using parse_ignore_counts_lines [OF demo_text_ok(1)] demo_text_ok(2)
  by (simp add: skip_text_def rrr_parse_is_spaces_def RRR_PARSE_MATCH_C_SPACE_TAB_def RRR_PARSE_MATCH_C_NEWLINES_def
      demo_text_def rrr_parse_pos_init_def)

lemma rrr_parse_match_letters_eq:
  fixes flags :: rrr_length
  assumes "pos_ok p"
  defines "n \<equiv> length (takeWhile (\<lambda>c. rrr_parse_match_char c flags) (rest p))"
  shows "rrr_parse_match_letters p flags = Inr (pos p, int (unat (pos p)) + int n - 1, adv n p)"
proof -
  have n: "n \<le> length (rest p)" unfolding n_def by (rule length_takeWhile_le)
  have u: "unat (pos p + of_nat n) = unat (pos p) + n" using adv_ok [OF assms(1) n] by (simp add: adv_def)
  have "uint (pos p + of_nat n) = uint (pos p) + int n" unfolding uint_nat u by simp
  moreover have "\<not> pos p + of_nat n < pos p" using u by (simp add: word_less_nat_alt)
  ultimately show ?thesis using u match_letters_peek_loop_ok [OF assms(1), of flags]
    by (simp add: rrr_parse_match_letters_def rrr_parse_match_letters_peek_def rrr_length_add_bug_def
        rrr_length_add_err_def Let_def adv_def flip: n_def)
qed

lemma rrr_parse_match_until_eq:
  fixes flags :: rrr_length
  assumes "pos_ok p" "rest p \<noteq> []"
  defines "n \<equiv> length (takeWhile (\<lambda>c. \<not> rrr_parse_match_char c flags) (rest p))"
  shows "rrr_parse_match_until p flags =
     (if n < length (rest p) \<or> has_flag flags RRR_PARSE_MATCH_END
      then Inr (pos p, int (unat (pos p)) + int n - 1, adv n p) else Inr (pos p, int (unat (pos p)) - 1, p))"
proof -
  obtain c cs where r: "rest p = c # cs" using assms(2) by (cases "rest p") auto
  have "uint (pos (adv n p)) = uint (pos p) + int n"
    using adv_uint [OF assms(1), of n] length_takeWhile_le [of _ "rest p"] by (simp add: n_def)
  moreover have "(adv n p)\<lparr>pos := pos p\<rparr> = p" by simp
  ultimately show ?thesis
    using match_until_loop_ok [OF assms(1) r, of flags] rest_step(1) [OF assms(1) r]
    by (simp add: rrr_parse_match_until_def Let_def flip: n_def)
qed

lemma rrr_parse_non_eq:
  assumes "pos_ok p" "rest p \<noteq> []"
  shows "rrr_parse_non_newline p =
      (let n = length (takeWhile not_newline (rest p)) in Inr (pos p, int (unat (pos p)) + int n - 1, adv n p))"
    "rrr_parse_non_control p =
      (let n = length (takeWhile (\<lambda>c. \<not> RRR_PARSE_MATCH_C_CONTROL c) (rest p)) in
       Inr (pos p, int (unat (pos p)) + int n - 1, adv n p))"
proof -
  obtain c cs where r: "rest p = c # cs" using assms(2) by (cases "rest p") auto
  have u: "uint (pos (adv (length (takeWhile P (rest p))) p)) = uint (pos p) + int (length (takeWhile P (rest p)))" for P
    using adv_uint [OF assms(1)] length_takeWhile_le by blast
  note l = parse_non_loop_ok [OF assms(1) r] rest_step(1) [OF assms(1) r]
  show "rrr_parse_non_newline p =
      (let n = length (takeWhile not_newline (rest p)) in Inr (pos p, int (unat (pos p)) + int n - 1, adv n p))"
    using l u [of not_newline]
    by (simp add: rrr_parse_non_newline_def Let_def RRR_PARSE_MATCH_C_NEWLINES_def)
  show "rrr_parse_non_control p =
      (let n = length (takeWhile (\<lambda>c. \<not> RRR_PARSE_MATCH_C_CONTROL c) (rest p)) in
       Inr (pos p, int (unat (pos p)) + int n - 1, adv n p))"
    using l u [of "\<lambda>c. \<not> RRR_PARSE_MATCH_C_CONTROL c"] by (simp add: rrr_parse_non_control_def Let_def)
qed

lemma rrr_parse_match_word_eq:
  assumes "pos_ok p"
  shows "rrr_parse_match_word p word =
     (if take (length word) (rest p) = word then Inr (1, adv (length word) p) else Inr (0, p))"
    "rrr_parse_match_word_case p word =
     (if list_all2 (\<lambda>w c. w = c \<or> w = case_swap c) word (take (length word) (rest p))
      then Inr (1, adv (length word) p) else Inr (0, p))"
proof -
  have "p\<lparr>pos := pos p\<rparr> = p" by simp
  with match_word_loop_ok [OF assms, of word] match_word_case_loop_ok [OF assms, of word]
  show "rrr_parse_match_word p word =
     (if take (length word) (rest p) = word then Inr (1, adv (length word) p) else Inr (0, p))"
    "rrr_parse_match_word_case p word =
     (if list_all2 (\<lambda>w c. w = c \<or> w = case_swap c) word (take (length word) (rest p))
      then Inr (1, adv (length word) p) else Inr (0, p))"
    by (auto simp: rrr_parse_match_word_def rrr_parse_match_word_case_def)
qed

subsection \<open>Inputs with a terminator\<close>

text \<open>
  A reader of files puts a NUL byte after the contents, which the scanners that look one byte too far need. On such inputs
  every scanner returns and moves forward.
\<close>

definition text_ok :: "parse_pos \<Rightarrow> bool" where
  "text_ok p \<longleftrightarrow> pos_ok p \<and> unat (psize p) < length (data p)"

lemma text_ok_init: "unat n < length d \<Longrightarrow> text_ok (rrr_parse_pos_init d n)"
  by (simp add: text_ok_def pos_ok_init) (simp add: rrr_parse_pos_init_def)

lemma text_pos: "text_ok p \<Longrightarrow> pos_ok p"
  by (simp add: text_ok_def)

lemma scans_text: "text_ok p \<Longrightarrow> scans p p' \<Longrightarrow> text_ok p'"
  by (simp add: text_ok_def scans_def)

lemma scans_trans [trans]: "scans p q \<Longrightarrow> scans q r \<Longrightarrow> scans p r"
  by (auto simp: scans_def)

lemma scans_rest: "scans p p' \<Longrightarrow> pos_ok p \<Longrightarrow> length (rest p') \<le> length (rest p)"
  by (auto simp: scans_def rest_length word_le_nat_alt)

lemma spaces_text: "text_ok p \<Longrightarrow> \<exists>p'. rrr_parse_ignore_spaces_and_increment_line p = Inr p' \<and> scans p p'"
  using ignore_eq(1) [of p] scans_skip [of p] length_takeWhile_le [of rrr_parse_is_spaces "rest p"] by (auto simp: text_ok_def)

lemma control_text: "text_ok p \<Longrightarrow> \<exists>p'. rrr_parse_ignore_control_and_increment_line p = Inr p' \<and> scans p p'"
  using ignore_eq(2) [of p] scans_skip [of p] length_takeWhile_le [of rrr_parse_is_control "rest p"] by (auto simp: text_ok_def)

lemma space_tab_text: "text_ok p \<Longrightarrow> \<exists>p'. rrr_parse_ignore_space_and_tab p = Inr p' \<and> scans p p'"
  using ignore_eq(3) [of p] scans_adv [of p] length_takeWhile_le [of rrr_parse_is_space_or_tab "rest p"] by (auto simp: text_ok_def)

lemma word_text:
  assumes "text_ok p" "word \<noteq> []"
  shows "\<exists>m p'. rrr_parse_match_word p word = Inr (m, p') \<and> scans p p' \<and>
      (m = 1 \<and> length (rest p') < length (rest p) \<or> m = 0 \<and> p' = p)"
    "\<exists>m p'. rrr_parse_match_word_case p word = Inr (m, p') \<and> scans p p' \<and>
      (m = 1 \<and> length (rest p') < length (rest p) \<or> m = 0 \<and> p' = p)"
proof -
  note p = text_pos [OF assms(1)]
  have a: "scans p (adv (length word) p) \<and> length (rest (adv (length word) p)) < length (rest p)"
    if "length (take (length word) (rest p)) = length word"
    using scans_adv [OF p, of "length word"] adv_ok [OF p, of "length word"] that assms(2) by (cases word) auto
  have a1: "length (take (length word) (rest p)) = length word" if "take (length word) (rest p) = word"
    using arg_cong [OF that, of length] .
  have a2: "length (take (length word) (rest p)) = length word"
    if "list_all2 (\<lambda>w c. w = c \<or> w = case_swap c) word (take (length word) (rest p))"
    using list_all2_lengthD [OF that] by simp
  show "\<exists>m p'. rrr_parse_match_word p word = Inr (m, p') \<and> scans p p' \<and>
      (m = 1 \<and> length (rest p') < length (rest p) \<or> m = 0 \<and> p' = p)"
    using rrr_parse_match_word_eq(1) [OF p, of word] a a1 scans_refl [OF p]
    by (cases "take (length word) (rest p) = word") auto
  show "\<exists>m p'. rrr_parse_match_word_case p word = Inr (m, p') \<and> scans p p' \<and>
      (m = 1 \<and> length (rest p') < length (rest p) \<or> m = 0 \<and> p' = p)"
    using rrr_parse_match_word_eq(2) [OF p, of word] a a2 scans_refl [OF p]
    by (cases "list_all2 (\<lambda>w c. w = c \<or> w = case_swap c) word (take (length word) (rest p))") auto
qed

lemma comment_text:
  assumes "text_ok p" "rest p = c # cs" "not_newline c"
  shows "\<exists>p'. rrr_parse_comment p = Inr p' \<and> scans p p' \<and> length (rest p') < length (rest p)"
proof -
  have "length (dropWhile rrr_parse_is_spaces (dropWhile not_newline (rest p))) \<le> length (dropWhile not_newline (rest p))"
    "length (dropWhile not_newline (rest p)) \<le> length cs"
    using length_dropWhile_le [of not_newline cs] assms(2,3) by (simp_all add: length_dropWhile_le)
  with comment_eq [of p] assms show ?thesis by (auto simp: text_ok_def)
qed

text \<open>The scanners that return a range: it is a prefix of the remaining input, from which the text can be taken.\<close>

definition scans_range :: "parse_pos \<Rightarrow> nat \<Rightarrow> rrr_length \<times> rrr_slength \<times> parse_pos \<Rightarrow> bool" where
  "scans_range p n r \<longleftrightarrow> n \<le> length (rest p) \<and> r = (pos p, int (unat (pos p)) + int n - 1, adv n p)"

lemma letters_range:
  "pos_ok p \<Longrightarrow> \<exists>r. rrr_parse_match_letters p flags = Inr r \<and>
     scans_range p (length (takeWhile (\<lambda>c. rrr_parse_match_char c flags) (rest p))) r"
  using rrr_parse_match_letters_eq [of p flags] length_takeWhile_le [of _ "rest p"] by (simp add: scans_range_def)

lemma non_range:
  assumes "text_ok p"
  shows "\<exists>n r. rrr_parse_non_newline p = Inr r \<and> scans_range p n r" "\<exists>r. rrr_parse_non_control p = Inr r \<and> scans_range p (length (takeWhile (\<lambda>c. \<not> RRR_PARSE_MATCH_C_CONTROL c) (rest p))) r"
proof -
  note p = text_pos [OF assms]
  have "(\<exists>n r. rrr_parse_non_newline p = Inr r \<and> scans_range p n r) \<and> (\<exists>r. rrr_parse_non_control p = Inr r \<and> scans_range p (length (takeWhile (\<lambda>c. \<not> RRR_PARSE_MATCH_C_CONTROL c) (rest p))) r)"
  proof (cases "rest p")
    case Nil
    then have e: "psize p \<le> pos p" using rest_eof [OF p] by simp
    then have "pos p = psize p" using p by (simp add: pos_ok_def)
    then have "byte_at p (pos p) = Inr (data p ! unat (psize p))" using assms by (simp add: byte_at_def text_ok_def)
    moreover have "parse_non_loop stop c p = Inr p" for stop c
      using e by (subst parse_non_loop.simps) (simp add: RRR_PARSE_CHECK_EOF_def)
    ultimately show ?thesis
      by (auto simp: rrr_parse_non_newline_def rrr_parse_non_control_def scans_range_def Nil intro!: exI [of _ 0])
  next
    case (Cons c cs)
    then have "rest p \<noteq> []" by simp
    from rrr_parse_non_eq [OF p this] length_takeWhile_le [of _ "rest p"] show ?thesis
      unfolding Let_def scans_range_def by blast
  qed
  then show "\<exists>n r. rrr_parse_non_newline p = Inr r \<and> scans_range p n r" "\<exists>r. rrr_parse_non_control p = Inr r \<and> scans_range p (length (takeWhile (\<lambda>c. \<not> RRR_PARSE_MATCH_C_CONTROL c) (rest p))) r"
    by blast+
qed

lemma range_scans: "pos_ok p \<Longrightarrow> scans_range p n (start, stop, p') \<Longrightarrow> scans p p'"
  using scans_adv [of p n] by (auto simp: scans_range_def)

lemma extract_text:
  assumes "pos_ok p" "scans_range p n (start, stop, p')" "0 < n"
  shows "rrr_parse_str_extract have_memory p' start (of_nat n) =
     Inr (if have_memory then (0, Some (take n (rest p))) else (1, None))"
    "stop - int (unat start) = int n - 1" "n < 2 ^ 32"
proof -
  have r: "start = pos p" "stop = int (unat (pos p)) + int n - 1" "p' = adv n p" "n \<le> length (rest p)"
    using assms(2) by (auto simp: scans_range_def)
  show "stop - int (unat start) = int n - 1" by (simp add: r)
  have "unat (pos p) \<le> unat (psize p)" using assms(1) by (simp add: pos_ok_def word_le_nat_alt)
  then have l: "unat (pos p) + n \<le> unat (psize p)" using r(4) rest_length [OF assms(1)] by linarith
  then show n: "n < 2 ^ 32" using unat_bound [of "psize p"] by simp
  then have u: "unat (of_nat n :: rrr_length) = n" "(of_nat n :: rrr_length) \<noteq> 0"
    using assms(3) by (simp_all add: unat_of_nat word_unat_eq_iff)
  have "unat (psize p) \<le> length (data p)" using assms(1) by (simp add: pos_ok_def)
  moreover have "data p' = data p" by (simp add: r adv_def)
  moreover have "take n (rest p) = take n (drop (unat (pos p)) (data p))"
    unfolding rest_def drop_take using l by (simp add: min_absorb1 min_absorb2)
  ultimately show "rrr_parse_str_extract have_memory p' start (of_nat n) =
      Inr (if have_memory then (0, Some (take n (rest p))) else (1, None))"
    using l u by (simp add: rrr_parse_str_extract_def bytes_between_def r)
qed

lemma parse_at_end:
  assumes "pos_ok p" "rest p = []" "unat (pos p) < length (data p)"
  shows "rrr_parse_match_until p flags = Inr (pos p, int (unat (pos p)) - 1, p)"
    "rrr_parse_non_newline p = Inr (pos p, int (unat (pos p)) - 1, p)"
    "rrr_parse_non_control p = Inr (pos p, int (unat (pos p)) - 1, p)"
proof -
  have e: "RRR_PARSE_CHECK_EOF p" using rest_eof [OF assms(1)] assms(2) by (simp add: RRR_PARSE_CHECK_EOF_def)
  then have "match_until_loop flags c p = Inr (False, p)" "parse_non_loop stop c p = Inr p" for stop c
    using match_until_loop.simps [of flags c p] parse_non_loop.simps [of stop c p] by simp_all
  with assms(3) show "rrr_parse_match_until p flags = Inr (pos p, int (unat (pos p)) - 1, p)"
    "rrr_parse_non_newline p = Inr (pos p, int (unat (pos p)) - 1, p)"
    "rrr_parse_non_control p = Inr (pos p, int (unat (pos p)) - 1, p)"
    by (simp_all add: rrr_parse_match_until_def rrr_parse_non_newline_def rrr_parse_non_control_def byte_at_def)
qed

lemma ranges_return:
  assumes "pos_ok p" "unat (pos p) < length (data p)"
  shows "\<exists>s e p'. rrr_parse_match_until p flags = Inr (s, e, p') \<and> scans p p'"
    "\<exists>s e p'. rrr_parse_non_newline p = Inr (s, e, p') \<and> scans p p'"
    "\<exists>s e p'. rrr_parse_non_control p = Inr (s, e, p') \<and> scans p p'"
proof -
  have tw: "scans p (adv (length (takeWhile P (rest p))) p)" for P
    using assms(1) length_takeWhile_le by (rule scans_adv)
  have "(\<exists>s e p'. rrr_parse_match_until p flags = Inr (s, e, p') \<and> scans p p') \<and>
    (\<exists>s e p'. rrr_parse_non_newline p = Inr (s, e, p') \<and> scans p p') \<and>
    (\<exists>s e p'. rrr_parse_non_control p = Inr (s, e, p') \<and> scans p p')"
  proof (cases "rest p = []")
    case True
    with parse_at_end [OF assms(1) True assms(2)] scans_refl [OF assms(1)] show ?thesis by simp
  next
    case False
    with rrr_parse_match_until_eq [OF assms(1) False] rrr_parse_non_eq [OF assms(1) False] tw scans_refl [OF assms(1)]
    show ?thesis by (simp add: Let_def)
  qed
  then show "\<exists>s e p'. rrr_parse_match_until p flags = Inr (s, e, p') \<and> scans p p'"
    "\<exists>s e p'. rrr_parse_non_newline p = Inr (s, e, p') \<and> scans p p'"
    "\<exists>s e p'. rrr_parse_non_control p = Inr (s, e, p') \<and> scans p p'" by blast+
qed

text \<open>
  Claim C18: the scanners return. At every valid position, the end of the input included, those that ignore characters and those that match letters
  or words end without an abort or an access outside the object, at a valid position that is not before the
  old one, and leave the input as it was. So do those that match up to a class of characters, a newline or a control character
  if the byte at the position is inside the object, as it is before the end of the input and at the terminator of a string; otherwise they
  read outside the object. Skipping a comment returns if there is a byte behind the input.
\<close>

theorem parse_scanners_return:
  assumes "pos_ok p"
  shows "(\<exists>p'. rrr_parse_ignore_spaces_and_increment_line p = Inr p' \<and> scans p p') \<and>
     (\<exists>p'. rrr_parse_ignore_control_and_increment_line p = Inr p' \<and> scans p p') \<and>
     (\<exists>p'. rrr_parse_ignore_space_and_tab p = Inr p' \<and> scans p p') \<and>
     (\<exists>ret p'. rrr_parse_match_letters_simple p = Inr (ret, p') \<and> scans p p') \<and>
     (\<exists>s e p'. rrr_parse_match_letters p flags = Inr (s, e, p') \<and> scans p p') \<and>
     (\<exists>ret p'. rrr_parse_match_word p word = Inr (ret, p') \<and> scans p p') \<and>
     (\<exists>ret p'. rrr_parse_match_word_case p word = Inr (ret, p') \<and> scans p p') \<and>
     (if unat (pos p) < length (data p)
      then (\<exists>s e p'. rrr_parse_match_until p flags = Inr (s, e, p') \<and> scans p p') \<and>
        (\<exists>s e p'. rrr_parse_non_newline p = Inr (s, e, p') \<and> scans p p') \<and>
        (\<exists>s e p'. rrr_parse_non_control p = Inr (s, e, p') \<and> scans p p')
      else rrr_parse_match_until p flags = Inl Bad_Access \<and> rrr_parse_non_newline p = Inl Bad_Access \<and>
        rrr_parse_non_control p = Inl Bad_Access) \<and>
     (unat (psize p) < length (data p) \<longrightarrow> (\<exists>p'. rrr_parse_comment p = Inr p' \<and> scans p p'))"
proof -
  have tw: "scans p (adv (length (takeWhile P (rest p))) p)" for P
    using assms length_takeWhile_le by (rule scans_adv)
  have sk: "scans p (skip_text (takeWhile P (rest p)) p)" for P
    using assms length_takeWhile_le by (rule scans_skip)
  have wd: "scans p (adv (length word) p)" if "length (take (length word) (rest p)) = length word"
    using scans_adv [OF assms, of "length word"] that by simp
  have w1: "scans p (adv (length word) p)" if "take (length word) (rest p) = word"
    using wd arg_cong [OF that, of length] by simp
  have l2: "length (take (length word) (rest p)) = length word"
    if "list_all2 (\<lambda>w c. w = c \<or> w = case_swap c) word (take (length word) (rest p))"
    using list_all2_lengthD [OF that] by simp
  note ignore_eq [OF assms]
  moreover have "\<exists>ret p'. rrr_parse_match_word p word = Inr (ret, p') \<and> scans p p'"
    using rrr_parse_match_word_eq(1) [OF assms, of word] w1 scans_refl [OF assms]
    by (cases "take (length word) (rest p) = word") auto
  moreover have "\<exists>ret p'. rrr_parse_match_word_case p word = Inr (ret, p') \<and> scans p p'"
    using rrr_parse_match_word_eq(2) [OF assms, of word] wd l2 scans_refl [OF assms]
    by (cases "list_all2 (\<lambda>w c. w = c \<or> w = case_swap c) word (take (length word) (rest p))") auto
  moreover have "if unat (pos p) < length (data p)
      then (\<exists>s e p'. rrr_parse_match_until p flags = Inr (s, e, p') \<and> scans p p') \<and>
        (\<exists>s e p'. rrr_parse_non_newline p = Inr (s, e, p') \<and> scans p p') \<and>
        (\<exists>s e p'. rrr_parse_non_control p = Inr (s, e, p') \<and> scans p p')
      else rrr_parse_match_until p flags = Inl Bad_Access \<and> rrr_parse_non_newline p = Inl Bad_Access \<and>
        rrr_parse_non_control p = Inl Bad_Access"
    using ranges_return(1) [OF assms, of flags] ranges_return(2,3) [OF assms]
    by (simp add: rrr_parse_match_until_def rrr_parse_non_newline_def rrr_parse_non_control_def byte_at_def)
  moreover have "unat (psize p) < length (data p) \<longrightarrow> (\<exists>p'. rrr_parse_comment p = Inr p' \<and> scans p p')"
    using comment_eq [OF assms] by auto
  ultimately show ?thesis
    using tw sk match_letters_simple_loop_ok [OF assms, of 0] rrr_parse_match_letters_eq [OF assms] scans_refl [OF assms]
    by (simp add: rrr_parse_match_letters_simple_def Let_def)
qed

theorem parse_scanners_return_witness:
  "(\<exists>s e p'. rrr_parse_match_until demo_text RRR_PARSE_MATCH_NUMBERS = Inr (s, e, p') \<and> scans demo_text p') \<and>
   rrr_parse_non_newline (rrr_parse_pos_init [0x61] 1\<lparr>pos := 1\<rparr>) = Inl Bad_Access"
proof -
  have "pos_ok (rrr_parse_pos_init [0x61] 1\<lparr>pos := 1\<rparr>)" "unat (pos demo_text) < length (data demo_text)"
    by (simp_all add: pos_ok_def rrr_parse_pos_init_def demo_text_def)
  with parse_scanners_return [OF demo_text_ok(1), of RRR_PARSE_MATCH_NUMBERS "[]"]
    parse_scanners_return [of "rrr_parse_pos_init [0x61] 1\<lparr>pos := 1\<rparr>" 0 "[]"]
  show ?thesis by (simp add: rrr_parse_pos_init_def)
qed

text \<open>
  Matching letters delimits the longest run of characters of the selected classes. The run
  is the range from the start to the end that is returned (empty when the end is before the start),
  the position is after it, and the next character, if there is one, is not in a selected class.
\<close>

theorem parse_match_letters_run:
  assumes "pos_ok p" "rrr_parse_match_letters p flags = Inr (start, stop, p')"
  shows "start = pos p \<and> int (unat (pos p')) = stop + 1 \<and>
     (\<forall>i. int (unat start) \<le> int i \<and> int i \<le> stop \<longrightarrow> rrr_parse_match_char (data p ! i) flags) \<and>
     (pos p' < psize p \<longrightarrow> \<not> rrr_parse_match_char (data p ! unat (pos p')) flags)"
proof -
  let ?P = "\<lambda>c. rrr_parse_match_char c flags"
  define n where "n = length (takeWhile ?P (rest p))"
  have r: "start = pos p" "stop = int (unat (pos p)) + int n - 1" "p' = adv n p"
    using rrr_parse_match_letters_eq [OF assms(1), of flags] assms(2) by (simp_all add: n_def)
  have n: "n \<le> length (rest p)" by (simp add: n_def length_takeWhile_le)
  have u: "unat (pos p') = unat (pos p) + n" "psize p' = psize p" using adv_ok [OF assms(1) n] r(3) by (simp_all add: adv_def)
  have nth: "rest p ! k = data p ! (unat (pos p) + k)" if "k < length (rest p)" for k
    using that assms(1) by (simp add: rest_def pos_ok_def word_le_nat_alt)
  have all: "?P (data p ! i)" if "unat (pos p) \<le> i" "i < unat (pos p) + n" for i
  proof -
    have "takeWhile ?P (rest p) ! (i - unat (pos p)) = rest p ! (i - unat (pos p))"
      using that by (intro takeWhile_nth) (simp add: n_def)
    moreover have "?P (takeWhile ?P (rest p) ! (i - unat (pos p)))"
      using that nth_mem [of "i - unat (pos p)" "takeWhile ?P (rest p)"] set_takeWhileD by (fastforce simp: n_def)
    ultimately show ?thesis using nth [of "i - unat (pos p)"] that n by simp
  qed
  have "\<not> ?P (data p ! unat (pos p'))" if "pos p' < psize p"
  proof -
    have "n < length (rest p)"
      using that u rest_length [OF assms(1)] by (simp add: word_less_nat_alt)
    then show ?thesis using nth_length_takeWhile [of ?P "rest p"] nth [of n] u by (simp add: n_def)
  qed
  moreover have "int (unat (pos p')) = stop + 1" unfolding u(1) r(2) by simp
  moreover have "?P (data p ! i)" if "int (unat start) \<le> int i \<and> int i \<le> stop" for i
    using that unfolding r(1,2) by (intro all) linarith+
  ultimately show ?thesis using r(1) by blast
qed

text \<open>
  A word is matched exactly when the remaining input begins with it, or, for the function
  that ignores case, with characters that are equal to those of the word or are the same letters in
  the other case. The position is then after the word; otherwise nothing changes.
\<close>

theorem parse_match_word_exact:
  assumes "pos_ok p"
  shows "rrr_parse_match_word p word =
      (if \<exists>xs. rest p = word @ xs then Inr (1, p\<lparr>pos := pos p + of_nat (length word)\<rparr>) else Inr (0, p)) \<and>
    rrr_parse_match_word_case p word =
      (if \<exists>txt xs. rest p = txt @ xs \<and> list_all2 (\<lambda>w c. w = c \<or> w = case_swap c) word txt
       then Inr (1, p\<lparr>pos := pos p + of_nat (length word)\<rparr>) else Inr (0, p))"
proof -
  have "take (length word) (rest p) = word \<longleftrightarrow> (\<exists>xs. rest p = word @ xs)"
    by (metis append_take_drop_id append_eq_conv_conj)
  moreover have "list_all2 P word (take (length word) (rest p)) \<longleftrightarrow> (\<exists>txt xs. rest p = txt @ xs \<and> list_all2 P word txt)" for P
  proof
    assume "list_all2 P word (take (length word) (rest p))"
    then show "\<exists>txt xs. rest p = txt @ xs \<and> list_all2 P word txt" by (metis append_take_drop_id)
  next
    assume "\<exists>txt xs. rest p = txt @ xs \<and> list_all2 P word txt"
    then obtain ys xs where t: "rest p = ys @ xs" "list_all2 P word ys" by blast
    with list_all2_lengthD [OF t(2)] show "list_all2 P word (take (length word) (rest p))" by simp
  qed
  ultimately show ?thesis using rrr_parse_match_word_eq [OF assms, of word] by (simp add: adv_def)
qed

theorem parse_match_word_exact_witness:
  "rrr_parse_match_word (rrr_parse_pos_init [0x61, 0x62, 0x63] 3) [0x61, 0x62] =
   Inr (1, (rrr_parse_pos_init [0x61, 0x62, 0x63] 3)\<lparr>pos := 2\<rparr>)"
  using parse_match_word_exact [of "rrr_parse_pos_init [0x61, 0x62, 0x63] 3" "[0x61, 0x62]"]
  by (simp add: pos_ok_init) (simp add: rrr_parse_pos_init_def)

text \<open>
  Claim C24: splitting a string and joining the elements with the separator gives the string back. The
  elements do not contain the separator, there is one more of them than separators, and for a string that is not empty the callback
  is called exactly when there is memory for a copy of the string and they are at most \<open>elements_max\<close>; otherwise 1 is returned. For an empty string the callback
  gets no elements.
\<close>

theorem parse_split_join:
  "if str = [] then rrr_parse_str_split have_memory str chr elements_max callback w = callback [] w
   else if have_memory \<and> count_list str chr < unat elements_max
   then \<exists>es. rrr_parse_str_split have_memory str chr elements_max callback w = callback es w \<and> join chr es = str \<and>
     length es = count_list str chr + 1 \<and> (\<forall>e \<in> set es. chr \<notin> set e)
   else rrr_parse_str_split have_memory str chr elements_max callback w = (1, w)"
proof -
  have l: "case str_split_loop (unat elements_max) chr [] [] str of None \<Rightarrow> unat elements_max < count_list str chr + 1
    | Some es \<Rightarrow> join chr es = str \<and> (\<forall>e \<in> set es. chr \<notin> set e) \<and> length es = count_list str chr + 1 \<and> length es \<le> unat elements_max"
    using str_split_loop_ok [of "[]" "[]" chr "unat elements_max" str] by (simp split: option.splits)
  show ?thesis
  proof (cases "str_split_loop (unat elements_max) chr [] [] str")
    case None
    with l show ?thesis by (simp add: rrr_parse_str_split_def)
  next
    case (Some es)
    with l show ?thesis by (simp add: rrr_parse_str_split_def) blast
  qed
qed

theorem parse_split_join_witness:
  "(\<exists>es. rrr_parse_str_split True [0x61, 0x2c, 0x62] 0x2c 4 (\<lambda>es w. (0, w @ es)) [] = (0, es) \<and>
     join 0x2c es = [0x61, 0x2c, 0x62] \<and> length es = Suc (Suc 0)) \<and>
   rrr_parse_str_split False [0x61] 0x2c 4 (\<lambda>es w. (0, w @ es)) [] = (1, [])"
  using parse_split_join [where str = "[0x61, 0x2c, 0x62]" and chr = "0x2c" and elements_max = 4 and have_memory = True
      and callback = "\<lambda>es w. (0, w @ es)" and w = "[]"]
    parse_split_join [where str = "[0x61]" and chr = "0x2c" and elements_max = 4 and have_memory = False
      and callback = "\<lambda>es w. (0, w @ es)" and w = "[]"] by auto

text \<open>
  Claim C22: the functions that work in place compute what their names say. Stripping newlines leaves
  the string without its carriage returns and line feeds; trimming leaves the string without the
  white space at its end.
\<close>

theorem parse_strip_trim_reference:
  assumes "0 \<notin> set str"
  shows "takeWhile (\<lambda>c. c \<noteq> 0) (rrr_parse_str_strip_newlines str) = filter (\<lambda>c. c \<noteq> 0x0d \<and> c \<noteq> 0x0a) str \<and>
    takeWhile (\<lambda>c. c \<noteq> 0) (rrr_parse_str_trim str) =
      rev (dropWhile (\<lambda>c. c = 0x20 \<or> c = 0x0d \<or> c = 0x0a \<or> c = 0x09) (rev str))"
  using strip_newlines_loop_ok [of 0 str 0] str_trim_loop_ok [of str 0] assms
  by (simp add: rrr_parse_str_strip_newlines_def rrr_parse_str_trim_def RRR_PARSE_MATCH_C_NEWLINES_def)

theorem parse_strip_trim_reference_witness:
  "takeWhile (\<lambda>c. c \<noteq> 0) (rrr_parse_str_strip_newlines [0x61, 0x0d, 0x0a, 0x62]) = [0x61, 0x62] \<and>
   takeWhile (\<lambda>c. c \<noteq> 0) (rrr_parse_str_trim [0x61, 0x20, 0x62, 0x20, 0x09]) = [0x61, 0x20, 0x62]"
  using parse_strip_trim_reference [of "[0x61, 0x0d, 0x0a, 0x62]"] parse_strip_trim_reference [of "[0x61, 0x20, 0x62, 0x20, 0x09]"]
  by simp

text \<open>
  Claim C39: at a valid position \<open>rrr_parse_comment\<close> skips the comment and the white space after it if the input ends here, if a newline
  follows, or if there is a byte behind the input. In the remaining case, a comment ended by the end of an input that is also the end of the
  object, it reads outside the object.
\<close>

theorem parse_comment_overread:
  assumes "pos_ok p"
  shows "if rest p = [] \<or> unat (psize p) < length (data p) \<or> (\<exists>x \<in> set (rest p). x = 0x0d \<or> x = 0x0a)
     then \<exists>p'. rrr_parse_comment p = Inr p' \<and> scans p p' \<and> rest p' = dropWhile rrr_parse_is_spaces (dropWhile (\<lambda>x. x \<noteq> 0x0d \<and> x \<noteq> 0x0a) (rest p))
     else rrr_parse_comment p = Inl Bad_Access"
proof -
  have nl: "RRR_PARSE_MATCH_C_NEWLINES x \<longleftrightarrow> x = 0x0d \<or> x = 0x0a" for x by (auto simp: RRR_PARSE_MATCH_C_NEWLINES_def)
  show ?thesis using comment_eq [OF assms] unfolding nl de_Morgan_disj .
qed

theorem parse_comment_overread_witness:
  "rrr_parse_comment (rrr_parse_pos_init [0x23, 0x61] 2) = Inl Bad_Access \<and>
   (\<exists>p'. rrr_parse_comment (rrr_parse_pos_init [0x23, 0x0a] 2) = Inr p' \<and> rest p' = [])"
proof -
  have r: "rest (rrr_parse_pos_init [0x23, 0x61] 2) = [0x23, 0x61]" "rest (rrr_parse_pos_init [0x23, 0x0a] 2) = [0x23, 0x0a]"
    by (simp_all add: rest_def rrr_parse_pos_init_def)
  have "unat (psize (rrr_parse_pos_init [0x23, 0x61] 2)) = length (data (rrr_parse_pos_init [0x23, 0x61] 2))"
    by (simp add: rrr_parse_pos_init_def)
  with parse_comment_overread [of "rrr_parse_pos_init [0x23, 0x61] 2"] parse_comment_overread [of "rrr_parse_pos_init [0x23, 0x0a] 2"]
  show ?thesis unfolding r by (simp add: pos_ok_init rrr_parse_is_spaces_def RRR_PARSE_MATCH_C_SPACE_TAB_def RRR_PARSE_MATCH_C_NEWLINES_def) blast
qed

end
