(* ===== verification/RRR_Utf8.thy ===== *)
theory RRR_Utf8
  imports RRR_Types
begin

text \<open>
  The UTF-8 decoder, \<^verbatim>\<open>src/lib/util/utf8.c\<close>. The pair of pointers \<open>pos\<close>, \<open>end\<close> is the list of the bytes
  between them; a function that advances \<open>pos\<close> returns the rest of the list. The theory shows that
  the decoder reads exactly the encodings of the Unicode scalar values, and what that makes of the validators.
\<close>

subsection \<open>The decoder\<close>

abbreviation within :: "u32 \<Rightarrow> u32 \<Rightarrow> u32 \<Rightarrow> bool" where
  "within lo c hi \<equiv> lo \<le> c \<and> c \<le> hi"

text \<open>The three conditions under which a character of two, three and four bytes is complete.\<close>

definition utf8_two :: "u32 \<Rightarrow> u32 \<Rightarrow> bool" where
  "utf8_two c d \<longleftrightarrow> within 0xC2 c 0xDF \<and> within 0x80 d 0xBF"

definition utf8_three :: "u32 \<Rightarrow> u32 \<Rightarrow> u32 \<Rightarrow> bool" where
  "utf8_three c d e \<longleftrightarrow>
     c = 0xE0 \<and> within 0xA0 d 0xBF \<and> within 0x80 e 0xBF \<or>
     within 0xE1 c 0xEC \<and> within 0x80 d 0xBF \<and> within 0x80 e 0xBF \<or>
     c = 0xED \<and> within 0x80 d 0x9F \<and> within 0x80 e 0xBF \<or>
     within 0xEE c 0xEF \<and> within 0x80 d 0xBF \<and> within 0x80 e 0xBF"

definition utf8_four :: "u32 \<Rightarrow> u32 \<Rightarrow> u32 \<Rightarrow> u32 \<Rightarrow> bool" where
  "utf8_four c d e f \<longleftrightarrow>
     c = 0xF0 \<and> within 0x90 d 0xBF \<and> within 0x80 e 0xBF \<and> within 0x80 f 0xBF \<or>
     within 0xF1 c 0xF3 \<and> within 0x80 d 0xBF \<and> within 0x80 e 0xBF \<and> within 0x80 f 0xBF \<or>
     c = 0xF4 \<and> within 0x80 d 0x8F \<and> within 0x80 e 0xBF \<and> within 0x80 f 0xBF"

definition rrr_utf8_get_character_continue :: "u32 \<Rightarrow> u32 \<Rightarrow> u8 list \<Rightarrow> c_int \<times> u32 \<times> u8 list" where
  "rrr_utf8_get_character_continue result c bs =
     (case bs of [] \<Rightarrow> (1, result, bs)
      | d # bs \<Rightarrow>
        if utf8_two c (ucast d) then (0, push_bit 6 (c AND 0x1F) OR (ucast d AND 0x3F), bs)
        else case bs of [] \<Rightarrow> (1, result, bs)
      | e # bs \<Rightarrow>
        if utf8_three c (ucast d) (ucast e)
        then (0, push_bit 12 (c AND 0x0F) OR push_bit 6 (ucast d AND 0x3F) OR (ucast e AND 0x3F), bs)
        else case bs of [] \<Rightarrow> (1, result, bs)
      | f # bs \<Rightarrow>
        if utf8_four c (ucast d) (ucast e) (ucast f)
        then (0, push_bit 18 (c AND 0x07) OR push_bit 12 (ucast d AND 0x3F) OR push_bit 6 (ucast e AND 0x3F) OR
                 (ucast f AND 0x3F), bs)
        else (1, result, bs))"

definition rrr_utf8_get_character :: "u8 list \<Rightarrow> c_int \<times> u32 \<times> u8 list" where
  "rrr_utf8_get_character bs =
     (case bs of [] \<Rightarrow> (0, 0, bs)
      | c # bs \<Rightarrow>
          if c \<le> 0x7F then (0, ucast c, bs) else rrr_utf8_get_character_continue 0 (ucast c) bs)"

lemma get_character_shorter:
  "rrr_utf8_get_character bs = (ret, c, bs') \<Longrightarrow> bs \<noteq> [] \<Longrightarrow> length bs' < length bs"
  by (auto simp: rrr_utf8_get_character_def rrr_utf8_get_character_continue_def Let_def split: list.splits if_splits)

lemma get_character_progress:
  "rrr_utf8_get_character bs = (ret, c, bs') \<Longrightarrow> c \<noteq> 0 \<Longrightarrow> length bs' < length bs"
  using get_character_shorter [of bs ret c bs'] by (cases bs) (auto simp: rrr_utf8_get_character_def)

function rrr_utf8_validate :: "u8 list \<Rightarrow> c_int" where
  "rrr_utf8_validate bs =
     (case rrr_utf8_get_character bs of (ret, result, bs') \<Rightarrow>
        if ret = 0 \<and> result \<noteq> 0 then rrr_utf8_validate bs' else ret)"
  by pat_completeness auto

termination rrr_utf8_validate
  by (relation "measure length") (auto intro: get_character_progress [OF sym])

function rrr_utf8_validate_and_iterate :: "(u32 \<Rightarrow> 's \<Rightarrow> c_int \<times> 's) \<Rightarrow> 's \<Rightarrow> u8 list \<Rightarrow> c_int \<times> 's" where
  "rrr_utf8_validate_and_iterate callback w bs =
     (case rrr_utf8_get_character bs of (ret, result, bs') \<Rightarrow>
        if ret \<noteq> 0 \<or> result = 0 then (ret, w)
        else case callback result w of (ret, w) \<Rightarrow>
          if ret \<noteq> 0 then (ret, w) else rrr_utf8_validate_and_iterate callback w bs')"
  by pat_completeness auto

termination rrr_utf8_validate_and_iterate
  by (relation "measure (\<lambda>(callback, w, bs). length bs)") (auto intro: get_character_progress [OF sym])

declare rrr_utf8_validate.simps [simp del] rrr_utf8_validate_and_iterate.simps [simp del]

text \<open>The bytes of a buffer before its terminator; \<^verbatim>\<open>toupper\<close> of the C locale.\<close>

definition toupper :: "u8 \<Rightarrow> u8" where
  "toupper c = (if 0x61 \<le> c \<and> c \<le> 0x7a then c - 0x20 else c)"

primrec rrr_utf8_strtoupper :: "u8 list \<Rightarrow> u8 list" where
  "rrr_utf8_strtoupper [] = []"
| "rrr_utf8_strtoupper (c # buf) = toupper c # rrr_utf8_strtoupper buf"

subsection \<open>The encoding of a scalar value\<close>

definition utf8_scalar :: "nat \<Rightarrow> bool" where
  "utf8_scalar n \<longleftrightarrow> n < 0xD800 \<or> 0xDFFF < n \<and> n < 0x110000"

definition utf8_encode :: "nat \<Rightarrow> u8 list" where
  "utf8_encode n =
     map of_nat
      (if n < 0x80 then [n]
       else if n < 0x800 then [0xC0 + n div 0x40, 0x80 + n mod 0x40]
       else if n < 0x10000 then [0xE0 + n div 0x1000, 0x80 + n div 0x40 mod 0x40, 0x80 + n mod 0x40]
       else [0xF0 + n div 0x40000, 0x80 + n div 0x1000 mod 0x40, 0x80 + n div 0x40 mod 0x40, 0x80 + n mod 0x40])"

lemma or_add_nat:
  assumes "2 ^ k dvd x" "y < 2 ^ k"
  shows "x OR y = x + (y :: nat)"
proof (rule disjunctive_add_eq_or [symmetric])
  from assms obtain z where x: "x = push_bit k z" by (auto simp: push_bit_eq_mult mult.commute)
  have y: "take_bit k y = y" using assms(2) by (simp add: take_bit_nat_eq_self)
  have "n < k" if "bit y n" for n using that bit_take_bit_iff [of k y n] by (simp add: y)
  then show "x AND y = 0" by (intro bit_eqI) (fastforce simp: x bit_simps)
qed

lemma mask_mod:
  "(c :: u32) AND 0x1F = c mod 0x20" "c AND 0x0F = c mod 0x10" "c AND 0x07 = c mod 8" "c AND 0x3F = c mod 0x40"
  using take_bit_eq_mask [of 5 c] take_bit_eq_mask [of 4 c] take_bit_eq_mask [of 3 c] take_bit_eq_mask [of 6 c]
  by (simp_all add: mask_eq_exp_minus_1 take_bit_eq_mod)

lemma unat_masks:
  "unat ((c :: u32) AND 0x1F) = unat c mod 0x20" "unat (c AND 0x0F) = unat c mod 0x10"
  "unat (c AND 0x07) = unat c mod 8" "unat (c AND 0x3F) = unat c mod 0x40"
  by (simp_all add: mask_mod unat_mod)

lemma unat_push: "unat (a :: u32) * 2 ^ k < 2 ^ 32 \<Longrightarrow> unat (push_bit k a) = unat a * 2 ^ k"
  unfolding unsigned_push_bit_eq by (simp add: push_bit_eq_mult take_bit_nat_eq_self)

lemma unat_push_mask:
  "unat (push_bit 6 ((c :: u32) AND 0x1F)) = unat c mod 0x20 * 0x40"
  "unat (push_bit 12 (c AND 0x0F)) = unat c mod 0x10 * 0x1000"
  "unat (push_bit 18 (c AND 0x07)) = unat c mod 8 * 0x40000"
  "unat (push_bit 6 (c AND 0x3F)) = unat c mod 0x40 * 0x40"
  "unat (push_bit 12 (c AND 0x3F)) = unat c mod 0x40 * 0x1000"
  by (subst unat_push; simp add: unat_masks;
      use mod_less_divisor [of "0x20" "unat c"] mod_less_divisor [of "0x10" "unat c"] mod_less_divisor [of 8 "unat c"]
        mod_less_divisor [of "0x40" "unat c"] in linarith)+

lemma decoded:
  "unat (push_bit 6 ((c :: u32) AND 0x1F) OR (d AND 0x3F)) = unat c mod 0x20 * 0x40 + unat d mod 0x40"
  "unat (push_bit 12 (c AND 0x0F) OR push_bit 6 (d AND 0x3F) OR (e AND 0x3F)) =
     unat c mod 0x10 * 0x1000 + unat d mod 0x40 * 0x40 + unat e mod 0x40"
  "unat (push_bit 18 (c AND 0x07) OR push_bit 12 (d AND 0x3F) OR push_bit 6 (e AND 0x3F) OR (f AND 0x3F)) =
     unat c mod 8 * 0x40000 + unat d mod 0x40 * 0x1000 + unat e mod 0x40 * 0x40 + unat f mod 0x40"
proof -
  have m: "unat x mod 0x40 < 0x40" for x :: u32 by simp
  have a: "x * 0x40 OR y = x * 0x40 + y" if "y < 0x40" for x y :: nat
    using that by (intro or_add_nat [of 6]) simp_all
  have b: "x * 0x1000 OR (y * 0x40 + z) = x * 0x1000 + (y * 0x40 + z)" if "y < 0x40" "z < 0x40" for x y z :: nat
    using that by (intro or_add_nat [of 12]) simp_all
  have d: "x * 0x40000 OR (v * 0x1000 + (y * 0x40 + z)) = x * 0x40000 + (v * 0x1000 + (y * 0x40 + z))"
    if "v < 0x40" "y < 0x40" "z < 0x40" for x v y z :: nat
    using that by (intro or_add_nat [of 18]) simp_all
  show "unat (push_bit 6 (c AND 0x1F) OR (d AND 0x3F)) = unat c mod 0x20 * 0x40 + unat d mod 0x40"
    by (simp only: unsigned_or_eq unat_push_mask unat_masks a [OF m])
  show "unat (push_bit 12 (c AND 0x0F) OR push_bit 6 (d AND 0x3F) OR (e AND 0x3F)) =
     unat c mod 0x10 * 0x1000 + unat d mod 0x40 * 0x40 + unat e mod 0x40"
    by (simp only: unsigned_or_eq unat_push_mask unat_masks a [OF m] b [OF m m] add.assoc)
  show "unat (push_bit 18 (c AND 0x07) OR push_bit 12 (d AND 0x3F) OR push_bit 6 (e AND 0x3F) OR (f AND 0x3F)) =
     unat c mod 8 * 0x40000 + unat d mod 0x40 * 0x1000 + unat e mod 0x40 * 0x40 + unat f mod 0x40"
    by (simp only: unsigned_or_eq unat_push_mask unat_masks a [OF m] b [OF m m] d [OF m m m] add.assoc)
qed

lemma byte_of_nat: "k < 256 \<Longrightarrow> unat (ucast (of_nat k :: u8) :: u32) = k" "k < 256 \<Longrightarrow> unat (of_nat k :: u8) = k"
  by (simp_all add: unsigned_ucast_eq unat_of_nat take_bit_nat_eq_self)

lemma unat_ucast_byte: "unat (ucast (b :: u8) :: u32) = unat b"
  using unat_bound [of b] by (simp add: unsigned_ucast_eq take_bit_nat_eq_self)

lemma mod_shift:
  "x < 0x20 \<Longrightarrow> (0xC0 + x) mod 0x20 = (x :: nat)" "x < 0x10 \<Longrightarrow> (0xE0 + x) mod 0x10 = x"
  "x < 8 \<Longrightarrow> (0xF0 + x) mod 8 = x" "x < 0x40 \<Longrightarrow> (0x80 + x) mod 0x40 = x"
  using mod_mult_self3 [of 6 "0x20" x] mod_mult_self3 [of 14 "0x10" x] mod_mult_self3 [of 30 8 x] mod_mult_self3 [of 2 "0x40" x]
  by simp_all

lemmas decoder_defs = utf8_two_def utf8_three_def utf8_four_def rrr_utf8_get_character_def rrr_utf8_get_character_continue_def Let_def word_le_nat_alt
  word_unat_eq_iff decoded

lemma digits:
  "n div 0x1000 * 0x1000 + n div 0x40 mod 0x40 * 0x40 + n mod 0x40 = (n :: nat)"
  "n div 0x40000 * 0x40000 + n div 0x1000 mod 0x40 * 0x1000 + n div 0x40 mod 0x40 * 0x40 + n mod 0x40 = n"
proof -
  have d: "n div 0x1000 = n div 0x40 div 0x40" "n div 0x40000 = n div 0x40 div 0x40 div 0x40"
    by (simp_all add: div_mult2_eq [symmetric])
  have e: "m div 0x40 * 0x40 + m mod 0x40 = m" for m :: nat by simp
  show "n div 0x1000 * 0x1000 + n div 0x40 mod 0x40 * 0x40 + n mod 0x40 = n"
    using e [of n] e [of "n div 0x40"] unfolding d by linarith
  show "n div 0x40000 * 0x40000 + n div 0x1000 mod 0x40 * 0x1000 + n div 0x40 mod 0x40 * 0x40 + n mod 0x40 = n"
    using e [of n] e [of "n div 0x40"] e [of "n div 0x40 div 0x40"] unfolding d by linarith
qed

lemma get_character_encode:
  assumes "utf8_scalar n"
  shows "rrr_utf8_get_character (utf8_encode n @ r) = (0, of_nat n, r)"
proof -
  have u32: "unat (of_nat n :: u32) = n" using assms by (auto simp: unat_of_nat utf8_scalar_def)
  consider "n < 0x80" | "0x80 \<le> n" "n < 0x800" | "0x800 \<le> n" "n < 0x10000" | "0x10000 \<le> n" by linarith
  then show ?thesis
  proof cases
    case 1
    then show ?thesis by (simp add: utf8_encode_def decoder_defs byte_of_nat u32)
  next
    case 2
    define x y where "x = n div 0x40" and "y = n mod 0x40"
    then have n: "n = x * 0x40 + y" "y < 0x40" "2 \<le> x" "x < 0x20" using 2 by auto
    have "utf8_encode n = [of_nat (0xC0 + x), of_nat (0x80 + y)]" using 2 by (simp add: utf8_encode_def x_def y_def)
    moreover have "(0xC0 + x) mod 0x20 = x" "(0x80 + y) mod 0x40 = y" using n(2-) by (simp_all add: mod_shift)
    ultimately show ?thesis using n(2-) u32 n(1) by (simp add: decoder_defs byte_of_nat del: of_nat_add push_bit_and)
  next
    case 3
    define x y z where "x = n div 0x1000" and "y = n div 0x40 mod 0x40" and "z = n mod 0x40"
    then have n: "n = x * 0x1000 + y * 0x40 + z" "z < 0x40" "y < 0x40" using digits(1) [of n] by simp_all
    then have "x < 0x10" "x = 0 \<longrightarrow> 0x20 \<le> y" "x = 0xD \<longrightarrow> y < 0x20" using 3 assms by (auto simp: utf8_scalar_def)
    note n = n this
    have "utf8_encode n = [of_nat (0xE0 + x), of_nat (0x80 + y), of_nat (0x80 + z)]"
      using 3 by (simp add: utf8_encode_def x_def y_def z_def)
    moreover have "(0xE0 + x) mod 0x10 = x" "(0x80 + y) mod 0x40 = y" "(0x80 + z) mod 0x40 = z" using n(2-4) by (simp_all add: mod_shift)
    ultimately show ?thesis using n(2-) u32 n(1) by (simp add: decoder_defs byte_of_nat del: of_nat_add push_bit_and) linarith
  next
    case 4
    define x v y z where "x = n div 0x40000" and "v = n div 0x1000 mod 0x40" and "y = n div 0x40 mod 0x40" and "z = n mod 0x40"
    then have n: "n = x * 0x40000 + v * 0x1000 + y * 0x40 + z" "z < 0x40" "y < 0x40" "v < 0x40" using digits(2) [of n] by simp_all
    then have "x < 5" "x = 0 \<longrightarrow> 0x10 \<le> v" "x = 4 \<longrightarrow> v < 0x10" using 4 assms by (auto simp: utf8_scalar_def)
    note n = n this
    have "utf8_encode n = [of_nat (0xF0 + x), of_nat (0x80 + v), of_nat (0x80 + y), of_nat (0x80 + z)]"
      using 4 by (simp add: utf8_encode_def x_def v_def y_def z_def)
    moreover have "(0xF0 + x) mod 8 = x" "(0x80 + v) mod 0x40 = v" "(0x80 + y) mod 0x40 = y" "(0x80 + z) mod 0x40 = z"
      using n(2-5) by (simp_all add: mod_shift)
    ultimately show ?thesis using n(2-) u32 n(1) by (simp add: decoder_defs byte_of_nat del: of_nat_add push_bit_and) linarith
  qed
qed

lemma encode_digits:
  "2 \<le> x \<Longrightarrow> x < 0x20 \<Longrightarrow> y < 0x40 \<Longrightarrow> utf8_encode (x * 0x40 + y) = [of_nat (0xC0 + x), of_nat (0x80 + y)]"
  "x < 0x10 \<Longrightarrow> y < 0x40 \<Longrightarrow> z < 0x40 \<Longrightarrow> x = 0 \<longrightarrow> 0x20 \<le> y \<Longrightarrow>
     utf8_encode (x * 0x1000 + y * 0x40 + z) = [of_nat (0xE0 + x), of_nat (0x80 + y), of_nat (0x80 + z)]"
  "x < 5 \<Longrightarrow> v < 0x40 \<Longrightarrow> y < 0x40 \<Longrightarrow> z < 0x40 \<Longrightarrow> x = 0 \<longrightarrow> 0x10 \<le> v \<Longrightarrow>
     utf8_encode (x * 0x40000 + v * 0x1000 + y * 0x40 + z) =
       [of_nat (0xF0 + x), of_nat (0x80 + v), of_nat (0x80 + y), of_nat (0x80 + z)]"
proof -
  have d: "(m * 0x40 + k) div 0x40 = m" "(m * 0x40 + k) mod 0x40 = k" if "k < 0x40" for m k :: nat using that by simp_all
  have q: "n div 0x1000 = n div 0x40 div 0x40" "n div 0x40000 = n div 0x40 div 0x40 div 0x40" for n :: nat
    by (simp_all add: div_mult2_eq [symmetric])
  show "utf8_encode (x * 0x40 + y) = [of_nat (0xC0 + x), of_nat (0x80 + y)]" if "2 \<le> x" "x < 0x20" "y < 0x40"
    using that d [of y x] by (simp add: utf8_encode_def)
  show "utf8_encode (x * 0x1000 + y * 0x40 + z) = [of_nat (0xE0 + x), of_nat (0x80 + y), of_nat (0x80 + z)]"
    if "x < 0x10" "y < 0x40" "z < 0x40" "x = 0 \<longrightarrow> 0x20 \<le> y"
  proof -
    have n: "x * 0x1000 + y * 0x40 + z = (x * 0x40 + y) * 0x40 + z" by simp
    have "\<not> (x * 0x40 + y) * 0x40 + z < 0x800" "(x * 0x40 + y) * 0x40 + z < 0x10000"
      using that by (cases "x = 0"; simp)+
    then show ?thesis unfolding n utf8_encode_def q using d(1,2) [OF that(3), of "x * 0x40 + y"] d [OF that(2), of x]
      by simp
  qed
  show "utf8_encode (x * 0x40000 + v * 0x1000 + y * 0x40 + z) =
       [of_nat (0xF0 + x), of_nat (0x80 + v), of_nat (0x80 + y), of_nat (0x80 + z)]"
    if "x < 5" "v < 0x40" "y < 0x40" "z < 0x40" "x = 0 \<longrightarrow> 0x10 \<le> v"
  proof -
    have n: "x * 0x40000 + v * 0x1000 + y * 0x40 + z = ((x * 0x40 + v) * 0x40 + y) * 0x40 + z" by simp
    have "\<not> ((x * 0x40 + v) * 0x40 + y) * 0x40 + z < 0x10000" using that by (cases "x = 0"; simp)
    then show ?thesis unfolding n utf8_encode_def q
      using d(1,2) [OF that(4), of "(x * 0x40 + v) * 0x40 + y"] d [OF that(3), of "x * 0x40 + v"] d [OF that(2), of x]
      by simp
  qed
qed

lemma byte_from: "k \<le> unat b \<Longrightarrow> \<exists>x. unat b = k + x \<and> b = of_nat (k + x)" for b :: u8
  by (rule exI [of _ "unat b - k"]) (simp flip: of_nat_add)

lemma two_nat: "utf8_two (ucast a) (ucast d) \<longleftrightarrow> 0xC2 \<le> unat a \<and> unat a \<le> 0xDF \<and> 0x80 \<le> unat d \<and> unat d \<le> 0xBF"
  for a d :: u8
  by (simp add: utf8_two_def word_le_nat_alt unat_ucast_byte)

lemma three_nat:
  "utf8_three (ucast a) (ucast d) (ucast e) \<longleftrightarrow> 0xE0 \<le> unat a \<and> unat a \<le> 0xEF \<and>
     (if unat a = 0xE0 then 0xA0 else 0x80) \<le> unat d \<and> unat d \<le> (if unat a = 0xED then 0x9F else 0xBF) \<and>
     0x80 \<le> unat e \<and> unat e \<le> 0xBF" for a d e :: u8
  by (simp add: utf8_three_def word_le_nat_alt word_unat_eq_iff unat_ucast_byte) linarith

lemma four_nat:
  "utf8_four (ucast a) (ucast d) (ucast e) (ucast f) \<longleftrightarrow> 0xF0 \<le> unat a \<and> unat a \<le> 0xF4 \<and>
     (if unat a = 0xF0 then 0x90 else 0x80) \<le> unat d \<and> unat d \<le> (if unat a = 0xF4 then 0x8F else 0xBF) \<and>
     0x80 \<le> unat e \<and> unat e \<le> 0xBF \<and> 0x80 \<le> unat f \<and> unat f \<le> 0xBF" for a d e f :: u8
  by (simp add: utf8_four_def word_le_nat_alt word_unat_eq_iff unat_ucast_byte) linarith

lemma decoded_two:
  fixes a d :: u8 and c :: u32
  assumes "utf8_two (ucast a) (ucast d)" "c = push_bit 6 (ucast a AND 0x1F) OR (ucast d AND 0x3F)"
  shows "utf8_scalar (unat c) \<and> utf8_encode (unat c) = [a, d]"
proof -
  from assms(1) byte_from [of "0xC0" a] byte_from [of "0x80" d] obtain x y where
    x: "unat a = 0xC0 + x" "a = of_nat (0xC0 + x)" and y: "unat d = 0x80 + y" "d = of_nat (0x80 + y)" by (auto simp: two_nat)
  with assms(1) have l: "2 \<le> x" "x < 0x20" "y < 0x40" unfolding two_nat by simp_all
  have "unat c = x * 0x40 + y" unfolding assms(2) decoded unat_ucast_byte x(1) y(1) using l by (simp only: mod_shift)
  then show ?thesis using l encode_digits(1) [OF l] by (simp add: utf8_scalar_def x(2) y(2))
qed

lemma decoded_three:
  fixes a d e :: u8 and c :: u32
  assumes "utf8_three (ucast a) (ucast d) (ucast e)"
    "c = push_bit 12 (ucast a AND 0x0F) OR push_bit 6 (ucast d AND 0x3F) OR (ucast e AND 0x3F)"
  shows "utf8_scalar (unat c) \<and> utf8_encode (unat c) = [a, d, e]"
proof -
  note t = assms(1) [unfolded three_nat]
  from t have "0xE0 \<le> unat a" "0x80 \<le> unat d" "0x80 \<le> unat e" by (auto split: if_splits)
  with byte_from obtain x y z where x: "unat a = 0xE0 + x" "a = of_nat (0xE0 + x)" and
    y: "unat d = 0x80 + y" "d = of_nat (0x80 + y)" and z: "unat e = 0x80 + z" "e = of_nat (0x80 + z)" by metis
  with t have l: "x < 0x10" "y < 0x40" "z < 0x40" "x = 0 \<longrightarrow> 0x20 \<le> y" and s: "x = 0xD \<longrightarrow> y < 0x20"
    by (auto split: if_splits)
  have c: "unat c = x * 0x1000 + y * 0x40 + z"
    unfolding assms(2) decoded unat_ucast_byte x(1) y(1) z(1) using l by (simp only: mod_shift)
  moreover have "utf8_scalar (unat c)"
  proof -
    consider "x \<le> 12" | "x = 13" | "14 \<le> x" by linarith
    then show ?thesis unfolding c utf8_scalar_def using l s by cases (linarith, simp, linarith)
  qed
  ultimately show ?thesis using encode_digits(2) [OF l] by (simp add: x(2) y(2) z(2))
qed

lemma decoded_four:
  fixes a d e f :: u8 and c :: u32
  assumes "utf8_four (ucast a) (ucast d) (ucast e) (ucast f)"
    "c = push_bit 18 (ucast a AND 0x07) OR push_bit 12 (ucast d AND 0x3F) OR push_bit 6 (ucast e AND 0x3F) OR (ucast f AND 0x3F)"
  shows "utf8_scalar (unat c) \<and> utf8_encode (unat c) = [a, d, e, f]"
proof -
  note t = assms(1) [unfolded four_nat]
  from t have "0xF0 \<le> unat a" "0x80 \<le> unat d" "0x80 \<le> unat e" "0x80 \<le> unat f" by (auto split: if_splits)
  with byte_from obtain x v y z where x: "unat a = 0xF0 + x" "a = of_nat (0xF0 + x)" and
    v: "unat d = 0x80 + v" "d = of_nat (0x80 + v)" and
    y: "unat e = 0x80 + y" "e = of_nat (0x80 + y)" and z: "unat f = 0x80 + z" "f = of_nat (0x80 + z)" by metis
  with t have l: "x < 5" "v < 0x40" "y < 0x40" "z < 0x40" "x = 0 \<longrightarrow> 0x10 \<le> v" and s: "x = 4 \<longrightarrow> v < 0x10"
    by (auto split: if_splits)
  have c: "unat c = x * 0x40000 + v * 0x1000 + y * 0x40 + z"
    unfolding assms(2) decoded unat_ucast_byte x(1) v(1) y(1) z(1) using l by (simp only: mod_shift)
  moreover have "utf8_scalar (unat c)"
  proof -
    consider "x = 0" | "1 \<le> x" "x \<le> 3" | "x = 4" using l(1) by linarith
    then show ?thesis unfolding c utf8_scalar_def using l s by cases (simp, linarith, simp)
  qed
  ultimately show ?thesis using encode_digits(3) [OF l] by (simp add: x(2) v(2) y(2) z(2))
qed

lemma get_character_scalar:
  assumes "rrr_utf8_get_character bs = (0, c, r)" "bs \<noteq> []"
  shows "utf8_scalar (unat c) \<and> bs = utf8_encode (unat c) @ r"
proof -
  obtain a as where bs: "bs = a # as" using assms(2) by (cases bs) auto
  show ?thesis
  proof (cases "a \<le> 0x7F")
    case True
    with assms(1) bs have "unat c = unat a" "r = as" by (auto simp: rrr_utf8_get_character_def unat_ucast_byte)
    with True bs show ?thesis by (simp add: utf8_scalar_def utf8_encode_def word_le_nat_alt)
  next
    case False
    with assms(1) bs have "rrr_utf8_get_character_continue 0 (ucast a) as = (0, c, r)" by (simp add: rrr_utf8_get_character_def)
    then show ?thesis
      unfolding rrr_utf8_get_character_continue_def
      by (auto simp: bs decoded_two [OF _ refl] decoded_three [OF _ refl] decoded_four [OF _ refl]
          simp del: push_bit_and split: list.splits if_splits)
  qed
qed

subsection \<open>Texts\<close>

definition utf8_concat :: "nat list \<Rightarrow> u8 list" where
  "utf8_concat cps = concat (map utf8_encode cps)"

definition code_points :: "nat list \<Rightarrow> bool" where
  "code_points cps \<longleftrightarrow> list_all (\<lambda>n. utf8_scalar n \<and> n \<noteq> 0) cps"

text \<open>The calls of a callback over a list of characters, up to the first that does not return 0.\<close>

fun iterate_cb :: "(u32 \<Rightarrow> 's \<Rightarrow> c_int \<times> 's) \<Rightarrow> 's \<Rightarrow> nat list \<Rightarrow> c_int \<times> 's" where
  "iterate_cb callback w [] = (0, w)"
| "iterate_cb callback w (n # cps) =
     (case callback (of_nat n) w of (ret, w) \<Rightarrow> if ret \<noteq> 0 then (ret, w) else iterate_cb callback w cps)"

lemma utf8_concat_simps [simp]: "utf8_concat [] = []" "utf8_concat (n # cps) = utf8_encode n @ utf8_concat cps"
  "utf8_concat (xs @ ys) = utf8_concat xs @ utf8_concat ys"
  by (simp_all add: utf8_concat_def)

lemma code_points_simps [simp]: "code_points []" "code_points (n # cps) \<longleftrightarrow> utf8_scalar n \<and> n \<noteq> 0 \<and> code_points cps"
  "code_points (xs @ ys) \<longleftrightarrow> code_points xs \<and> code_points ys"
  by (simp_all add: code_points_def)

lemma utf8_encode_nonempty [simp]: "utf8_encode n \<noteq> []"
  by (simp add: utf8_encode_def)

lemma of_nat_scalar: "utf8_scalar n \<Longrightarrow> n \<noteq> 0 \<Longrightarrow> (of_nat n :: u32) \<noteq> 0" "utf8_scalar n \<Longrightarrow> unat (of_nat n :: u32) = n"
  by (auto simp: utf8_scalar_def word_unat_eq_iff unat_of_nat)

lemma iterate_concat:
  "code_points cps \<Longrightarrow> rrr_utf8_validate_and_iterate callback w (utf8_concat cps @ r) =
     (case iterate_cb callback w cps of (ret, w) \<Rightarrow>
        if ret \<noteq> 0 then (ret, w) else rrr_utf8_validate_and_iterate callback w r)"
  by (induction cps arbitrary: w)
    (simp_all add: rrr_utf8_validate_and_iterate.simps [of _ _ "utf8_encode _ @ _"] get_character_encode of_nat_scalar
      split: prod.split)

lemma iterate_inv:
  "rrr_utf8_validate_and_iterate callback w bs = (0, w') \<Longrightarrow>
   \<exists>cps r. bs = utf8_concat cps @ r \<and> code_points cps \<and> (r = [] \<or> hd r = 0) \<and> iterate_cb callback w cps = (0, w')"
proof (induction callback w bs rule: rrr_utf8_validate_and_iterate.induct)
  case (1 callback w bs)
  obtain ret c bs' where g: "rrr_utf8_get_character bs = (ret, c, bs')" by (cases "rrr_utf8_get_character bs") auto
  note eq = 1(2) [unfolded rrr_utf8_validate_and_iterate.simps [of callback w bs] g]
  show ?case
  proof (cases "bs = []")
    case True
    with eq g show ?thesis by (auto simp: rrr_utf8_get_character_def intro!: exI [of _ "[]"])
  next
    case False
    from eq have "ret = 0" by (auto split: if_splits)
    with g False get_character_scalar [of bs c bs'] have s: "utf8_scalar (unat c)" "bs = utf8_encode (unat c) @ bs'" by auto
    show ?thesis
    proof (cases "c = 0")
      case True
      with s have "hd bs = 0" by (simp add: utf8_encode_def)
      with eq \<open>ret = 0\<close> True show ?thesis by (intro exI [of _ "[]"] exI [of _ bs]) simp
    next
      case c: False
      obtain ret' w1 where cb: "callback c w = (ret', w1)" by (cases "callback c w")
      from eq c cb \<open>ret = 0\<close> have "ret' = 0" "rrr_utf8_validate_and_iterate callback w1 bs' = (0, w')" by (auto split: if_splits)
      with 1(1) [OF g [symmetric] refl _ cb [symmetric]] c \<open>ret = 0\<close> obtain cps r where
        "bs' = utf8_concat cps @ r" "code_points cps" "r = [] \<or> hd r = 0" "iterate_cb callback w1 cps = (0, w')" by auto
      with s c cb \<open>ret' = 0\<close> show ?thesis
        by (intro exI [of _ "unat c # cps"] exI [of _ r]) (simp add: unat_eq_0)
    qed
  qed
qed

lemma validate_is_iterate: "rrr_utf8_validate bs = fst (rrr_utf8_validate_and_iterate (\<lambda>_ _. (0, ())) () bs)"
  by (induction bs rule: rrr_utf8_validate.induct)
    (subst rrr_utf8_validate.simps, subst rrr_utf8_validate_and_iterate.simps, auto split: prod.splits)

lemma encode_no_nul: "utf8_scalar n \<Longrightarrow> n \<noteq> 0 \<Longrightarrow> 0 \<notin> set (utf8_encode n)"
  by (auto simp: utf8_encode_def utf8_scalar_def word_unat_eq_iff unat_of_nat unat_word_ariths)

lemma concat_no_nul: "code_points cps \<Longrightarrow> 0 \<notin> set (utf8_concat cps)"
  by (induction cps) (simp_all add: encode_no_nul)

lemma takeWhile_concat:
  assumes "code_points cps" "r = [] \<or> hd r = 0"
  shows "takeWhile (\<lambda>b. b \<noteq> 0) (utf8_concat cps @ r) = utf8_concat cps"
proof -
  have "takeWhile (\<lambda>b. b \<noteq> 0) r = []" using assms(2) by (cases r) auto
  then show ?thesis using concat_no_nul [OF assms(1)] by (subst takeWhile_append2) auto
qed

lemma iterate_nul: "r = [] \<or> hd r = 0 \<Longrightarrow> rrr_utf8_validate_and_iterate callback w r = (0, w)"
  by (subst rrr_utf8_validate_and_iterate.simps) (cases r, auto simp: rrr_utf8_get_character_def)

lemma iterate_exact:
  "rrr_utf8_validate_and_iterate callback w bs = (0, w') \<longleftrightarrow>
     (\<exists>cps. code_points cps \<and> takeWhile (\<lambda>b. b \<noteq> 0) bs = utf8_concat cps \<and> iterate_cb callback w cps = (0, w'))"
proof
  assume "rrr_utf8_validate_and_iterate callback w bs = (0, w')"
  from iterate_inv [OF this] takeWhile_concat
  show "\<exists>cps. code_points cps \<and> takeWhile (\<lambda>b. b \<noteq> 0) bs = utf8_concat cps \<and> iterate_cb callback w cps = (0, w')" by metis
next
  assume "\<exists>cps. code_points cps \<and> takeWhile (\<lambda>b. b \<noteq> 0) bs = utf8_concat cps \<and> iterate_cb callback w cps = (0, w')"
  then obtain cps where c: "code_points cps" "takeWhile (\<lambda>b. b \<noteq> 0) bs = utf8_concat cps" "iterate_cb callback w cps = (0, w')"
    by blast
  define r where "r = dropWhile (\<lambda>b. b \<noteq> 0) bs"
  have "bs = utf8_concat cps @ r" using c(2) takeWhile_dropWhile_id [of "\<lambda>b. b \<noteq> 0" bs] by (simp add: r_def)
  moreover have "r = [] \<or> hd r = 0" using hd_dropWhile [of "\<lambda>b. b \<noteq> 0" bs] by (auto simp: r_def)
  ultimately show "rrr_utf8_validate_and_iterate callback w bs = (0, w')"
    using iterate_concat [OF c(1), of callback w r] c(3) by (simp add: iterate_nul)
qed

lemma iterate_cb_unit [simp]: "iterate_cb (\<lambda>_. Pair 0) w cps = (0, w)"
  by (induction cps) simp_all

text \<open>The code points that the callback of the iteration is shown.\<close>

definition utf8_decode :: "u8 list \<Rightarrow> nat list option" where
  "utf8_decode bs =
     (case rrr_utf8_validate_and_iterate (\<lambda>c cps. (0, cps @ [unat c])) [] bs of (ret, cps) \<Rightarrow>
        if ret = 0 then Some cps else None)"

lemma iterate_cb_collect: "code_points cps \<Longrightarrow> iterate_cb (\<lambda>c cps. (0, cps @ [unat c])) acc cps = (0, acc @ cps)"
  by (induction cps arbitrary: acc) (simp_all add: of_nat_scalar)

interpretation utf8: codec code_points utf8_concat utf8_decode
  by unfold_locales
    (use iterate_concat [of _ "\<lambda>c cps. (0, cps @ [unat c])" "[]" "[]"] in
      \<open>simp add: utf8_decode_def iterate_cb_collect iterate_nul\<close>)

subsection \<open>Properties\<close>

text \<open>
  Claim C21: the validator accepts exactly the byte strings that, up to the first NUL byte, are a concatenation
  of UTF-8 encodings of Unicode scalar values (no surrogates, no overlong forms, no truncated character),
  and the iterating validator calls its callback with exactly these code points, in order, and returns
  0 if and only if the text is valid and every call of the callback returned 0. Two lists of code
  points with the same encoding are the same.
\<close>

theorem utf8_validate_exact:
  "(rrr_utf8_validate bs = 0 \<longleftrightarrow> (\<exists>cps. code_points cps \<and> takeWhile (\<lambda>b. b \<noteq> 0) bs = utf8_concat cps)) \<and>
   (rrr_utf8_validate_and_iterate callback w bs = (0, w') \<longleftrightarrow>
     (\<exists>cps. code_points cps \<and> takeWhile (\<lambda>b. b \<noteq> 0) bs = utf8_concat cps \<and> iterate_cb callback w cps = (0, w'))) \<and>
   inj_on utf8_concat {cps. code_points cps}"
proof (intro conjI)
  show "rrr_utf8_validate bs = 0 \<longleftrightarrow> (\<exists>cps. code_points cps \<and> takeWhile (\<lambda>b. b \<noteq> 0) bs = utf8_concat cps)"
    using iterate_exact [of "\<lambda>_ _. (0, ())" "()" bs "()"]
    by (simp add: validate_is_iterate prod_eq_iff)
  show "inj_on utf8_concat {cps. code_points cps}" by (auto intro!: inj_onI dest: utf8.encode_inj)
qed (rule iterate_exact)

end
