(* ===== verification/RRR_Mqtt_Topic.thy ===== *)
theory RRR_Mqtt_Topic
  imports RRR_Utf8
begin

text \<open>
  MQTT topics and topic filters, \<^verbatim>\<open>src/lib/mqtt/mqtt_topic.c\<close>. A C string is the list of its bytes
  without the terminator, a chain of tokens is the list of their strings (NULL is the empty
  list), and a pair of pointers to the begin and the end of a text is the list between them. The linear matcher,
  which reads the byte its pointer stands on before it looks at the end, gets the two memory objects
  and the two lengths. \<open>mem n\<close> says whether the \<open>n\<close>-th allocation succeeds.
  The theory shows that the two matchers compute the same relation, a declarative one on the levels of
  filter and topic, that validation gives the shape of a filter that this needs, and what the access control
  matcher promises.
\<close>

definition RRR_MQTT_TOKEN_OK :: c_int where "RRR_MQTT_TOKEN_OK = 0"
definition RRR_MQTT_TOKEN_MATCH :: c_int where "RRR_MQTT_TOKEN_MATCH = 0"
definition RRR_MQTT_TOKEN_INTERNAL_ERROR :: c_int where "RRR_MQTT_TOKEN_INTERNAL_ERROR = 1"
definition RRR_MQTT_TOKEN_MISMATCH :: c_int where "RRR_MQTT_TOKEN_MISMATCH = 4"

lemmas token_defs = RRR_MQTT_TOKEN_OK_def RRR_MQTT_TOKEN_MATCH_def RRR_MQTT_TOKEN_INTERNAL_ERROR_def
  RRR_MQTT_TOKEN_MISMATCH_def

abbreviation hash :: u8 where "hash \<equiv> 0x23"
abbreviation plus_sign :: u8 where "plus_sign \<equiv> 0x2b"
abbreviation dollar :: u8 where "dollar \<equiv> 0x24"
abbreviation slash :: u8 where "slash \<equiv> 0x2f"

definition c_string :: "u8 list \<Rightarrow> u8 list" where
  "c_string bs = takeWhile (\<lambda>c. c \<noteq> 0) bs"

definition first_char :: "u8 list \<Rightarrow> u8" where
  "first_char s = (case s of [] \<Rightarrow> 0 | c # _ \<Rightarrow> c)"

subsection \<open>Validation\<close>

record topic_name_seq =
  c1 :: u32
  c2 :: u32

definition rrr_mqtt_topic_filter_char_is_ok :: "u32 \<Rightarrow> topic_name_seq \<Rightarrow> c_int \<times> topic_name_seq" where
  "rrr_mqtt_topic_filter_char_is_ok c seq =
     (let seq = \<lparr>c1 = c2 seq, c2 = c\<rparr> in
      if c2 seq = 0x23 \<and> c1 seq \<noteq> 0x2f \<and> c1 seq \<noteq> 0 then (1, seq)
      else if c2 seq = 0x2b \<and> c1 seq \<noteq> 0x2f \<and> c1 seq \<noteq> 0 then (1, seq)
      else if c1 seq = 0x23 then (1, seq)
      else if c1 seq = 0x2b \<and> c2 seq \<noteq> 0x2f \<and> c1 seq \<noteq> 0 then (1, seq)
      else (0, seq))"

definition rrr_mqtt_topic_name_char_is_ok :: "u32 \<Rightarrow> topic_name_seq \<Rightarrow> c_int \<times> topic_name_seq" where
  "rrr_mqtt_topic_name_char_is_ok c seq = (if c = 0x23 \<or> c = 0x2b then (1, seq) else (0, seq))"

definition rrr_mqtt_topic_filter_validate_name :: "u8 list \<Rightarrow> c_int" where
  "rrr_mqtt_topic_filter_validate_name topic_filter =
     (if length topic_filter > 0xffff then 1
      else fst (rrr_utf8_validate_and_iterate rrr_mqtt_topic_filter_char_is_ok \<lparr>c1 = 0, c2 = 0\<rparr> topic_filter))"

definition rrr_mqtt_topic_validate_name_with_end :: "u8 list \<Rightarrow> c_int res" where
  "rrr_mqtt_topic_validate_name_with_end topic_name =
     (if topic_name = [] then Inr 1
      else bug_if (length topic_name > RRR_LENGTH_MAX)
        (Inr (fst (rrr_utf8_validate_and_iterate rrr_mqtt_topic_name_char_is_ok \<lparr>c1 = 0, c2 = 0\<rparr> topic_name))))"

definition rrr_mqtt_topic_validate_name :: "u8 list option \<Rightarrow> c_int res" where
  "rrr_mqtt_topic_validate_name topic_name =
     (case topic_name of None \<Rightarrow> Inr 1
      | Some name \<Rightarrow> if name = [] then Inr 1 else rrr_mqtt_topic_validate_name_with_end name)"

subsection \<open>Matching tokens\<close>

fun rrr_mqtt_topic_match_tokens_recursively :: "u8 list list \<Rightarrow> u8 list list \<Rightarrow> c_int res" where
  "rrr_mqtt_topic_match_tokens_recursively [] pub = Inr RRR_MQTT_TOKEN_MISMATCH"
| "rrr_mqtt_topic_match_tokens_recursively (s # sub) [] = Inr RRR_MQTT_TOKEN_MISMATCH"
| "rrr_mqtt_topic_match_tokens_recursively (s # sub) (p # pub) =
     (let continue = (if sub = [] \<and> pub = [] then Inr RRR_MQTT_TOKEN_MATCH
                      else rrr_mqtt_topic_match_tokens_recursively sub pub) in
      if first_char s = hash then
        bug_if (length s \<noteq> 1)
          (if first_char p = dollar then Inr RRR_MQTT_TOKEN_MISMATCH else Inr RRR_MQTT_TOKEN_MATCH)
      else if first_char s = plus_sign then
        bug_if (length s \<noteq> 1)
          (if first_char p = dollar then Inr RRR_MQTT_TOKEN_MISMATCH else continue)
      else if s \<noteq> p then Inr RRR_MQTT_TOKEN_MISMATCH
      else continue)"

fun rrr_mqtt_topic_match_tokens_recursively_acl :: "u8 list list \<Rightarrow> u8 list list \<Rightarrow> c_int" where
  "rrr_mqtt_topic_match_tokens_recursively_acl [] slave = RRR_MQTT_TOKEN_MISMATCH"
| "rrr_mqtt_topic_match_tokens_recursively_acl (m # master) [] = RRR_MQTT_TOKEN_MISMATCH"
| "rrr_mqtt_topic_match_tokens_recursively_acl (m # master) (s # slave) =
     (let continue = (if master = [] \<and> slave = [] then RRR_MQTT_TOKEN_MATCH
                      else rrr_mqtt_topic_match_tokens_recursively_acl master slave) in
      if first_char m = hash then RRR_MQTT_TOKEN_MATCH
      else if first_char s = hash then RRR_MQTT_TOKEN_MISMATCH
      else if first_char m = plus_sign \<or> first_char s = plus_sign then
        (if first_char m = dollar then RRR_MQTT_TOKEN_MISMATCH else continue)
      else if m \<noteq> s then RRR_MQTT_TOKEN_MISMATCH
      else continue)"

subsection \<open>Tokens\<close>

fun rrr_mqtt_topic_tokens_clone :: "(nat \<Rightarrow> bool) \<Rightarrow> nat \<Rightarrow> u8 list list \<Rightarrow> c_int \<times> u8 list list" where
  "rrr_mqtt_topic_tokens_clone mem n [] = (0, [])"
| "rrr_mqtt_topic_tokens_clone mem n (t # tokens) =
     (if \<not> mem n then (1, [])
      else case rrr_mqtt_topic_tokens_clone mem (n + 1) tokens of (ret, nxt) \<Rightarrow>
        if ret \<noteq> 0 then (ret, []) else (0, t # nxt))"

definition rrr_mqtt_topic_strnchr :: "u8 list \<Rightarrow> u8 \<Rightarrow> nat option" where
  "rrr_mqtt_topic_strnchr haystack chr =
     (let i = length (takeWhile (\<lambda>c. c \<noteq> chr) haystack) in if i < length haystack then Some i else None)"

text \<open>
  After a slash at the very end the token list continues with the token of the one byte string
  that consists of a NUL. A token of the greatest length makes the step \<open>len + 1\<close> wrap to 0, and the call
  repeats itself without end.
\<close>

function rrr_mqtt_topic_tokenize_with_end ::
    "(nat \<Rightarrow> bool) \<Rightarrow> nat \<Rightarrow> u8 list \<Rightarrow> (c_int \<times> u8 list list) res" where
  "rrr_mqtt_topic_tokenize_with_end mem n topic =
     (if topic = [] then Inr (0, [])
      else let token_end = (case rrr_mqtt_topic_strnchr topic slash of Some i \<Rightarrow> i | None \<Rightarrow> length topic) in
        bug_if (token_end > RRR_LENGTH_MAX)
        (if \<not> mem n then Inr (1, [])
         else let token = c_string (take token_end topic) in
           if token_end = length topic - 1 \<and> topic ! token_end = slash then
             bindr (rrr_mqtt_topic_tokenize_with_end mem (n + 1) [0]) (\<lambda>(ret, nxt).
             Inr (if ret \<noteq> 0 then (ret, []) else (0, token # nxt)))
           else if token_end = RRR_LENGTH_MAX then Inl Diverge
           else if token_end + 1 < length topic then
             bindr (rrr_mqtt_topic_tokenize_with_end mem (n + 1) (drop (token_end + 1) topic)) (\<lambda>(ret, nxt).
             Inr (if ret \<noteq> 0 then (ret, []) else (0, token # nxt)))
           else Inr (0, [token])))"
  by pat_completeness auto

termination rrr_mqtt_topic_tokenize_with_end
proof (relation "measure (\<lambda>(mem, n, topic). 2 * length topic + of_bool (topic \<noteq> [0]))", goal_cases)
  case (2 mem n topic x xa)
  then show ?case by (cases topic; cases "tl topic") auto
next
  case (3 mem n topic x xa)
  then show ?case by (cases "drop (x + 1) topic = [0]") auto
qed simp

declare rrr_mqtt_topic_tokenize_with_end.simps [simp del]

definition rrr_mqtt_topic_tokenize :: "(nat \<Rightarrow> bool) \<Rightarrow> u8 list \<Rightarrow> (c_int \<times> u8 list list) res" where
  "rrr_mqtt_topic_tokenize mem topic = rrr_mqtt_topic_tokenize_with_end mem 0 topic"

definition rrr_mqtt_topic_match_str_with_end ::
    "(nat \<Rightarrow> bool) \<Rightarrow> (nat \<Rightarrow> bool) \<Rightarrow> u8 list \<Rightarrow> u8 list \<Rightarrow> c_int res" where
  "rrr_mqtt_topic_match_str_with_end mem mem' sub_filter pub_topic =
     bindr (rrr_mqtt_topic_tokenize mem sub_filter) (\<lambda>(ret, sub_filter_tokens).
     if ret \<noteq> 0 then Inr RRR_MQTT_TOKEN_INTERNAL_ERROR
     else bindr (rrr_mqtt_topic_tokenize_with_end mem' 0 pub_topic) (\<lambda>(ret, pub_topic_tokens).
       if ret \<noteq> 0 then Inr RRR_MQTT_TOKEN_INTERNAL_ERROR
       else rrr_mqtt_topic_match_tokens_recursively sub_filter_tokens pub_topic_tokens))"

definition rrr_mqtt_topic_match_str :: "(nat \<Rightarrow> bool) \<Rightarrow> (nat \<Rightarrow> bool) \<Rightarrow> u8 list \<Rightarrow> u8 list \<Rightarrow> c_int res" where
  "rrr_mqtt_topic_match_str mem mem' sub_filter pub_topic =
     rrr_mqtt_topic_match_str_with_end mem mem' sub_filter pub_topic"

subsection \<open>Matching without tokens\<close>

definition char_at :: "u8 list \<Rightarrow> nat \<Rightarrow> u8 res" where
  "char_at object i = (if i < length object then Inr (object ! i) else Inl Bad_Access)"

text \<open>The loop that passes a level of the topic.\<close>

function topic_skip :: "u8 list \<Rightarrow> nat \<Rightarrow> nat \<Rightarrow> int \<Rightarrow> (nat \<times> int) res" where
  "topic_skip topic topic_end topic_pos topic_token_pos =
     (if topic_pos < topic_end then
        bindr (char_at topic topic_pos) (\<lambda>c.
        if c = slash then Inr (topic_pos, -1)
        else topic_skip topic topic_end (topic_pos + 1) topic_token_pos)
      else Inr (topic_pos, topic_token_pos))"
  by pat_completeness auto

termination topic_skip
  by (relation "measure (\<lambda>(topic, topic_end, topic_pos, topic_token_pos). topic_end - topic_pos)") auto

definition linear_matched :: "nat \<Rightarrow> u8 list \<Rightarrow> nat \<Rightarrow> nat \<Rightarrow> c_int res" where
  "linear_matched topic_end filter_text filter_pos topic_pos =
     bindr (char_at filter_text filter_pos) (\<lambda>f.
     if f \<noteq> hash then assertr (topic_pos = topic_end) (Inr RRR_MQTT_TOKEN_MATCH)
     else Inr RRR_MQTT_TOKEN_MATCH)"

text \<open>The body of the loop: \<open>Inl\<close> is a return, \<open>Inr\<close> the variables with which the loop goes on.\<close>

definition linear_body ::
    "u8 list \<Rightarrow> nat \<Rightarrow> u8 list \<Rightarrow> nat \<Rightarrow> nat \<Rightarrow> int \<Rightarrow> int \<Rightarrow> (c_int + nat \<times> int \<times> int) res" where
  "linear_body topic topic_end filter_text filter_pos topic_pos filter_token_pos topic_token_pos =
     bindr (char_at filter_text filter_pos) (\<lambda>f.
     if f = hash then
       assertr (topic_token_pos = 0) (assertr (filter_token_pos = 0)
         (bindr (char_at topic topic_pos) (\<lambda>t.
          if t = dollar then Inr (Inl RRR_MQTT_TOKEN_MISMATCH)
          else bindr (linear_matched topic_end filter_text filter_pos topic_pos) (\<lambda>ret. Inr (Inl ret)))))
     else if f = plus_sign then
       assertr (topic_token_pos = 0) (assertr (filter_token_pos = 0)
         (bindr (char_at topic topic_pos) (\<lambda>t.
          if t = dollar then Inr (Inl RRR_MQTT_TOKEN_MISMATCH)
          else bindr (topic_skip topic topic_end topic_pos topic_token_pos) (\<lambda>(topic_pos, topic_token_pos).
            Inr (Inr (topic_pos, filter_token_pos, topic_token_pos))))))
     else if topic_pos = topic_end then Inr (Inl RRR_MQTT_TOKEN_MISMATCH)
     else bindr (char_at topic topic_pos) (\<lambda>t.
       if f \<noteq> t then Inr (Inl RRR_MQTT_TOKEN_MISMATCH)
       else if f = slash then Inr (Inr (topic_pos + 1, -1, -1))
       else Inr (Inr (topic_pos + 1, filter_token_pos, topic_token_pos))))"

function linear_loop :: "u8 list \<Rightarrow> nat \<Rightarrow> u8 list \<Rightarrow> nat \<Rightarrow> nat \<Rightarrow> nat \<Rightarrow> int \<Rightarrow> int \<Rightarrow> c_int res" where
  "linear_loop topic topic_end filter_text filter_end filter_pos topic_pos filter_token_pos topic_token_pos =
     (if filter_pos < filter_end then
        bindr (linear_body topic topic_end filter_text filter_pos topic_pos filter_token_pos topic_token_pos) (\<lambda>r.
        case r of Inl ret \<Rightarrow> Inr ret
        | Inr (topic_pos, filter_token_pos, topic_token_pos) \<Rightarrow>
            bindr (int_inc filter_token_pos) (\<lambda>filter_token_pos.
            bindr (int_inc topic_token_pos) (\<lambda>topic_token_pos.
            linear_loop topic topic_end filter_text filter_end (filter_pos + 1) topic_pos filter_token_pos topic_token_pos)))
      else if topic_pos \<noteq> topic_end then Inr RRR_MQTT_TOKEN_MISMATCH
      else linear_matched topic_end filter_text filter_pos topic_pos)"
  by pat_completeness auto

termination linear_loop
  by (relation "measure (\<lambda>(topic, topic_end, filter_text, filter_end, filter_pos, _). filter_end - filter_pos)") auto

declare topic_skip.simps [simp del] linear_loop.simps [simp del]

definition rrr_mqtt_topic_match_topic_and_linear_with_end :: "u8 list \<Rightarrow> nat \<Rightarrow> u8 list \<Rightarrow> nat \<Rightarrow> c_int res" where
  "rrr_mqtt_topic_match_topic_and_linear_with_end topic topic_end filter_text filter_end =
     assertr (topic_end \<noteq> 0) (assertr (filter_end \<noteq> 0)
       (linear_loop topic topic_end filter_text filter_end 0 0 0 0))"

subsection \<open>Levels\<close>

fun levels :: "u8 list \<Rightarrow> u8 list list" where
  "levels [] = [[]]"
| "levels (c # cs) = (if c = slash then [] # levels cs else case levels cs of l # ls \<Rightarrow> (c # l) # ls | [] \<Rightarrow> [])"

text \<open>
  What a filter means: a plus sign stands for one level and a number sign at the end for one or more, neither for a level
  that begins with a dollar sign; any other level stands for itself.
\<close>

definition level_matches :: "u8 list \<Rightarrow> u8 list \<Rightarrow> bool" where
  "level_matches f t \<longleftrightarrow> (if f = [plus_sign] then first_char t \<noteq> dollar else f = t)"

definition topic_matches :: "u8 list list \<Rightarrow> u8 list list \<Rightarrow> bool" where
  "topic_matches fs ts \<longleftrightarrow>
     (if last fs = [hash]
      then length fs \<le> length ts \<and> list_all2 level_matches (butlast fs) (take (length fs - 1) ts) \<and>
           first_char (ts ! (length fs - 1)) \<noteq> dollar
      else list_all2 level_matches fs ts)"

text \<open>Wildcards fill their level, and the number sign is in the last one only.\<close>

definition filter_ok :: "u8 list list \<Rightarrow> bool" where
  "filter_ok fs \<longleftrightarrow> fs \<noteq> [] \<and> (\<forall>l \<in> set fs. plus_sign \<in> set l \<longrightarrow> l = [plus_sign]) \<and>
     (\<forall>l \<in> set (butlast fs). hash \<notin> set l) \<and> (hash \<in> set (last fs) \<longrightarrow> last fs = [hash])"

lemma levels_nonempty [simp]: "levels xs \<noteq> []"
  by (induction xs) (auto split: list.splits)

lemma levels_cons: "\<exists>l ls. levels xs = l # ls"
  by (cases "levels xs") auto

lemma levels_char: "c \<noteq> slash \<Longrightarrow> levels xs = l # ls \<Longrightarrow> levels (c # xs) = (c # l) # ls"
  by simp

lemma levels_single: "slash \<notin> set xs \<Longrightarrow> levels xs = [xs]"
  by (induction xs) auto

lemma levels_split: "slash \<notin> set xs \<Longrightarrow> levels (xs @ slash # ys) = xs # levels ys"
  by (induction xs) auto

lemma topic_matches_simps:
  "topic_matches [f] (t # ts) \<longleftrightarrow> (if f = [hash] then first_char t \<noteq> dollar else ts = [] \<and> level_matches f t)"
  "topic_matches (f # g # fs) (t # ts) \<longleftrightarrow> level_matches f t \<and> topic_matches (g # fs) ts"
  "topic_matches (f # fs) [] \<longleftrightarrow> False"
  by (auto simp: topic_matches_def split: if_splits)

lemma filter_ok_Cons: "filter_ok (f # g # fs) \<longleftrightarrow> (plus_sign \<in> set f \<longrightarrow> f = [plus_sign]) \<and> hash \<notin> set f \<and> filter_ok (g # fs)"
  by (auto simp: filter_ok_def)

lemma filter_ok_single: "filter_ok [f] \<longleftrightarrow> (plus_sign \<in> set f \<longrightarrow> f = [plus_sign]) \<and> (hash \<in> set f \<longrightarrow> f = [hash])"
  by (auto simp: filter_ok_def)

lemma first_char_simps [simp]: "first_char [] = 0" "first_char (c # cs) = c"
  by (simp_all add: first_char_def)

lemma first_char_set: "first_char s = c \<Longrightarrow> c \<noteq> 0 \<Longrightarrow> c \<in> set s"
  by (cases s) (auto simp: first_char_def)

lemma match_tokens_spec:
  "filter_ok sub \<Longrightarrow> rrr_mqtt_topic_match_tokens_recursively sub pub =
     Inr (if topic_matches sub pub then RRR_MQTT_TOKEN_MATCH else RRR_MQTT_TOKEN_MISMATCH)"
proof (induction sub pub rule: rrr_mqtt_topic_match_tokens_recursively.induct)
  case (3 s sub p pub)
  show ?case
  proof (cases sub)
    case Nil
    with 3(2) have w: "first_char s = hash \<Longrightarrow> s = [hash]" "first_char s = plus_sign \<Longrightarrow> s = [plus_sign]"
      using first_char_set [of s hash] first_char_set [of s plus_sign] by (auto simp: filter_ok_single)
    consider "s = [hash]" | "s = [plus_sign]" | "first_char s \<noteq> hash" "first_char s \<noteq> plus_sign" using w by blast
    then show ?thesis
      using Nil by cases (auto simp: Let_def topic_matches_simps level_matches_def)
  next
    case (Cons g fs)
    with 3(2) have w: "first_char s \<noteq> hash" "first_char s = plus_sign \<Longrightarrow> s = [plus_sign]" "filter_ok sub"
      using first_char_set [of s hash] first_char_set [of s plus_sign] by (auto simp: filter_ok_Cons)
    consider "s = [plus_sign]" | "first_char s \<noteq> hash" "first_char s \<noteq> plus_sign" using w by blast
    then show ?thesis
      using 3(1) [OF _ w(3)] Cons w(1)
      by cases (auto simp: Let_def topic_matches_simps level_matches_def)
  qed
qed (simp_all add: topic_matches_simps filter_ok_def)

text \<open>Which characters may follow each other in a filter.\<close>

definition pair_ok :: "u32 \<Rightarrow> u32 \<Rightarrow> bool" where
  "pair_ok p c \<longleftrightarrow> (c = 0x23 \<or> c = 0x2b \<longrightarrow> p = 0x2f \<or> p = 0) \<and> p \<noteq> 0x23 \<and> (p = 0x2b \<longrightarrow> c = 0x2f)"

fun pairs_ok :: "u8 \<Rightarrow> u8 list \<Rightarrow> bool" where
  "pairs_ok p [] \<longleftrightarrow> True"
| "pairs_ok p (c # cs) \<longleftrightarrow>
     (c = hash \<or> c = plus_sign \<longrightarrow> p = slash \<or> p = 0) \<and> p \<noteq> hash \<and> (p = plus_sign \<longrightarrow> c = slash) \<and> pairs_ok c cs"

lemma filter_char_pair:
  "rrr_mqtt_topic_filter_char_is_ok c seq = (ret, seq') \<Longrightarrow> c2 seq' = c \<and> (ret = 0 \<longleftrightarrow> pair_ok (c2 seq) c)"
  by (auto simp: rrr_mqtt_topic_filter_char_is_ok_def Let_def pair_ok_def split: if_splits)

lemma encode_high:
  assumes "0x80 \<le> n" "utf8_scalar n" "b \<in> set (utf8_encode n)"
  shows "0x80 \<le> unat b"
proof -
  have "n < 0x110000" using assms(2) by (auto simp: utf8_scalar_def)
  then have d: "n div 0x40000 < 5" "n < 0x800 \<Longrightarrow> n div 0x40 < 0x20" "n < 0x10000 \<Longrightarrow> n div 0x1000 < 0x10"
    by (simp_all add: less_mult_imp_div_less)
  have m: "x mod 0x40 < 0x40" for x :: nat by simp
  from assms(1,3) obtain k where k: "b = of_nat k"
    "n < 0x800 \<and> k = 0xC0 + n div 0x40 \<or> n < 0x10000 \<and> k = 0xE0 + n div 0x1000 \<or> k = 0xF0 + n div 0x40000 \<or>
     (\<exists>x. k = 0x80 + x mod 0x40)"
    by (auto simp: utf8_encode_def simp del: of_nat_add of_nat_numeral split: if_splits)
  then have "0x80 \<le> k" "k < 0x100" using d m by fastforce+
  with k(1) show ?thesis by (simp add: unat_of_nat)
qed

definition same_char :: "u32 \<Rightarrow> u8 \<Rightarrow> bool" where
  "same_char c b \<longleftrightarrow> unat c = unat b \<and> unat b < 0x80 \<or> 0x80 \<le> unat c \<and> 0x80 \<le> unat b"

lemma same_char_eq:
  "same_char c b \<Longrightarrow> (c = 0x23 \<longleftrightarrow> b = hash) \<and> (c = 0x2b \<longleftrightarrow> b = plus_sign) \<and> (c = 0x2f \<longleftrightarrow> b = slash) \<and> (c = 0 \<longleftrightarrow> b = 0)"
  by (auto simp: same_char_def word_unat_eq_iff)

lemma pairs_high:
  "bs \<noteq> [] \<Longrightarrow> \<forall>b \<in> set bs. 0x80 \<le> unat b \<Longrightarrow>
   pairs_ok p (bs @ r) \<longleftrightarrow> p \<noteq> hash \<and> p \<noteq> plus_sign \<and> pairs_ok (last bs) r"
proof (induction bs arbitrary: p)
  case (Cons b bs)
  have "b \<noteq> hash" "b \<noteq> plus_sign" "b \<noteq> slash" using Cons.prems(2) by auto
  then show ?case using Cons.IH [of b] Cons.prems(2) by (cases "bs = []") simp_all
qed simp

lemma iterate_pairs:
  "code_points cps \<Longrightarrow> same_char (c2 seq) p \<Longrightarrow>
   fst (iterate_cb rrr_mqtt_topic_filter_char_is_ok seq cps) = 0 \<longleftrightarrow> pairs_ok p (utf8_concat cps)"
proof (induction cps arbitrary: seq p)
  case (Cons n cps)
  obtain ret seq' where cb: "rrr_mqtt_topic_filter_char_is_ok (of_nat n) seq = (ret, seq')" by (cases "rrr_mqtt_topic_filter_char_is_ok (of_nat n) seq")
  from filter_char_pair [OF cb] have q: "c2 seq' = of_nat n" "ret = 0 \<longleftrightarrow> pair_ok (c2 seq) (of_nat n)" by auto
  have n: "unat (of_nat n :: u32) = n" using Cons.prems(1) by (simp add: of_nat_scalar)
  have IH: "fst (iterate_cb rrr_mqtt_topic_filter_char_is_ok seq' cps) = 0 \<longleftrightarrow> pairs_ok b (utf8_concat cps)"
    if "same_char (of_nat n) b" for b using Cons.IH [of seq' b] Cons.prems(1) that q(1) by simp
  note eqs = same_char_eq [OF Cons.prems(2)]
  show ?case
  proof (cases "n < 0x80")
    case True
    then have b: "same_char (of_nat n) (of_nat n)" by (simp add: same_char_def unat_of_nat)
    have e: "utf8_encode n = [of_nat n]" using True by (simp add: utf8_encode_def)
    show ?thesis using IH [OF b] cb q(2) eqs same_char_eq [OF b] by (auto simp: e pair_ok_def)
  next
    case False
    with Cons.prems(1) encode_high [of n] have h: "\<forall>b \<in> set (utf8_encode n). 0x80 \<le> unat b" by auto
    then have b: "same_char (of_nat n) (last (utf8_encode n))" using False n by (simp add: same_char_def)
    have "pair_ok (c2 seq) (of_nat n) \<longleftrightarrow> p \<noteq> hash \<and> p \<noteq> plus_sign"
    proof -
      have "(of_nat n :: u32) \<noteq> 0x23" "(of_nat n :: u32) \<noteq> 0x2b" "(of_nat n :: u32) \<noteq> 0x2f"
        using False n by (auto simp: word_unat_eq_iff)
      then show ?thesis using eqs by (auto simp: pair_ok_def)
    qed
    then show ?thesis using IH [OF b] cb q(2) pairs_high [OF _ h] by auto
  qed
qed simp

lemma levels_Nil_level: "levels f = [] # ms \<longleftrightarrow> f = [] \<and> ms = [] \<or> (\<exists>g. f = slash # g \<and> ms = levels g)"
  by (cases f) (auto split: list.splits)

definition literal :: "u8 list \<Rightarrow> bool" where
  "literal l \<longleftrightarrow> hash \<notin> set l \<and> plus_sign \<notin> set l"

lemma filter_ok_literal:
  "c \<noteq> hash \<Longrightarrow> c \<noteq> plus_sign \<Longrightarrow> filter_ok ((c # m) # ms) \<longleftrightarrow> literal m \<and> filter_ok (m # ms)"
  by (cases ms) (auto simp: filter_ok_Cons filter_ok_single literal_def)

lemma filter_ok_hash: "filter_ok ((hash # m) # ms) \<longleftrightarrow> m = [] \<and> ms = []"
  by (cases ms) (auto simp: filter_ok_Cons filter_ok_single)

lemma filter_ok_plus: "filter_ok ((plus_sign # m) # ms) \<longleftrightarrow> m = [] \<and> (ms = [] \<or> filter_ok ms)"
  by (cases ms) (auto simp: filter_ok_Cons filter_ok_single)

lemma filter_ok_empty: "ms \<noteq> [] \<Longrightarrow> filter_ok ([] # ms) \<longleftrightarrow> filter_ok ms"
  by (cases ms) (auto simp: filter_ok_Cons)

lemma pairs_levels:
  "0 \<notin> set f \<Longrightarrow> p = 0 \<or> p = slash \<Longrightarrow> pairs_ok p f \<longleftrightarrow> filter_ok (levels f)"
  "0 \<notin> set f \<Longrightarrow> p \<notin> {0, slash, hash, plus_sign} \<Longrightarrow> pairs_ok p f \<longleftrightarrow> filter_ok (levels f) \<and> literal (hd (levels f))"
proof (induction f arbitrary: p)
  case Nil
  { case 1 show ?case by (simp add: filter_ok_single) }
  { case 2 show ?case by (simp add: filter_ok_single literal_def) }
next
  case (Cons c f)
  obtain m ms where m: "levels f = m # ms" using levels_cons by blast
  have f: "0 \<notin> set f" "c \<noteq> 0" if "0 \<notin> set (c # f)" using that by auto
  consider "c = slash" | "c = hash" | "c = plus_sign" | "c \<notin> {slash, hash, plus_sign}" by blast
  note cs = this
  { case 1
    from cs show ?case
    proof cases
      case 1
      with Cons.IH(1) [of slash] f [OF \<open>0 \<notin> set (c # f)\<close>] \<open>p = 0 \<or> p = slash\<close> show ?thesis by (auto simp: filter_ok_empty)
    next
      case 2
      have "levels f = [[]] \<longleftrightarrow> f = []" by (cases f) (auto split: list.splits)
      with 2 m \<open>p = 0 \<or> p = slash\<close> show ?thesis by (cases f) (auto simp: filter_ok_hash)
    next
      case 3
      have "pairs_ok plus_sign f \<longleftrightarrow> m = [] \<and> (ms = [] \<or> filter_ok ms)"
      proof (cases f)
        case Nil
        with m show ?thesis by simp
      next
        case (Cons d g)
        show ?thesis
        proof (cases "d = slash")
          case True
          with Cons m have "m = []" "ms = levels g" by auto
          with Cons.IH(1) [of slash] f [OF \<open>0 \<notin> set (c # f)\<close>] Cons True show ?thesis by (auto simp: filter_ok_empty)
        next
          case False
          with Cons m show ?thesis by (auto split: list.splits)
        qed
      qed
      with 3 m \<open>p = 0 \<or> p = slash\<close> show ?thesis by (auto simp: filter_ok_plus)
    next
      case 4
      with Cons.IH(2) [of c] f [OF \<open>0 \<notin> set (c # f)\<close>] m \<open>p = 0 \<or> p = slash\<close> show ?thesis
        by (auto simp: filter_ok_literal)
    qed
  }
  { case 2
    from cs show ?case
    proof cases
      case 1
      with Cons.IH(1) [of slash] f [OF \<open>0 \<notin> set (c # f)\<close>] \<open>p \<notin> {0, slash, hash, plus_sign}\<close> show ?thesis
        by (auto simp: filter_ok_empty literal_def)
    next
      case 4
      with Cons.IH(2) [of c] f [OF \<open>0 \<notin> set (c # f)\<close>] m \<open>p \<notin> {0, slash, hash, plus_sign}\<close> show ?thesis
        by (auto simp: filter_ok_literal literal_def)
    qed (use m \<open>p \<notin> {0, slash, hash, plus_sign}\<close> in \<open>auto simp: literal_def\<close>)
  }
qed

lemma validate_filter_exact:
  assumes "0 \<notin> set f"
  shows "rrr_mqtt_topic_filter_validate_name f = 0 \<longleftrightarrow>
     length f \<le> 0xffff \<and> (\<exists>cps. code_points cps \<and> f = utf8_concat cps) \<and> filter_ok (levels f)"
proof -
  let ?v = "rrr_utf8_validate_and_iterate rrr_mqtt_topic_filter_char_is_ok \<lparr>c1 = 0, c2 = 0\<rparr> f"
  have tw: "takeWhile (\<lambda>b. b \<noteq> 0) f = f" using assms by (auto simp: takeWhile_eq_all_conv)
  have "fst ?v = 0 \<longleftrightarrow> (\<exists>w. ?v = (0, w))" by (cases ?v) auto
  also have "\<dots> \<longleftrightarrow> (\<exists>cps. code_points cps \<and> f = utf8_concat cps \<and>
      fst (iterate_cb rrr_mqtt_topic_filter_char_is_ok \<lparr>c1 = 0, c2 = 0\<rparr> cps) = 0)"
    unfolding iterate_exact tw by (metis fst_conv prod.collapse)
  also have "\<dots> \<longleftrightarrow> (\<exists>cps. code_points cps \<and> f = utf8_concat cps) \<and> pairs_ok 0 f"
    using iterate_pairs [of _ "\<lparr>c1 = 0, c2 = 0\<rparr>" 0] by (auto simp: same_char_def)
  finally show ?thesis using pairs_levels(1) [OF assms, of 0] by (auto simp: rrr_mqtt_topic_filter_validate_name_def)
qed

subsection \<open>The linear matcher\<close>

text \<open>The linear matcher on the rests of filter and topic.\<close>

fun linear :: "u8 list \<Rightarrow> u8 list \<Rightarrow> bool" where
  "linear [] t \<longleftrightarrow> t = []"
| "linear (c # f) t \<longleftrightarrow>
     (if c = hash then first_char t \<noteq> dollar
      else if c = plus_sign then first_char t \<noteq> dollar \<and> linear f (dropWhile (\<lambda>x. x \<noteq> slash) t)
      else t \<noteq> [] \<and> hd t = c \<and> linear f (tl t))"

lemma first_char_levels: "levels t = m # ms \<Longrightarrow> first_char m = dollar \<longleftrightarrow> first_char t = dollar"
  by (cases t) (auto split: if_splits list.splits)

lemma topic_matches_levels: "gs \<noteq> [] \<Longrightarrow> topic_matches (f # gs) (t # ts) \<longleftrightarrow> level_matches f t \<and> topic_matches gs ts"
  by (cases gs) (simp_all add: topic_matches_simps)

lemma topic_matches_literal:
  "literal f \<Longrightarrow> topic_matches (f # fs) (t # ts) \<longleftrightarrow> f = t \<and> (if fs = [] then ts = [] else topic_matches fs ts)"
  by (cases fs) (auto simp: topic_matches_simps level_matches_def literal_def)

lemma linear_levels:
  "0 \<notin> set f \<Longrightarrow> pairs_ok p f \<Longrightarrow> p \<noteq> hash \<Longrightarrow> p \<noteq> plus_sign \<Longrightarrow> linear f t \<longleftrightarrow> topic_matches (levels f) (levels t)"
proof (induction f arbitrary: p t)
  case Nil
  show ?case by (cases t) (auto simp: topic_matches_simps level_matches_def split: list.splits)
next
  case (Cons c f)
  obtain m ms where m: "levels f = m # ms" using levels_cons by blast
  obtain n ns where n: "levels t = n # ns" using levels_cons by blast
  have f: "0 \<notin> set f" "c \<noteq> 0" "pairs_ok c f" using Cons.prems by auto
  consider "c = slash" | "c = hash" | "c = plus_sign" | "c \<notin> {slash, hash, plus_sign}" by blast
  then show ?case
  proof cases
    case 1
    with Cons.IH [of slash "tl t"] f m show ?thesis
      by (cases t) (auto simp: topic_matches_simps level_matches_def split: list.splits)
  next
    case 2
    with f have "f = []" by (cases f) auto
    with 2 m n first_char_levels [OF n] show ?thesis by (auto simp: topic_matches_simps)
  next
    case 3
    show ?thesis
    proof (cases f)
      case Nil
      have "dropWhile (\<lambda>x. x \<noteq> slash) t = [] \<longleftrightarrow> ns = []"
      proof (cases "slash \<in> set t")
        case True
        then obtain a b where "t = a @ slash # b" "slash \<notin> set a" by (meson split_list_first)
        with n levels_split [of a b] show ?thesis by (auto simp: dropWhile_append)
      next
        case False
        with n levels_single [OF False] show ?thesis by auto
      qed
      with 3 Nil n first_char_levels [OF n] show ?thesis by (auto simp: topic_matches_simps level_matches_def)
    next
      case (Cons d g)
      with f 3 have d: "d = slash" by auto
      show ?thesis
      proof (cases "slash \<in> set t")
        case True
        then obtain a b where ab: "t = a @ slash # b" "slash \<notin> set a" by (meson split_list_first)
        then have dw: "dropWhile (\<lambda>x. x \<noteq> slash) t = slash # b" by (auto simp: dropWhile_append)
        have "linear f (slash # b) \<longleftrightarrow> topic_matches (levels f) (levels (slash # b))"
          using Cons.IH [of slash "slash # b"] f Cons d by auto
        then show ?thesis using 3 dw ab levels_split [OF ab(2)] first_char_levels [of t a "levels b"] Cons d m
          by (auto simp: topic_matches_levels level_matches_def)
      next
        case False
        then have "dropWhile (\<lambda>x. x \<noteq> slash) t = []" by auto
        with 3 Cons d levels_single [OF False] levels_cons [of g] show ?thesis by (auto simp: topic_matches_simps)
      qed
    qed
  next
    case 4
    have lit: "literal m" using pairs_levels(2) [of f c] f 4 m by auto
    have lit': "literal (c # m)" using lit 4 by (simp add: literal_def)
    show ?thesis
    proof (cases t)
      case Nil
      with 4 m lit' show ?thesis by (simp add: topic_matches_literal)
    next
      case (Cons x u)
      obtain q qs where q: "levels u = q # qs" using levels_cons by blast
      show ?thesis
      proof (cases "x = c")
        case True
        with Cons.IH [of c u] f 4 m q Cons lit lit' show ?thesis by (simp add: topic_matches_literal)
      next
        case False
        with 4 m q Cons lit' show ?thesis by (simp add: topic_matches_literal)
      qed
    qed
  qed
qed

lemma char_at_app [simp]: "i < length xs \<Longrightarrow> char_at (xs @ ys) i = Inr (xs ! i)" "char_at (xs @ y # ys) (length xs) = Inr y"
  by (simp_all add: char_at_def nth_append)

lemma topic_skip_ok:
  "tp \<le> length t \<Longrightarrow> \<exists>tp' k'. topic_skip (t @ r) (length t) tp k = Inr (tp', k') \<and> tp' \<le> length t \<and>
     drop tp' t = dropWhile (\<lambda>x. x \<noteq> slash) (drop tp t) \<and> (k' = k \<or> k' = -1)"
proof (induction "length t - tp" arbitrary: tp)
  case 0
  then show ?case by (subst topic_skip.simps) simp
next
  case (Suc n)
  then have tp: "tp < length t" by simp
  then have d: "drop tp t = t ! tp # drop (tp + 1) t" by (simp add: Cons_nth_drop_Suc)
  show ?case
  proof (cases "t ! tp = slash")
    case True
    with tp d show ?thesis by (subst topic_skip.simps) auto
  next
    case False
    have "\<exists>tp' k'. topic_skip (t @ r) (length t) (tp + 1) k = Inr (tp', k') \<and> tp' \<le> length t \<and>
       drop tp' t = dropWhile (\<lambda>x. x \<noteq> slash) (drop (tp + 1) t) \<and> (k' = k \<or> k' = -1)"
      using Suc tp by (intro Suc(1)) simp_all
    with tp d False show ?thesis by (subst topic_skip.simps) simp
  qed
qed

definition match_code :: "bool \<Rightarrow> c_int" where
  "match_code b = (if b then RRR_MQTT_TOKEN_MATCH else RRR_MQTT_TOKEN_MISMATCH)"

lemma linear_loop_ok:
  assumes "0 \<notin> set f" "length f \<le> 0xffff" "x \<noteq> dollar"
  shows "fp \<le> length f \<Longrightarrow> tp \<le> length t \<Longrightarrow> pairs_ok p (drop fp f) \<Longrightarrow> p = 0 \<or> p = slash \<longrightarrow> k = 0 \<and> j = 0 \<Longrightarrow>
     0 \<le> k \<Longrightarrow> k \<le> int fp \<Longrightarrow> 0 \<le> j \<Longrightarrow> j \<le> int fp \<Longrightarrow>
     linear_loop (t @ x # r) (length t) (f @ 0 # r') (length f) fp tp k j = Inr (match_code (linear (drop fp f) (drop tp t)))"
proof (induction "length f - fp" arbitrary: fp tp p k j)
  case 0
  then have "fp = length f" by simp
  with 0 show ?case by (subst linear_loop.simps) (simp add: linear_matched_def match_code_def)
next
  case (Suc n)
  then have fp: "fp < length f" by simp
  let ?c = "f ! fp"
  have d: "drop fp f = ?c # drop (fp + 1) f" using fp by (simp add: Cons_nth_drop_Suc)
  have pr: "pairs_ok ?c (drop (fp + 1) f)" "?c = hash \<or> ?c = plus_sign \<longrightarrow> p = slash \<or> p = 0" using Suc.prems(3) d by auto
  have c0: "?c \<noteq> 0" using assms(1) fp nth_mem by metis
  let ?tc = "if tp < length t then t ! tp else x"
  have tc: "char_at (t @ x # r) tp = Inr ?tc" "first_char (drop tp t) = dollar \<longleftrightarrow> ?tc = dollar"
    using Suc.prems(2) assms(3) by (auto simp: char_at_def nth_append first_char_def Cons_nth_drop_Suc [symmetric] split: list.split)
  have IH: "bindr (int_inc k') (\<lambda>k. bindr (int_inc j')
      (\<lambda>j. linear_loop (t @ x # r) (length t) (f @ 0 # r') (length f) (fp + 1) tp' k j)) =
      Inr (match_code (linear (drop (fp + 1) f) (drop tp' t)))"
    if "tp' \<le> length t" "?c = slash \<longrightarrow> k' = -1 \<and> j' = -1" "-1 \<le> k'" "k' \<le> int fp" "-1 \<le> j'" "j' \<le> int fp" for tp' k' j'
    using Suc.hyps(1) [of "fp + 1" tp' ?c "k' + 1" "j' + 1"] Suc.hyps(2) fp that pr(1) c0 assms(2) Suc.prems
    by (auto simp: INT_MAX_def)
  have run: "linear_loop (t @ x # r) (length t) (f @ 0 # r') (length f) fp tp k j =
      bindr (linear_body (t @ x # r) (length t) (f @ 0 # r') fp tp k j) (\<lambda>res.
        case res of Inl ret \<Rightarrow> Inr ret
        | Inr (tp', k, j) \<Rightarrow> bindr (int_inc k) (\<lambda>k. bindr (int_inc j)
            (\<lambda>j. linear_loop (t @ x # r) (length t) (f @ 0 # r') (length f) (fp + 1) tp' k j)))"
    using fp by (subst linear_loop.simps) simp
  consider "?c = hash" | "?c = plus_sign" | "?c \<noteq> hash" "?c \<noteq> plus_sign" by blast
  then show ?case
  proof cases
    case 1
    with pr(2) Suc.prems(4) have "k = 0" "j = 0" by auto
    with 1 fp tc d show ?thesis unfolding run
      by (simp add: linear_body_def linear_matched_def match_code_def)
  next
    case 2
    with pr(2) Suc.prems(4) have kj: "k = 0" "j = 0" by auto
    from topic_skip_ok [OF Suc.prems(2), of "x # r" 0] obtain tp' k' where
      s: "topic_skip (t @ x # r) (length t) tp 0 = Inr (tp', k')" "tp' \<le> length t"
        "drop tp' t = dropWhile (\<lambda>x. x \<noteq> slash) (drop tp t)" "k' = 0 \<or> k' = -1" by blast
    with 2 kj fp tc d IH [of tp' 0 k'] show ?thesis unfolding run
      by (auto simp: linear_body_def match_code_def)
  next
    case 3
    show ?thesis
    proof (cases "tp < length t \<and> t ! tp = ?c")
      case True
      then have "drop tp t = ?c # drop (tp + 1) t" by (simp add: Cons_nth_drop_Suc [symmetric])
      with True 3 fp d IH [of "tp + 1" "-1" "-1"] IH [of "tp + 1" k j] Suc.prems show ?thesis unfolding run
        by (cases "?c = slash") (simp_all add: linear_body_def)
    next
      case False
      then have "drop tp t = [] \<or> hd (drop tp t) \<noteq> ?c" by (cases "tp < length t") (auto simp: hd_drop_conv_nth)
      with False 3 fp d tc Suc.prems(2) show ?thesis unfolding run
        by (cases "tp = length t") (auto simp: linear_body_def match_code_def)
    qed
  qed
qed

subsection \<open>The tokens are the levels\<close>

definition with_memory :: "(nat \<Rightarrow> bool) \<Rightarrow> nat \<Rightarrow> u8 list list \<Rightarrow> c_int \<times> u8 list list" where
  "with_memory mem n tokens = (if \<forall>i < length tokens. mem (n + i) then (0, tokens) else (1, []))"

lemma with_memory_Cons:
  "with_memory mem n (t # ts) =
     (if \<not> mem n then (1, []) else case with_memory mem (n + 1) ts of (ret, nxt) \<Rightarrow> if ret \<noteq> 0 then (ret, []) else (0, t # nxt))"
proof -
  have "(\<forall>i < length (t # ts). mem (n + i)) \<longleftrightarrow> mem n \<and> (\<forall>i < length ts. mem (n + 1 + i))"
    by (simp add: All_less_Suc2)
  then show ?thesis unfolding with_memory_def by auto
qed

lemma with_memory_single: "with_memory mem n [t] = (if mem n then (0, [t]) else (1, []))"
  by (simp add: with_memory_def)

lemma tokens_clone_exact: "rrr_mqtt_topic_tokens_clone mem n tokens = with_memory mem n tokens"
  by (induction mem n tokens rule: rrr_mqtt_topic_tokens_clone.induct) (simp_all add: with_memory_Cons, simp add: with_memory_def)

lemma c_string_id: "0 \<notin> set xs \<Longrightarrow> c_string xs = xs"
  by (auto simp: c_string_def takeWhile_eq_all_conv)

lemma tokenize_nul: "rrr_mqtt_topic_tokenize_with_end mem n [0] = Inr (with_memory mem n [[]])"
  by (subst rrr_mqtt_topic_tokenize_with_end.simps)
    (simp add: rrr_mqtt_topic_strnchr_def RRR_LENGTH_MAX_def c_string_def with_memory_single)

lemma tokenize_levels:
  "ts \<noteq> [] \<Longrightarrow> 0 \<notin> set ts \<Longrightarrow> length ts < RRR_LENGTH_MAX \<Longrightarrow>
   rrr_mqtt_topic_tokenize_with_end mem n ts = Inr (with_memory mem n (levels ts))"
proof (induction "length ts" arbitrary: ts n rule: less_induct)
  case less
  show ?case
  proof (cases "slash \<in> set ts")
    case False
    then have tw: "takeWhile (\<lambda>c. c \<noteq> slash) ts = ts" by (auto simp: takeWhile_eq_all_conv)
    have "rrr_mqtt_topic_strnchr ts slash = None" unfolding rrr_mqtt_topic_strnchr_def tw by simp
    moreover have "length ts \<noteq> length ts - 1" using less.prems(1) by (cases ts) auto
    ultimately show ?thesis using False less.prems
      by (subst rrr_mqtt_topic_tokenize_with_end.simps) (simp add: Let_def c_string_id levels_single with_memory_single)
  next
    case True
    then obtain a b where ab: "ts = a @ slash # b" "slash \<notin> set a" by (meson split_list_first)
    then have "takeWhile (\<lambda>c. c \<noteq> slash) ts = a" by (auto simp: takeWhile_append)
    then have sn: "rrr_mqtt_topic_strnchr (a @ slash # b) slash = Some (length a)"
      using ab(1) by (simp add: rrr_mqtt_topic_strnchr_def)
    have a0: "c_string a = a" using less.prems(2) ab(1) by (simp add: c_string_id)
    show ?thesis
    proof (cases "b = []")
      case True
      with ab sn a0 less.prems show ?thesis
        by (subst rrr_mqtt_topic_tokenize_with_end.simps)
          (simp add: tokenize_nul levels_split Let_def with_memory_Cons [of mem n a] split: prod.splits)
    next
      case False
      have IH: "rrr_mqtt_topic_tokenize_with_end mem (n + 1) b = Inr (with_memory mem (n + 1) (levels b))"
        using False less.prems ab by (intro less.hyps) auto
      with ab sn a0 less.prems False show ?thesis
        by (subst rrr_mqtt_topic_tokenize_with_end.simps)
          (simp add: levels_split Let_def with_memory_Cons [of mem n a] split: prod.splits)
    qed
  qed
qed

subsection \<open>Properties\<close>

lemma linear_match_exact:
  assumes "rrr_mqtt_topic_filter_validate_name f = 0" "0 \<notin> set f" "f \<noteq> []" "t \<noteq> []" "x \<noteq> dollar"
  shows "rrr_mqtt_topic_match_topic_and_linear_with_end (t @ x # r) (length t) (f @ 0 # r') (length f) =
    Inr (match_code (topic_matches (levels f) (levels t)))"
proof -
  from validate_filter_exact [OF assms(2)] assms(1) have f: "length f \<le> 0xffff" "filter_ok (levels f)" by auto
  then have p: "pairs_ok 0 f" using pairs_levels(1) [OF assms(2), of 0] by simp
  show ?thesis
    using linear_loop_ok [OF assms(2) f(1) assms(5), of 0 0 t 0 0 0 r r'] linear_levels [OF assms(2) p] assms(3,4) p
    by (simp add: rrr_mqtt_topic_match_topic_and_linear_with_end_def)
qed

text \<open>
  Claim C12: a filter that passes validation and a topic without NUL byte are matched by the linear matcher (which
  the discern stacks use) and by splitting both into tokens and comparing these (which the broker uses) with
  the same result, and without a failed assertion, a call of RRR_BUG or a read outside the two objects.
  The result is a match exactly if the levels of the filter match those of the topic in the declarative sense
  of \<open>topic_matches\<close>. The filter is a C string, and the topic is followed by a byte that is not a dollar sign.
\<close>

theorem topic_matchers_agree:
  assumes "rrr_mqtt_topic_filter_validate_name f = 0" "0 \<notin> set f" "f \<noteq> []"
    and "0 \<notin> set t" "t \<noteq> []" "length t < RRR_LENGTH_MAX" "x \<noteq> dollar" "\<And>n. mem n" "\<And>n. mem' n"
  shows "rrr_mqtt_topic_match_topic_and_linear_with_end (t @ x # r) (length t) (f @ 0 # r') (length f) =
           Inr (match_code (topic_matches (levels f) (levels t))) \<and>
         rrr_mqtt_topic_match_str mem mem' f t = Inr (match_code (topic_matches (levels f) (levels t)))"
proof
  show "rrr_mqtt_topic_match_topic_and_linear_with_end (t @ x # r) (length t) (f @ 0 # r') (length f) =
      Inr (match_code (topic_matches (levels f) (levels t)))"
    by (rule linear_match_exact [OF assms(1-3,5,7)])
  from validate_filter_exact [OF assms(2)] assms(1) have f: "length f \<le> 0xffff" "filter_ok (levels f)" by auto
  have "length f < RRR_LENGTH_MAX" using f(1) by (simp add: RRR_LENGTH_MAX_def)
  then show "rrr_mqtt_topic_match_str mem mem' f t = Inr (match_code (topic_matches (levels f) (levels t)))"
    using tokenize_levels [OF assms(3,2)] tokenize_levels [OF assms(5,4,6)] assms(8,9) match_tokens_spec [OF f(2)]
    by (simp add: rrr_mqtt_topic_match_str_def rrr_mqtt_topic_match_str_with_end_def rrr_mqtt_topic_tokenize_def
        with_memory_def match_code_def)
qed

theorem topic_matchers_agree_witness:
  "rrr_mqtt_topic_match_topic_and_linear_with_end [0x61, 0x2f, 0x62, 0] 3 [0x61, 0x2f, 0x2b, 0] 3 = Inr RRR_MQTT_TOKEN_MATCH \<and>
   rrr_mqtt_topic_match_str (\<lambda>_. True) (\<lambda>_. True) [0x61, 0x2f, 0x2b] [0x61, 0x2f, 0x62] = Inr RRR_MQTT_TOKEN_MATCH"
proof -
  have "\<exists>cps. code_points cps \<and> [0x61, 0x2f, 0x2b] = utf8_concat cps"
    by (rule exI [of _ "[0x61, 0x2f, 0x2b]"]) (simp add: utf8_scalar_def utf8_encode_def)
  moreover have "filter_ok (levels [0x61, 0x2f, 0x2b])" by (simp add: filter_ok_def)
  ultimately have v: "rrr_mqtt_topic_filter_validate_name [0x61, 0x2f, 0x2b] = 0"
    using validate_filter_exact [of "[0x61, 0x2f, 0x2b]"] by simp
  have m: "topic_matches (levels [0x61, 0x2f, 0x2b]) (levels [0x61, 0x2f, 0x62])"
    by (simp add: topic_matches_simps level_matches_def)
  show ?thesis
    using topic_matchers_agree [of "[0x61, 0x2f, 0x2b]" "[0x61, 0x2f, 0x62]" 0 "\<lambda>_. True" "\<lambda>_. True" "[]" "[]"] v m
    by (simp add: match_code_def RRR_LENGTH_MAX_def numeral_3_eq_3)
qed

lemma linear_loop_step:
  assumes "fp < fl" "tp < te" "char_at f fp = Inr c" "char_at t tp = Inr c" "c \<noteq> hash" "c \<noteq> plus_sign" "k < 0xffff" "j < 0xffff"
  shows "linear_loop t te f fl fp tp k j =
     linear_loop t te f fl (fp + 1) (tp + 1) (if c = slash then 0 else k + 1) (if c = slash then 0 else j + 1)"
  using assms by (subst linear_loop.simps) (simp add: linear_body_def INT_MAX_def)

lemma linear_loop_prefix:
  assumes "literal p" "length p \<le> fl" "length p \<le> te" "length p \<le> 0xffff"
  shows "n \<le> length p \<Longrightarrow> \<exists>k j. linear_loop (p @ t) te (p @ f) fl 0 0 0 0 = linear_loop (p @ t) te (p @ f) fl n n k j \<and>
     0 \<le> k \<and> k \<le> int n \<and> 0 \<le> j \<and> j \<le> int n \<and> (n > 0 \<and> p ! (n - 1) = slash \<longrightarrow> k = 0 \<and> j = 0)"
proof (induction n)
  case 0
  show ?case by (intro exI [of _ 0]) simp
next
  case (Suc n)
  then obtain k j where IH: "linear_loop (p @ t) te (p @ f) fl 0 0 0 0 = linear_loop (p @ t) te (p @ f) fl n n k j"
    "0 \<le> k" "k \<le> int n" "0 \<le> j" "j \<le> int n" by auto
  have n: "n < length p" using Suc.prems by simp
  have c: "p ! n \<noteq> hash" "p ! n \<noteq> plus_sign" using assms(1) nth_mem [OF n] by (auto simp: literal_def)
  have "linear_loop (p @ t) te (p @ f) fl n n k j = linear_loop (p @ t) te (p @ f) fl (n + 1) (n + 1)
      (if p ! n = slash then 0 else k + 1) (if p ! n = slash then 0 else j + 1)"
    using n c IH assms by (intro linear_loop_step) auto
  with IH n show ?case
    by (intro exI [of _ "if p ! n = slash then 0 else k + 1"] exI [of _ "if p ! n = slash then 0 else j + 1"]) auto
qed

lemma linear_literal: "literal p \<Longrightarrow> linear (p @ f) (p @ t) \<longleftrightarrow> linear f t"
  by (induction p) (auto simp: literal_def)

lemma pairs_literal: "literal p \<Longrightarrow> q \<noteq> hash \<Longrightarrow> q \<noteq> plus_sign \<Longrightarrow> pairs_ok q (p @ slash # f) \<longleftrightarrow> pairs_ok slash f"
  by (induction p arbitrary: q) (auto simp: literal_def)

text \<open>
  Claim C35: a topic that ends with a slash matches the filter that has a plus sign after it, but the linear matcher reads
  the byte behind the topic to find that out: if it is a dollar sign (of the data that follows the topic in a message) the
  result is a mismatch, and if the object ends with the topic the read is outside of it.
\<close>

theorem topic_linear_overread:
  assumes "literal p" "0 \<notin> set p" "length p < 0xffff" "\<And>n. mem n" "\<And>n. mem' n"
  shows "rrr_mqtt_topic_match_str mem mem' (p @ [slash, plus_sign]) (p @ [slash]) = Inr RRR_MQTT_TOKEN_MATCH \<and>
    rrr_mqtt_topic_match_topic_and_linear_with_end (p @ [slash, dollar] @ r) (length p + 1) (p @ [slash, plus_sign, 0]) (length p + 2)
      = Inr RRR_MQTT_TOKEN_MISMATCH \<and>
    rrr_mqtt_topic_match_topic_and_linear_with_end (p @ [slash]) (length p + 1) (p @ [slash, plus_sign, 0]) (length p + 2)
      = Inl Bad_Access"
proof (intro conjI)
  let ?p = "p @ [slash]"
  have lp: "literal ?p" "length ?p \<le> 0xffff" using assms(1,3) by (auto simp: literal_def)
  have run: "linear_loop (?p @ t) (length p + 1) (?p @ [plus_sign, 0]) (length p + 2) 0 0 0 0 =
      linear_loop (?p @ t) (length p + 1) (?p @ [plus_sign, 0]) (length p + 2) (length p + 1) (length p + 1) 0 0" for t
    using linear_loop_prefix [OF lp(1) _ _ lp(2), of "length p + 2" "length p + 1" "length p + 1" t "[plus_sign, 0]"] by auto
  have at: "char_at (?p @ [plus_sign, 0]) (length p + 1) = Inr plus_sign" by (simp add: char_at_def nth_append)
  show "rrr_mqtt_topic_match_topic_and_linear_with_end (p @ [slash, dollar] @ r) (length p + 1) (p @ [slash, plus_sign, 0]) (length p + 2)
      = Inr RRR_MQTT_TOKEN_MISMATCH"
    using run [of "dollar # r"] at
    by (simp add: rrr_mqtt_topic_match_topic_and_linear_with_end_def)
      (subst linear_loop.simps, simp add: linear_body_def char_at_def nth_append)
  show "rrr_mqtt_topic_match_topic_and_linear_with_end (p @ [slash]) (length p + 1) (p @ [slash, plus_sign, 0]) (length p + 2)
      = Inl Bad_Access"
    using run [of "[]"] at
    by (simp add: rrr_mqtt_topic_match_topic_and_linear_with_end_def)
      (subst linear_loop.simps, simp add: linear_body_def char_at_def nth_append)
  have p: "pairs_ok 0 (p @ [slash, plus_sign])" "0 \<notin> set (p @ [slash, plus_sign])"
    using pairs_literal [OF assms(1), of 0 "[plus_sign]"] assms(2) by auto
  then have ok: "filter_ok (levels (p @ [slash, plus_sign]))" using pairs_levels(1) by blast
  have m: "topic_matches (levels (p @ [slash, plus_sign])) (levels (p @ [slash]))"
    using linear_levels [OF p(2,1), of "p @ [slash]"] linear_literal [OF assms(1), of "[slash, plus_sign]" "[slash]"] by simp
  have l: "length p + 2 < RRR_LENGTH_MAX" using assms(3) by (simp add: RRR_LENGTH_MAX_def)
  show "rrr_mqtt_topic_match_str mem mem' (p @ [slash, plus_sign]) (p @ [slash]) = Inr RRR_MQTT_TOKEN_MATCH"
    using tokenize_levels [of "p @ [slash, plus_sign]" mem 0] tokenize_levels [of "p @ [slash]" mem' 0] assms(2,4,5) l
      match_tokens_spec [OF ok] m
    by (simp add: rrr_mqtt_topic_match_str_def rrr_mqtt_topic_match_str_with_end_def rrr_mqtt_topic_tokenize_def with_memory_def)
qed

theorem topic_linear_overread_witness:
  "rrr_mqtt_topic_match_str (\<lambda>_. True) (\<lambda>_. True) ([0x61] @ [slash, plus_sign]) ([0x61] @ [slash]) = Inr RRR_MQTT_TOKEN_MATCH \<and>
   rrr_mqtt_topic_match_topic_and_linear_with_end ([0x61] @ [slash, dollar] @ [0x35]) (length [0x61 :: u8] + 1)
     ([0x61] @ [slash, plus_sign, 0]) (length [0x61 :: u8] + 2) = Inr RRR_MQTT_TOKEN_MISMATCH \<and>
   rrr_mqtt_topic_match_topic_and_linear_with_end ([0x61] @ [slash]) (length [0x61 :: u8] + 1)
     ([0x61] @ [slash, plus_sign, 0]) (length [0x61 :: u8] + 2) = Inl Bad_Access"
  by (rule topic_linear_overread) (simp_all add: literal_def)

end
