(* ===== verification/RRR_Mqtt_Acl.thy ===== *)
theory RRR_Mqtt_Acl
  imports RRR_Mqtt_Topic RRR_Parse
begin

text \<open>
  Access control of the MQTT broker, \<^verbatim>\<open>src/lib/mqtt/mqtt_acl.c\<close>: the parser of the rule file and the check of a
  request. The lists of entries and of their users are only appended to and iterated from the first
  to the last node; they are lists here, as the theorems of the linked list theory say. \<open>mem i n\<close> says
  whether the \<open>n\<close>-th allocation at position \<open>i\<close> of the file succeeds. Reading the file is a parameter: its return value, the
  contents, which the reader ends with a NUL byte, and their size. Loops that pass over the file have
  fuel, and more fuel than bytes is enough. The theory shows that the parser always returns and stores well formed
  rules only, which rule decides a request, and what a subscription that was granted can see.
\<close>

definition RRR_MQTT_ACL_ACTION_DENY :: c_int where "RRR_MQTT_ACL_ACTION_DENY = 0"
definition RRR_MQTT_ACL_ACTION_RO :: c_int where "RRR_MQTT_ACL_ACTION_RO = 1"
definition RRR_MQTT_ACL_ACTION_RW :: c_int where "RRR_MQTT_ACL_ACTION_RW = 2"
definition RRR_MQTT_ACL_ACTION_DEFAULT :: c_int where "RRR_MQTT_ACL_ACTION_DEFAULT = RRR_MQTT_ACL_ACTION_DENY"
definition RRR_MQTT_ACL_RESULT_ALLOW :: c_int where "RRR_MQTT_ACL_RESULT_ALLOW = 0"
definition RRR_MQTT_ACL_RESULT_DENY :: c_int where "RRR_MQTT_ACL_RESULT_DENY = 2"

lemmas acl_defs = RRR_MQTT_ACL_ACTION_DENY_def RRR_MQTT_ACL_ACTION_RO_def RRR_MQTT_ACL_ACTION_RW_def
  RRR_MQTT_ACL_ACTION_DEFAULT_def RRR_MQTT_ACL_RESULT_ALLOW_def RRR_MQTT_ACL_RESULT_DENY_def

record acl_user_entry =
  username :: "u8 list"
  action :: c_int

record acl_entry =
  users :: "acl_user_entry list"
  default_action :: c_int
  default_action_is_set :: c_int
  first_token :: "u8 list list"
  topic_orig :: "u8 list"

type_synonym acl = "acl_entry list"

subsection \<open>Entries\<close>

definition rrr_mqtt_acl_user_entry_new_and_append ::
    "(nat \<Rightarrow> bool) \<Rightarrow> acl_entry \<Rightarrow> u8 list \<Rightarrow> c_int \<Rightarrow> c_int \<times> acl_entry" where
  "rrr_mqtt_acl_user_entry_new_and_append ok target name act =
     (if \<not> ok 0 then (1, target)
      else if \<not> ok 1 then (1, target)
      else (0, target\<lparr>users := users target @ [\<lparr>username = name, action = act\<rparr>]\<rparr>))"

definition rrr_mqtt_acl_entry_collection_clear :: "acl \<Rightarrow> acl" where
  "rrr_mqtt_acl_entry_collection_clear collection = []"

definition rrr_mqtt_acl_entry_collection_push_new ::
    "(nat \<Rightarrow> bool) \<Rightarrow> acl \<Rightarrow> u8 list list \<Rightarrow> u8 list \<Rightarrow> c_int \<times> acl" where
  "rrr_mqtt_acl_entry_collection_push_new ok collection tokens topic =
     (if \<not> ok 0 then (1, collection)
      else case rrr_mqtt_topic_tokens_clone ok 2 tokens of (ret, tokens') \<Rightarrow>
        if ret \<noteq> 0 then (1, collection)
        else if \<not> ok 1 then (1, collection)
        else (0, collection @ [\<lparr>users = [], default_action = RRR_MQTT_ACL_ACTION_DEFAULT, default_action_is_set = 0,
                                first_token = tokens', topic_orig = topic\<rparr>]))"

subsection \<open>The parser\<close>

abbreviation word_DENY :: "u8 list" where "word_DENY \<equiv> [0x44, 0x45, 0x4e, 0x59]"
abbreviation word_READ :: "u8 list" where "word_READ \<equiv> [0x52, 0x45, 0x41, 0x44]"
abbreviation word_WRITE :: "u8 list" where "word_WRITE \<equiv> [0x57, 0x52, 0x49, 0x54, 0x45]"
abbreviation word_DEFAULT :: "u8 list" where "word_DEFAULT \<equiv> [0x44, 0x45, 0x46, 0x41, 0x55, 0x4c, 0x54]"
abbreviation word_USER :: "u8 list" where "word_USER \<equiv> [0x55, 0x53, 0x45, 0x52]"
abbreviation word_TOPIC :: "u8 list" where "word_TOPIC \<equiv> [0x54, 0x4f, 0x50, 0x49, 0x43]"

fun rrr_mqtt_acl_parse_spaces_and_comments :: "nat \<Rightarrow> parse_pos \<Rightarrow> parse_pos res" where
  "rrr_mqtt_acl_parse_spaces_and_comments 0 p = Inl Diverge"
| "rrr_mqtt_acl_parse_spaces_and_comments (Suc fuel) p =
     bindr (rrr_parse_ignore_spaces_and_increment_line p) (\<lambda>p.
     if RRR_PARSE_CHECK_EOF p then Inr p
     else bindr (byte_at p (pos p)) (\<lambda>c.
       if c = 0x23 then bindr (rrr_parse_comment p) (rrr_mqtt_acl_parse_spaces_and_comments fuel)
       else rrr_parse_ignore_spaces_and_increment_line p))"

definition rrr_mqtt_acl_parse_require_newline_or_eof :: "parse_pos \<Rightarrow> (c_int \<times> parse_pos) res" where
  "rrr_mqtt_acl_parse_require_newline_or_eof p =
     bindr (rrr_parse_ignore_spaces_and_increment_line p) (\<lambda>p'.
     Inr (if RRR_PARSE_CHECK_EOF p' then 0 else if pos p = pos p' then 1 else if line p \<noteq> line p' then 0 else 1, p'))"

definition rrr_mqtt_acl_parse_require_space_then_non_newline :: "parse_pos \<Rightarrow> (c_int \<times> parse_pos) res" where
  "rrr_mqtt_acl_parse_require_space_then_non_newline p =
     bindr (rrr_parse_ignore_spaces_and_increment_line p) (\<lambda>p'.
     Inr (if pos p = pos p' \<or> line p \<noteq> line p' then 1 else 0, p'))"

definition rrr_mqtt_acl_parse_acl_action :: "parse_pos \<Rightarrow> (c_int \<times> c_int \<times> parse_pos) res" where
  "rrr_mqtt_acl_parse_acl_action p =
     bindr (rrr_parse_match_word_case p word_DENY) (\<lambda>(m, p).
     if m = 1 then Inr (0, RRR_MQTT_ACL_ACTION_DENY, p)
     else bindr (rrr_parse_match_word_case p word_READ) (\<lambda>(m, p).
       if m = 1 then Inr (0, RRR_MQTT_ACL_ACTION_RO, p)
       else bindr (rrr_parse_match_word_case p word_WRITE) (\<lambda>(m, p).
         if m = 1 then Inr (0, RRR_MQTT_ACL_ACTION_RW, p)
         else Inr (1, RRR_MQTT_ACL_ACTION_DEFAULT, p))))"

definition rrr_mqtt_acl_parse_keyword_default :: "acl_entry \<Rightarrow> parse_pos \<Rightarrow> (c_int \<times> acl_entry \<times> parse_pos) res" where
  "rrr_mqtt_acl_parse_keyword_default entry p =
     bindr (rrr_mqtt_acl_parse_require_space_then_non_newline p) (\<lambda>(ret, p).
     if ret \<noteq> 0 then Inr (1, entry, p)
     else bindr (rrr_mqtt_acl_parse_acl_action p) (\<lambda>(ret, act, p).
       let entry = entry\<lparr>default_action := act\<rparr> in
       if ret \<noteq> 0 then Inr (1, entry, p)
       else bindr (rrr_mqtt_acl_parse_require_newline_or_eof p) (\<lambda>(ret, p).
         Inr (if ret \<noteq> 0 then 1 else 0, entry, p))))"

text \<open>The text from \<open>start\<close> up to and including \<open>stop\<close> as a string of its own.\<close>

definition extract_range :: "bool \<Rightarrow> parse_pos \<Rightarrow> rrr_length \<Rightarrow> rrr_slength \<Rightarrow> (c_int \<times> u8 list option) res" where
  "extract_range have_memory p start stop =
     bindr (rrr_length_from_slength_sub_bug_const stop (int (unat start))) (\<lambda>n.
     bindr (rrr_length_inc_bug_const n) (\<lambda>n.
     bindr (rrr_parse_str_extract have_memory p start n) (\<lambda>(ret, s). Inr (ret, map_option c_string s))))"

definition rrr_mqtt_acl_parse_keyword_user ::
    "(rrr_length \<Rightarrow> nat \<Rightarrow> bool) \<Rightarrow> acl_entry \<Rightarrow> parse_pos \<Rightarrow> (c_int \<times> acl_entry \<times> parse_pos) res" where
  "rrr_mqtt_acl_parse_keyword_user mem entry p =
     bindr (rrr_parse_ignore_space_and_tab p) (\<lambda>p.
     bindr (rrr_parse_match_letters p (RRR_PARSE_MATCH_LETTERS OR RRR_PARSE_MATCH_NUMBERS)) (\<lambda>(username_start, username_end, p).
     if username_end < int (unat username_start) then Inr (1, entry, p)
     else bindr (extract_range (mem (pos p) 2) p username_start username_end) (\<lambda>(ret, username_tmp).
       if ret \<noteq> 0 then Inr (ret, entry, p)
       else bindr (rrr_mqtt_acl_parse_require_space_then_non_newline p) (\<lambda>(ret, p).
         if ret \<noteq> 0 then Inr (ret, entry, p)
         else bindr (rrr_mqtt_acl_parse_acl_action p) (\<lambda>(ret, act, p).
           if ret \<noteq> 0 then Inr (ret, entry, p)
           else bindr (rrr_mqtt_acl_parse_require_newline_or_eof p) (\<lambda>(ret, p).
             if ret \<noteq> 0 then Inr (ret, entry, p)
             else bug_if (the username_tmp = [])
               (case rrr_mqtt_acl_user_entry_new_and_append (mem (pos p)) entry (the username_tmp) act of (ret, entry) \<Rightarrow>
                Inr (ret, entry, p))))))))"

text \<open>
  At the next \<^verbatim>\<open>TOPIC\<close> the position, but not the line number, is set back to where the round began.
  \<open>cfuel\<close> is the fuel of the loop over the comments.
\<close>

fun rrr_mqtt_acl_parse_topic_block_body ::
    "nat \<Rightarrow> nat \<Rightarrow> (rrr_length \<Rightarrow> nat \<Rightarrow> bool) \<Rightarrow> acl_entry \<Rightarrow> parse_pos \<Rightarrow> (c_int \<times> acl_entry \<times> parse_pos) res" where
  "rrr_mqtt_acl_parse_topic_block_body 0 cfuel mem entry p = Inl Diverge"
| "rrr_mqtt_acl_parse_topic_block_body (Suc fuel) cfuel mem entry p =
     (if RRR_PARSE_CHECK_EOF p then Inr (0, entry, p)
      else bindr (rrr_mqtt_acl_parse_spaces_and_comments cfuel p) (\<lambda>q.
        if RRR_PARSE_CHECK_EOF q then Inr (0, entry, q)
        else bindr (rrr_parse_match_word_case q word_DEFAULT) (\<lambda>(m, q).
          if m = 1 then
            (if default_action_is_set entry \<noteq> 0 then Inr (1, entry, q)
             else bindr (rrr_mqtt_acl_parse_keyword_default entry q) (\<lambda>(ret, entry, q).
               if ret \<noteq> 0 then Inr (1, entry, q)
               else rrr_mqtt_acl_parse_topic_block_body fuel cfuel mem (entry\<lparr>default_action_is_set := 1\<rparr>) q))
          else bindr (rrr_parse_match_word_case q word_USER) (\<lambda>(m, q).
            if m = 1 then
              bindr (rrr_mqtt_acl_parse_keyword_user mem entry q) (\<lambda>(ret, entry, q).
              if ret \<noteq> 0 then Inr (1, entry, q)
              else rrr_mqtt_acl_parse_topic_block_body fuel cfuel mem entry q)
            else bindr (rrr_parse_match_word_case q word_TOPIC) (\<lambda>(m, q).
              if m = 1 then Inr (0, entry, q\<lparr>pos := pos p\<rparr>)
              else Inr (1, entry, q))))))"

fun rrr_mqtt_acl_parse_topic_blocks ::
    "nat \<Rightarrow> nat \<Rightarrow> (rrr_length \<Rightarrow> nat \<Rightarrow> bool) \<Rightarrow> acl \<Rightarrow> parse_pos \<Rightarrow> (c_int \<times> acl \<times> parse_pos) res" where
  "rrr_mqtt_acl_parse_topic_blocks 0 cfuel mem target p = Inl Diverge"
| "rrr_mqtt_acl_parse_topic_blocks (Suc fuel) cfuel mem target p =
     bindr (rrr_mqtt_acl_parse_spaces_and_comments cfuel p) (\<lambda>p.
     if RRR_PARSE_CHECK_EOF p then Inr (0, target, p)
     else bindr (rrr_parse_match_word_case p word_TOPIC) (\<lambda>(m, p).
       if m \<noteq> 1 then Inr (1, target, p)
       else bindr (rrr_mqtt_acl_parse_require_space_then_non_newline p) (\<lambda>(ret, p).
         if ret \<noteq> 0 then Inr (1, target, p)
         else bindr (rrr_parse_non_newline p) (\<lambda>(topic_start, topic_end, p).
           if topic_end < int (unat topic_start) then Inr (1, target, p)
           else bindr (extract_range (mem (pos p) 0) p topic_start topic_end) (\<lambda>(ret, topic_tmp).
             if ret \<noteq> 0 then Inr (1, target, p)
             else if rrr_mqtt_topic_filter_validate_name (the topic_tmp) \<noteq> 0 then Inr (1, target, p)
             else bindr (rrr_mqtt_topic_tokenize (\<lambda>n. mem (pos p) (2 * n + 1)) (the topic_tmp)) (\<lambda>(ret, first_token_tmp).
               if ret \<noteq> 0 then Inr (1, target, p)
               else case rrr_mqtt_acl_entry_collection_push_new (\<lambda>n. mem (pos p) (2 * n + 2)) target first_token_tmp (the topic_tmp) of
                 (ret, target) \<Rightarrow>
                   if ret \<noteq> 0 then Inr (1, target, p)
                   else bindr (rrr_mqtt_acl_parse_topic_block_body cfuel cfuel mem (last target) p) (\<lambda>(ret, entry, p).
                     let target = butlast target @ [entry] in
                     if ret \<noteq> 0 then Inr (1, target, p)
                     else rrr_mqtt_acl_parse_topic_blocks fuel cfuel mem target p)))))))"

definition rrr_mqtt_acl_entry_collection_populate_from_file ::
    "nat \<Rightarrow> (rrr_length \<Rightarrow> nat \<Rightarrow> bool) \<Rightarrow> c_int \<times> u8 list option \<times> rrr_biglength \<Rightarrow> acl \<Rightarrow> (c_int \<times> acl) res" where
  "rrr_mqtt_acl_entry_collection_populate_from_file fuel mem file collection =
     (case file of (ret, contents, bytes) \<Rightarrow>
        if ret \<noteq> 0 then Inr (1, collection)
        else if contents = None \<or> bytes = 0 then Inr (0, collection)
        else if unat bytes > RRR_LENGTH_MAX then Inr (1, collection)
        else bindr (rrr_mqtt_acl_parse_topic_blocks fuel fuel mem collection (rrr_parse_pos_init (the contents) (ucast bytes)))
          (\<lambda>(ret, collection, p).
           if ret \<noteq> 0 then Inr (1, rrr_mqtt_acl_entry_collection_clear collection) else Inr (0, collection)))"

definition rrr_mqtt_acl_entry_collection_push_allow_all :: "(nat \<Rightarrow> bool) \<Rightarrow> (nat \<Rightarrow> bool) \<Rightarrow> acl \<Rightarrow> (c_int \<times> acl) res" where
  "rrr_mqtt_acl_entry_collection_push_allow_all ok ok' collection =
     bindr (rrr_mqtt_topic_tokenize ok [hash]) (\<lambda>(ret, token_tmp).
     if ret \<noteq> 0 then Inr (1, collection)
     else case rrr_mqtt_acl_entry_collection_push_new ok' collection token_tmp [hash] of (ret, collection) \<Rightarrow>
       if ret \<noteq> 0 then Inr (1, collection)
       else Inr (0, butlast collection @ [(last collection)\<lparr>default_action := RRR_MQTT_ACL_ACTION_RW\<rparr>]))"

subsection \<open>The check of a request\<close>

definition rrr_mqtt_acl_check_access_single :: "c_int \<Rightarrow> c_int \<Rightarrow> c_int res" where
  "rrr_mqtt_acl_check_access_single act requested_access_level =
     (let allow_write = act = RRR_MQTT_ACL_ACTION_RW;
          allow_read = act = RRR_MQTT_ACL_ACTION_RW \<or> act = RRR_MQTT_ACL_ACTION_RO in
      if requested_access_level = RRR_MQTT_ACL_ACTION_RO
      then Inr (if allow_read then RRR_MQTT_ACL_RESULT_ALLOW else RRR_MQTT_ACL_RESULT_DENY)
      else if requested_access_level = RRR_MQTT_ACL_ACTION_RW
      then Inr (if allow_write then RRR_MQTT_ACL_RESULT_ALLOW else RRR_MQTT_ACL_RESULT_DENY)
      else Inl Bug)"

fun check_users :: "acl_user_entry list \<Rightarrow> c_int \<Rightarrow> u8 list \<Rightarrow> c_int \<Rightarrow> c_int res" where
  "check_users [] level name ret = Inr ret"
| "check_users (u # us) level name ret =
     (if username u = name
      then bindr (rrr_mqtt_acl_check_access_single (action u) level) (check_users us level name)
      else check_users us level name ret)"

fun check_entries ::
    "acl \<Rightarrow> u8 list list \<Rightarrow> c_int \<Rightarrow> u8 list option \<Rightarrow> (u8 list list \<Rightarrow> u8 list list \<Rightarrow> c_int res) \<Rightarrow> c_int \<Rightarrow> c_int res" where
  "check_entries [] tokens level name match_function ret = Inr ret"
| "check_entries (e # es) tokens level name match_function ret =
     bindr (match_function (first_token e) tokens) (\<lambda>m.
     bindr (if m = RRR_MQTT_TOKEN_MATCH then
              bindr (rrr_mqtt_acl_check_access_single (default_action e) level) (\<lambda>ret.
              if name \<noteq> None \<and> first_char (the name) \<noteq> 0 then check_users (users e) level (the name) ret else Inr ret)
            else Inr ret)
       (check_entries es tokens level name match_function))"

definition rrr_mqtt_acl_check_access ::
    "acl \<Rightarrow> u8 list list \<Rightarrow> c_int \<Rightarrow> u8 list option \<Rightarrow> (u8 list list \<Rightarrow> u8 list list \<Rightarrow> c_int res) \<Rightarrow> c_int res" where
  "rrr_mqtt_acl_check_access collection tokens requested_access_level name match_function =
     check_entries collection tokens requested_access_level name match_function RRR_MQTT_ACL_RESULT_DENY"

subsection \<open>The handlers of the broker\<close>

definition RRR_MQTT_ACL_RESULT_DISCONNECT :: c_int where "RRR_MQTT_ACL_RESULT_DISCONNECT = 3"
definition RRR_MQTT_P_5_REASON_NOT_AUTHORIZED :: u8 where "RRR_MQTT_P_5_REASON_NOT_AUTHORIZED = 0x87"

record subscription =
  token_tree :: "u8 list list"
  qos_or_reason_v5 :: u8

fun rrr_mqtt_broker_acl_handler_subscribe :: "acl \<Rightarrow> u8 list option \<Rightarrow> subscription list \<Rightarrow> (c_int \<times> subscription list) res" where
  "rrr_mqtt_broker_acl_handler_subscribe collection name [] = Inr (RRR_MQTT_ACL_RESULT_ALLOW, [])"
| "rrr_mqtt_broker_acl_handler_subscribe collection name (node # subscriptions) =
     bindr (rrr_mqtt_acl_check_access collection (token_tree node) RRR_MQTT_ACL_ACTION_RO name
              (\<lambda>a b. Inr (rrr_mqtt_topic_match_tokens_recursively_acl a b))) (\<lambda>ret_tmp.
     let node = (if ret_tmp = RRR_MQTT_ACL_RESULT_ALLOW then node
                 else node\<lparr>qos_or_reason_v5 := RRR_MQTT_P_5_REASON_NOT_AUTHORIZED\<rparr>) in
     bindr (rrr_mqtt_broker_acl_handler_subscribe collection name subscriptions) (\<lambda>(ret, subscriptions).
     Inr (ret, node # subscriptions)))"

definition rrr_mqtt_broker_acl_handler_publish :: "acl \<Rightarrow> u8 list option \<Rightarrow> u8 list list \<Rightarrow> bool \<Rightarrow> bool \<Rightarrow> c_int res" where
  "rrr_mqtt_broker_acl_handler_publish collection name tokens is_v5 disconnect_on_v31_publish_deny =
     bindr (rrr_mqtt_acl_check_access collection tokens RRR_MQTT_ACL_ACTION_RW name rrr_mqtt_topic_match_tokens_recursively) (\<lambda>ret.
     Inr (if ret = RRR_MQTT_ACL_RESULT_DENY \<and> \<not> is_v5 \<and> disconnect_on_v31_publish_deny
          then RRR_MQTT_ACL_RESULT_DISCONNECT else ret))"

subsection \<open>Which rule decides\<close>

definition grant :: "c_int \<Rightarrow> c_int \<Rightarrow> c_int" where
  "grant act level =
     (if act = RRR_MQTT_ACL_ACTION_RW \<or> act = RRR_MQTT_ACL_ACTION_RO \<and> level = RRR_MQTT_ACL_ACTION_RO
      then RRR_MQTT_ACL_RESULT_ALLOW else RRR_MQTT_ACL_RESULT_DENY)"

definition last_such :: "('a \<Rightarrow> bool) \<Rightarrow> 'a list \<Rightarrow> 'a option" where
  "last_such P xs = find P (rev xs)"

text \<open>The action that a rule has for a user: that of the last line for the user, else the default.\<close>

definition rule_action :: "acl_entry \<Rightarrow> u8 list option \<Rightarrow> c_int" where
  "rule_action e name =
     (case name of None \<Rightarrow> default_action e
      | Some n \<Rightarrow> if n = [] then default_action e
          else case last_such (\<lambda>u. username u = n) (users e) of None \<Rightarrow> default_action e | Some u \<Rightarrow> action u)"

lemma find_append: "find P (xs @ ys) = (case find P xs of None \<Rightarrow> find P ys | Some x \<Rightarrow> Some x)"
  by (induction xs) auto

lemma last_such_simps [simp]:
  "last_such P [] = None"
  "last_such P (x # xs) = (case last_such P xs of Some y \<Rightarrow> Some y | None \<Rightarrow> if P x then Some x else None)"
  by (auto simp: last_such_def find_append split: option.split)

abbreviation level_ok :: "c_int \<Rightarrow> bool" where
  "level_ok level \<equiv> level = RRR_MQTT_ACL_ACTION_RO \<or> level = RRR_MQTT_ACL_ACTION_RW"

lemma check_single_grant: "level_ok level \<Longrightarrow> rrr_mqtt_acl_check_access_single act level = Inr (grant act level)"
  by (auto simp: rrr_mqtt_acl_check_access_single_def grant_def acl_defs)

lemma check_users_last:
  "level_ok level \<Longrightarrow> check_users us level name ret =
     Inr (case last_such (\<lambda>u. username u = name) us of None \<Rightarrow> ret | Some u \<Rightarrow> grant (action u) level)"
  by (induction us arbitrary: ret) (auto simp: check_single_grant split: option.splits)

lemma first_char_name: "0 \<notin> set n \<Longrightarrow> first_char n \<noteq> 0 \<longleftrightarrow> n \<noteq> []"
  by (cases n) auto

lemma check_entries_last:
  assumes "level_ok level" "\<forall>n. name = Some n \<longrightarrow> 0 \<notin> set n"
  shows "(\<And>e. e \<in> set es \<Longrightarrow> mf (first_token e) tokens = Inr (match_code (matched e))) \<Longrightarrow>
    check_entries es tokens level name mf ret =
     Inr (case last_such matched es of None \<Rightarrow> ret | Some e \<Rightarrow> grant (rule_action e name) level)"
proof (induction es arbitrary: ret)
  case (Cons e es)
  have e: "(if name \<noteq> None \<and> first_char (the name) \<noteq> 0 then check_users (users e) level (the name) (grant (default_action e) level)
      else Inr (grant (default_action e) level)) = Inr (grant (rule_action e name) level)"
    using assms first_char_name
    by (cases name) (auto simp: rule_action_def check_users_last split: option.splits)
  have m: "mf (first_token e) tokens = Inr (match_code (matched e))" using Cons.prems by simp
  show ?case
    using Cons.IH [OF Cons.prems] e assms(1)
    by (cases "matched e") (auto simp: m check_single_grant match_code_def token_defs split: option.splits)
qed simp

text \<open>The last rule that matches decides; without one the request is denied.\<close>

definition decision :: "(u8 list list \<Rightarrow> u8 list list \<Rightarrow> bool) \<Rightarrow> acl \<Rightarrow> u8 list list \<Rightarrow> c_int \<Rightarrow> u8 list option \<Rightarrow> c_int" where
  "decision matched es tokens level name =
     (case last_such (\<lambda>e. matched (first_token e) tokens) es of
        None \<Rightarrow> RRR_MQTT_ACL_RESULT_DENY | Some e \<Rightarrow> grant (rule_action e name) level)"

text \<open>A function that compares the tokens of a rule with those of a request: what it computes on rules that are \<open>ok\<close>.\<close>

locale token_matcher =
  fixes mf :: "u8 list list \<Rightarrow> u8 list list \<Rightarrow> c_int res" and matched :: "u8 list list \<Rightarrow> u8 list list \<Rightarrow> bool"
    and ok :: "u8 list list \<Rightarrow> bool"
  assumes mf_total: "ok rule \<Longrightarrow> mf rule tokens = Inr (match_code (matched rule tokens))"
begin

lemma check_decides:
  assumes "list_all (\<lambda>e. ok (first_token e)) es" "level_ok level" "\<forall>n. name = Some n \<longrightarrow> 0 \<notin> set n"
  shows "rrr_mqtt_acl_check_access es tokens level name mf = Inr (decision matched es tokens level name)"
  unfolding rrr_mqtt_acl_check_access_def decision_def
  using assms(1) by (intro check_entries_last [OF assms(2,3)] mf_total) (auto simp: list_all_iff)

end

interpretation publish: token_matcher rrr_mqtt_topic_match_tokens_recursively topic_matches filter_ok
  by unfold_locales (simp add: match_tokens_spec match_code_def)

text \<open>Rules as the parser stores them: the topic of a rule is empty if a NUL byte stands at its beginning, and the rule has no tokens then.\<close>

definition rule_ok :: "u8 list list \<Rightarrow> bool" where
  "rule_ok rule \<longleftrightarrow> rule = [] \<or> filter_ok rule"

interpretation stored: token_matcher rrr_mqtt_topic_match_tokens_recursively "\<lambda>rule ts. rule \<noteq> [] \<and> topic_matches rule ts" rule_ok
  by unfold_locales (auto simp: rule_ok_def match_tokens_spec match_code_def filter_ok_def)

definition acl_matches :: "u8 list list \<Rightarrow> u8 list list \<Rightarrow> bool" where
  "acl_matches master slave \<longleftrightarrow> rrr_mqtt_topic_match_tokens_recursively_acl master slave = RRR_MQTT_TOKEN_MATCH"

lemma acl_match_code: "rrr_mqtt_topic_match_tokens_recursively_acl master slave = match_code (acl_matches master slave)"
  unfolding acl_matches_def match_code_def
  by (induction master slave rule: rrr_mqtt_topic_match_tokens_recursively_acl.induct) (auto simp: token_defs Let_def)

interpretation subscribe: token_matcher "\<lambda>a b. Inr (rrr_mqtt_topic_match_tokens_recursively_acl a b)" acl_matches "\<lambda>_. True"
  by unfold_locales (simp add: acl_match_code)

subsection \<open>What the matcher for subscriptions covers\<close>

lemma acl_matches_simps:
  "acl_matches (m # ms) (s # ss) \<longleftrightarrow>
     first_char m = hash \<or>
     first_char s \<noteq> hash \<and> (if first_char m = plus_sign \<or> first_char s = plus_sign then first_char m \<noteq> dollar else m = s) \<and>
     (ms = [] \<and> ss = [] \<or> acl_matches ms ss)"
  "\<not> acl_matches [] ss" "\<not> acl_matches (m # ms) []"
  by (auto simp: acl_matches_def token_defs Let_def)

lemma filter_ok_first:
  assumes "filter_ok (f # fs)"
  shows "first_char f = hash \<Longrightarrow> f = [hash] \<and> fs = []" "first_char f = plus_sign \<Longrightarrow> f = [plus_sign]" "fs \<noteq> [] \<Longrightarrow> filter_ok fs"
  using assms first_char_set [of f hash] first_char_set [of f plus_sign] by (cases fs; auto simp: filter_ok_Cons filter_ok_single)+

lemma acl_covers:
  "acl_matches ms ss \<Longrightarrow> filter_ok ms \<Longrightarrow> filter_ok ss \<Longrightarrow> [plus_sign] \<notin> set ss \<Longrightarrow> topic_matches ss ts \<Longrightarrow>
   \<forall>t \<in> set ts. first_char t \<noteq> dollar \<Longrightarrow> topic_matches ms ts"
proof (induction ms ss arbitrary: ts rule: rrr_mqtt_topic_match_tokens_recursively_acl.induct)
  case (3 m master s slave)
  obtain t us where ts: "ts = t # us" using 3(6) by (cases ts) (auto simp: topic_matches_simps)
  note fm = filter_ok_first [OF 3(3)] and fs = filter_ok_first [OF 3(4)]
  show ?case
  proof (cases "first_char m = hash")
    case True
    with fm ts 3(7) show ?thesis by (auto simp: topic_matches_simps)
  next
    case m: False
    with 3(2) have s: "first_char s \<noteq> hash" by (simp add: acl_matches_simps)
    have sp: "first_char s \<noteq> plus_sign" using fs(2) 3(5) by auto
    have st: "s = t" "slave = [] \<longrightarrow> us = []" "slave \<noteq> [] \<longrightarrow> topic_matches slave us"
      using 3(6) ts s sp by (cases slave; auto simp: topic_matches_simps level_matches_def split: if_splits)+
    have d: "first_char t \<noteq> dollar" using 3(7) ts by simp
    have "first_char m \<noteq> plus_sign \<longrightarrow> m = s" using 3(2) m sp by (simp add: acl_matches_simps)
    then have lm: "level_matches m t" using fm(2) st(1) d by (cases "first_char m = plus_sign") (auto simp: level_matches_def)
    show ?thesis
    proof (cases "master = [] \<and> slave = []")
      case True
      with lm m st ts show ?thesis by (auto simp: topic_matches_simps)
    next
      case False
      with 3(2) m have rec: "acl_matches master slave" by (simp add: acl_matches_simps)
      then have ne: "master \<noteq> []" "slave \<noteq> []" using acl_matches_simps(2,3) by (metis list.exhaust)+
      have "topic_matches master us"
        using ne st fm(3) fs(3) 3(5,7) ts by (intro 3(1) [OF False rec]) auto
      with ne lm ts show ?thesis by (simp add: topic_matches_levels)
    qed
  qed
qed (simp_all add: acl_matches_simps)

subsection \<open>Properties of the check\<close>

text \<open>
  Claim C17: the bottom most matching rule takes precedence. With rules whose filters are well formed, the check of a
  PUBLISH and the check of a SUBSCRIBE return the decision of the last rule whose filter matches the topic (or the filter) of
  the request: the action of the last line for the user in this rule, or its default action; a WRITE
  action allows both, a READ action allows the subscription only. A request that no rule matches is denied. For a
  PUBLISH of a version before 5 the connection is closed instead of a denial, if the broker is configured so; nothing else depends on the version.
\<close>

theorem acl_last_match_decides:
  assumes "list_all (\<lambda>e. filter_ok (first_token e)) es" "\<forall>n. name = Some n \<longrightarrow> 0 \<notin> set n"
  shows "rrr_mqtt_broker_acl_handler_publish es name topic is_v5 disconnect =
           Inr (let d = decision topic_matches es topic RRR_MQTT_ACL_ACTION_RW name in
                if d = RRR_MQTT_ACL_RESULT_DENY \<and> \<not> is_v5 \<and> disconnect then RRR_MQTT_ACL_RESULT_DISCONNECT else d) \<and>
         rrr_mqtt_broker_acl_handler_subscribe es name subscriptions =
           Inr (RRR_MQTT_ACL_RESULT_ALLOW,
             map (\<lambda>n. if decision acl_matches es (token_tree n) RRR_MQTT_ACL_ACTION_RO name = RRR_MQTT_ACL_RESULT_ALLOW then n
                      else n\<lparr>qos_or_reason_v5 := RRR_MQTT_P_5_REASON_NOT_AUTHORIZED\<rparr>) subscriptions)"
proof
  show "rrr_mqtt_broker_acl_handler_publish es name topic is_v5 disconnect =
      Inr (let d = decision topic_matches es topic RRR_MQTT_ACL_ACTION_RW name in
           if d = RRR_MQTT_ACL_RESULT_DENY \<and> \<not> is_v5 \<and> disconnect then RRR_MQTT_ACL_RESULT_DISCONNECT else d)"
    using publish.check_decides [OF assms(1) _ assms(2)] by (simp add: rrr_mqtt_broker_acl_handler_publish_def Let_def)
  have "list_all (\<lambda>e. True) es" by (simp add: list_all_iff)
  from subscribe.check_decides [OF this _ assms(2)]
  show "rrr_mqtt_broker_acl_handler_subscribe es name subscriptions =
      Inr (RRR_MQTT_ACL_RESULT_ALLOW,
        map (\<lambda>n. if decision acl_matches es (token_tree n) RRR_MQTT_ACL_ACTION_RO name = RRR_MQTT_ACL_RESULT_ALLOW then n
                 else n\<lparr>qos_or_reason_v5 := RRR_MQTT_P_5_REASON_NOT_AUTHORIZED\<rparr>) subscriptions)"
    by (induction subscriptions) (auto simp: Let_def)
qed

definition demo_acl :: acl where
  "demo_acl = [\<lparr>users = [], default_action = RRR_MQTT_ACL_ACTION_RW, default_action_is_set = 1, first_token = [[hash]], topic_orig = [hash]\<rparr>,
     \<lparr>users = [\<lparr>username = [0x75], action = RRR_MQTT_ACL_ACTION_RO\<rparr>], default_action = RRR_MQTT_ACL_ACTION_DENY,
      default_action_is_set = 0, first_token = [[0x61], [plus_sign]], topic_orig = [0x61, slash, plus_sign]\<rparr>]"

theorem acl_last_match_decides_witness:
  "rrr_mqtt_broker_acl_handler_publish demo_acl (Some [0x75]) [[0x61], [0x62]] True True = Inr RRR_MQTT_ACL_RESULT_DENY \<and>
   rrr_mqtt_broker_acl_handler_publish demo_acl (Some [0x75]) [[0x61], [0x62]] False True = Inr RRR_MQTT_ACL_RESULT_DISCONNECT"
proof -
  have ok: "list_all (\<lambda>e. filter_ok (first_token e)) demo_acl" by (simp add: demo_acl_def filter_ok_def)
  have "decision topic_matches demo_acl [[0x61], [0x62]] RRR_MQTT_ACL_ACTION_RW (Some [0x75]) = RRR_MQTT_ACL_RESULT_DENY"
    by (simp add: decision_def demo_acl_def topic_matches_simps level_matches_def rule_action_def grant_def acl_defs)
  then show ?thesis
    using acl_last_match_decides [OF ok, of "Some [0x75]" "[[0x61], [0x62]]" True True "[]"]
      acl_last_match_decides [OF ok, of "Some [0x75]" "[[0x61], [0x62]]" False True "[]"] by simp
qed

text \<open>
  Claim C25: a rule that matches a subscription without plus signs covers it: every topic that such a subscription
  receives, and that has no level beginning with a dollar sign, matches the filter of the rule too.
\<close>

theorem acl_match_covers:
  assumes "rrr_mqtt_topic_match_tokens_recursively_acl rule sub = RRR_MQTT_TOKEN_MATCH"
    and "filter_ok rule" "filter_ok sub" "[plus_sign] \<notin> set sub" "\<forall>t \<in> set topic. first_char t \<noteq> dollar"
    and "rrr_mqtt_topic_match_tokens_recursively sub topic = Inr RRR_MQTT_TOKEN_MATCH"
  shows "rrr_mqtt_topic_match_tokens_recursively rule topic = Inr RRR_MQTT_TOKEN_MATCH"
proof -
  have "topic_matches sub topic" using assms(6) by (simp add: match_tokens_spec [OF assms(3)] token_defs split: if_splits)
  with assms acl_covers [of rule sub topic] show ?thesis
    by (simp add: match_tokens_spec [OF assms(2)] acl_matches_def)
qed

theorem acl_match_covers_witness:
  "rrr_mqtt_topic_match_tokens_recursively [[0x61], [hash]] [[0x61], [0x62], [0x63]] = Inr RRR_MQTT_TOKEN_MATCH"
  by (rule acl_match_covers [of _ "[[0x61], [0x62], [hash]]"]) (simp_all add: filter_ok_def Let_def token_defs)

text \<open>
  Claim C34: a subscription with a wildcard can be granted although a rule denies some of the topics it receives. With the
  single rule that allows READ on \<open>p/x\<close>, the subscription to \<open>p/+\<close> is granted and receives every topic \<open>p/y\<close>, to which
  a subscription is denied. With WRITE on everything and a later rule that denies \<open>p/x\<close>, the subscription
  to \<open>p/#\<close> is granted and receives \<open>p/x\<close>, to which a subscription is denied.
\<close>

theorem acl_subscription_leaks:
  assumes "literal p" "literal x" "literal y" "x \<noteq> y" "first_char p \<noteq> dollar" "first_char x \<noteq> dollar" "first_char y \<noteq> dollar"
    and "users e = []" "first_token e = [p, x]" "users a = []" "first_token a = [[hash]]"
    and "default_action e = RRR_MQTT_ACL_ACTION_RO" "default_action a = RRR_MQTT_ACL_ACTION_RW"
    and "users d = []" "first_token d = [p, x]" "default_action d = RRR_MQTT_ACL_ACTION_DENY"
  shows "rrr_mqtt_acl_check_access [e] [p, [plus_sign]] RRR_MQTT_ACL_ACTION_RO None
           (\<lambda>a b. Inr (rrr_mqtt_topic_match_tokens_recursively_acl a b)) = Inr RRR_MQTT_ACL_RESULT_ALLOW \<and>
         rrr_mqtt_topic_match_tokens_recursively [p, [plus_sign]] [p, y] = Inr RRR_MQTT_TOKEN_MATCH \<and>
         rrr_mqtt_acl_check_access [e] [p, y] RRR_MQTT_ACL_ACTION_RO None
           (\<lambda>a b. Inr (rrr_mqtt_topic_match_tokens_recursively_acl a b)) = Inr RRR_MQTT_ACL_RESULT_DENY \<and>
         rrr_mqtt_acl_check_access [a, d] [p, [hash]] RRR_MQTT_ACL_ACTION_RO None
           (\<lambda>a b. Inr (rrr_mqtt_topic_match_tokens_recursively_acl a b)) = Inr RRR_MQTT_ACL_RESULT_ALLOW \<and>
         rrr_mqtt_topic_match_tokens_recursively [p, [hash]] [p, x] = Inr RRR_MQTT_TOKEN_MATCH \<and>
         rrr_mqtt_acl_check_access [a, d] [p, x] RRR_MQTT_ACL_ACTION_RO None
           (\<lambda>a b. Inr (rrr_mqtt_topic_match_tokens_recursively_acl a b)) = Inr RRR_MQTT_ACL_RESULT_DENY"
proof -
  have lit: "first_char z \<noteq> hash" "first_char z \<noteq> plus_sign" if "literal z" for z
    using that first_char_set [of z hash] first_char_set [of z plus_sign] by (auto simp: literal_def)
  note l = lit [OF assms(1)] lit [OF assms(2)] lit [OF assms(3)]
  have t: "list_all (\<lambda>e. True) es" for es :: acl by (simp add: list_all_iff)
  have c: "rrr_mqtt_acl_check_access es s RRR_MQTT_ACL_ACTION_RO None (\<lambda>a b. Inr (rrr_mqtt_topic_match_tokens_recursively_acl a b)) =
      Inr (decision acl_matches es s RRR_MQTT_ACL_ACTION_RO None)" for es s
    using subscribe.check_decides [OF t, of _ None] by simp
  show ?thesis unfolding c using assms(4-) l
    by (simp add: decision_def acl_matches_simps rule_action_def grant_def Let_def) (simp add: acl_defs)
qed

theorem acl_subscription_leaks_witness:
  "rrr_mqtt_acl_check_access [\<lparr>users = [], default_action = RRR_MQTT_ACL_ACTION_RO, default_action_is_set = 1,
      first_token = [[0x70], [0x78]], topic_orig = [0x70, slash, 0x78]\<rparr>] [[0x70], [plus_sign]] RRR_MQTT_ACL_ACTION_RO None
      (\<lambda>a b. Inr (rrr_mqtt_topic_match_tokens_recursively_acl a b)) = Inr RRR_MQTT_ACL_RESULT_ALLOW"
  using acl_subscription_leaks [of "[0x70]" "[0x78]" "[0x79]"
      "\<lparr>users = [], default_action = RRR_MQTT_ACL_ACTION_RO, default_action_is_set = 1, first_token = [[0x70], [0x78]],
        topic_orig = [0x70, slash, 0x78]\<rparr>"
      "\<lparr>users = [], default_action = RRR_MQTT_ACL_ACTION_RW, default_action_is_set = 1, first_token = [[hash]], topic_orig = [hash]\<rparr>"
      "\<lparr>users = [], default_action = RRR_MQTT_ACL_ACTION_DENY, default_action_is_set = 1, first_token = [[0x70], [0x78]],
        topic_orig = [0x70, slash, 0x78]\<rparr>"]
  by (simp add: literal_def)

subsection \<open>The parser returns and stores well formed rules\<close>

definition action_ok :: "c_int \<Rightarrow> bool" where
  "action_ok act \<longleftrightarrow> act = RRR_MQTT_ACL_ACTION_DENY \<or> act = RRR_MQTT_ACL_ACTION_RO \<or> act = RRR_MQTT_ACL_ACTION_RW"

definition rule_tokens :: "u8 list \<Rightarrow> u8 list list" where
  "rule_tokens topic = (if topic = [] then [] else levels topic)"

definition entry_ok :: "acl_entry \<Rightarrow> bool" where
  "entry_ok e \<longleftrightarrow> rrr_mqtt_topic_filter_validate_name (topic_orig e) = 0 \<and>
     first_token e = rule_tokens (topic_orig e) \<and> rule_ok (first_token e) \<and> action_ok (default_action e) \<and>
     (\<forall>u \<in> set (users e). username u \<noteq> [] \<and> action_ok (action u))"

text \<open>A result that is a return value of 0 or 1, with \<open>P\<close> of the rest and a position not before \<open>p\<close>.\<close>

definition returns :: "parse_pos \<Rightarrow> ('a \<Rightarrow> bool) \<Rightarrow> (c_int \<times> 'a \<times> parse_pos) res \<Rightarrow> bool" where
  "returns p P m \<longleftrightarrow> (\<exists>ret x p'. m = Inr (ret, x, p') \<and> (ret = 0 \<or> ret = 1) \<and> P x \<and> scans p p')"

lemma returnsI: "m = Inr (ret, x, p') \<Longrightarrow> ret = 0 \<or> ret = 1 \<Longrightarrow> P x \<Longrightarrow> scans p p' \<Longrightarrow> returns p P m"
  by (auto simp: returns_def)

lemma returns_from: "returns q P m \<Longrightarrow> scans p q \<Longrightarrow> returns p P m"
  by (auto simp: returns_def intro: scans_trans)

lemma not_eof: "pos_ok p \<Longrightarrow> \<not> RRR_PARSE_CHECK_EOF p \<Longrightarrow> \<exists>c cs. rest p = c # cs \<and> byte_at p (pos p) = Inr c"
  using rest_step(1) [of p] rest_nil [of p] by (cases "rest p") auto

lemma comments_text:
  "text_ok p \<Longrightarrow> length (rest p) < fuel \<Longrightarrow>
   \<exists>p'. rrr_mqtt_acl_parse_spaces_and_comments fuel p = Inr p' \<and> scans p p'"
proof (induction fuel arbitrary: p)
  case (Suc fuel)
  from spaces_text [OF Suc.prems(1)] obtain q where q: "rrr_parse_ignore_spaces_and_increment_line p = Inr q" "scans p q" by blast
  note tq = scans_text [OF Suc.prems(1) q(2)]
  show ?case
  proof (cases "RRR_PARSE_CHECK_EOF q")
    case True
    with q show ?thesis by simp
  next
    case False
    with not_eof [OF text_pos [OF tq]] obtain c cs where c: "rest q = c # cs" "byte_at q (pos q) = Inr c" by blast
    show ?thesis
    proof (cases "c = 0x23")
      case True
      with comment_text [OF tq c(1)] obtain r where r: "rrr_parse_comment q = Inr r" "scans q r" "length (rest r) < length (rest q)"
        by (auto simp: RRR_PARSE_MATCH_C_NEWLINES_def)
      have "length (rest r) < fuel" using r(3) scans_rest [OF q(2) text_pos [OF Suc.prems(1)]] Suc.prems(2) by linarith
      from Suc.IH [OF scans_text [OF tq r(2)] this] q c r True False show ?thesis by (auto intro: scans_trans)
    next
      case no: False
      from spaces_text [OF tq] q c False no show ?thesis by (auto intro: scans_trans)
    qed
  qed
qed simp

lemma require_text:
  assumes "text_ok p"
  shows "\<exists>ret p'. rrr_mqtt_acl_parse_require_newline_or_eof p = Inr (ret, p') \<and> (ret = 0 \<or> ret = 1) \<and> scans p p'"
    "\<exists>ret p'. rrr_mqtt_acl_parse_require_space_then_non_newline p = Inr (ret, p') \<and> (ret = 0 \<or> ret = 1) \<and> scans p p'"
  using spaces_text [OF assms]
  by (auto simp: rrr_mqtt_acl_parse_require_newline_or_eof_def rrr_mqtt_acl_parse_require_space_then_non_newline_def)

lemma action_text:
  assumes "text_ok p"
  shows "returns p action_ok (rrr_mqtt_acl_parse_acl_action p)"
proof -
  note w = word_text(2) [OF assms]
  from w [of word_DENY] w [of word_READ] w [of word_WRITE] scans_refl [OF text_pos [OF assms]] show ?thesis
    by (auto simp: rrr_mqtt_acl_parse_acl_action_def returns_def action_ok_def RRR_MQTT_ACL_ACTION_DEFAULT_def)
qed

lemma default_text:
  assumes "text_ok p" "entry_ok e"
  shows "returns p entry_ok (rrr_mqtt_acl_parse_keyword_default e p)"
proof -
  from require_text(2) [OF assms(1)] obtain r1 p1 where
    1: "rrr_mqtt_acl_parse_require_space_then_non_newline p = Inr (r1, p1)" "scans p p1" by blast
  from action_text [OF scans_text [OF assms(1) 1(2)]] obtain r2 a p2 where
    2: "rrr_mqtt_acl_parse_acl_action p1 = Inr (r2, a, p2)" "action_ok a" "scans p1 p2" by (auto simp: returns_def)
  note s2 = scans_trans [OF 1(2) 2(3)]
  from require_text(1) [OF scans_text [OF assms(1) s2]] obtain r3 p3 where
    3: "rrr_mqtt_acl_parse_require_newline_or_eof p2 = Inr (r3, p3)" "scans p2 p3" by blast
  have e: "entry_ok (e\<lparr>default_action := a\<rparr>)" using assms(2) 2(2) by (auto simp: entry_ok_def)
  show ?thesis using 1 2 3 e assms(2) s2 scans_trans [OF s2 3(2)]
    by (auto simp: rrr_mqtt_acl_parse_keyword_default_def returns_def Let_def)
qed

lemma extract_range_text:
  assumes "pos_ok p" "scans_range p n (start, stop, p')" "0 < n"
  shows "extract_range have_memory p' start stop = Inr (if have_memory then (0, Some (c_string (take n (rest p)))) else (1, None))"
proof -
  note x = extract_text [OF assms]
  have "rrr_length_from_slength_sub_bug_const stop (int (unat start)) = Inr (word_of_int (int n - 1))"
    using x(2,3) assms(3) by (simp add: rrr_length_from_slength_sub_bug_const_def RRR_LENGTH_MAX_def SLENGTH_MAX_def)
  moreover have "rrr_length_inc_bug_const (word_of_int (int n - 1)) = Inr (of_nat n)"
    using x(3) assms(3) by (simp add: rrr_length_inc_bug_const_def rrr_length_inc_bug_def Let_def word_unat_eq_iff unat_of_nat)
  ultimately show ?thesis by (simp add: extract_range_def x(1))
qed

lemma range_empty: "pos_ok p \<Longrightarrow> scans_range p n (start, stop, p') \<Longrightarrow> stop < int (unat start) \<longleftrightarrow> n = 0"
  by (auto simp: scans_range_def)

lemma user_chars: "\<not> rrr_parse_match_char 0 (RRR_PARSE_MATCH_LETTERS OR RRR_PARSE_MATCH_NUMBERS)"
  by (simp add: rrr_parse_match_char_def has_flag_def match_flag_defs RRR_PARSE_MATCH_C_LETTER_def RRR_PARSE_MATCH_C_NUMBER_def)

lemma user_name:
  assumes "n = length (takeWhile (\<lambda>c. rrr_parse_match_char c (RRR_PARSE_MATCH_LETTERS OR RRR_PARSE_MATCH_NUMBERS)) xs)" "0 < n"
  shows "c_string (take n xs) \<noteq> []"
  using assms user_chars by (cases xs) (auto simp: c_string_def split: if_splits)

lemma append_text:
  "entry_ok e \<Longrightarrow> name \<noteq> [] \<Longrightarrow> action_ok a \<Longrightarrow>
   \<exists>ret e'. rrr_mqtt_acl_user_entry_new_and_append ok e name a = (ret, e') \<and> (ret = 0 \<or> ret = 1) \<and> entry_ok e'"
  by (auto simp: rrr_mqtt_acl_user_entry_new_and_append_def entry_ok_def)

lemma user_text:
  assumes "text_ok p" "entry_ok e"
  shows "returns p entry_ok (rrr_mqtt_acl_parse_keyword_user mem e p)"
proof -
  let ?fl = "RRR_PARSE_MATCH_LETTERS OR RRR_PARSE_MATCH_NUMBERS"
  from space_tab_text [OF assms(1)] obtain p1 where 1: "rrr_parse_ignore_space_and_tab p = Inr p1" "scans p p1" by blast
  note t1 = scans_text [OF assms(1) 1(2)]
  define n where "n = length (takeWhile (\<lambda>c. rrr_parse_match_char c ?fl) (rest p1))"
  from letters_range [OF text_pos [OF t1], of ?fl, folded n_def] obtain start stop p2 where
    2: "rrr_parse_match_letters p1 ?fl = Inr (start, stop, p2)" "scans_range p1 n (start, stop, p2)" by auto
  note s12 = range_scans [OF text_pos [OF t1] 2(2)]
  note s2 = scans_trans [OF 1(2) s12]
  show ?thesis
  proof (cases "n = 0")
    case True
    then have "stop < int (unat start)" using range_empty [OF text_pos [OF t1] 2(2)] by simp
    with 1 2 s2 assms(2) show ?thesis
      by (intro returnsI [of _ 1 e p2]) (simp_all add: rrr_mqtt_acl_parse_keyword_user_def)
  next
    case False
    then have nl: "\<not> stop < int (unat start)" using range_empty [OF text_pos [OF t1] 2(2)] by simp
    define name where "name = c_string (take n (rest p1))"
    have x: "extract_range b p2 start stop = Inr (if b then (0, Some name) else (1, None))" for b
      using extract_range_text [OF text_pos [OF t1] 2(2)] False by (simp add: name_def)
    have ne: "name \<noteq> []" using user_name [OF n_def] False by (simp add: name_def)
    note t2 = scans_text [OF assms(1) s2]
    from require_text(2) [OF t2] obtain r3 p3 where
      3: "rrr_mqtt_acl_parse_require_space_then_non_newline p2 = Inr (r3, p3)" "r3 = 0 \<or> r3 = 1" "scans p2 p3" by blast
    note s3 = scans_trans [OF s2 3(3)]
    from action_text [OF scans_text [OF assms(1) s3]] obtain r4 a p4 where
      4: "rrr_mqtt_acl_parse_acl_action p3 = Inr (r4, a, p4)" "r4 = 0 \<or> r4 = 1" "action_ok a" "scans p3 p4" by (auto simp: returns_def)
    note s4 = scans_trans [OF s3 4(4)]
    from require_text(1) [OF scans_text [OF assms(1) s4]] obtain r5 p5 where
      5: "rrr_mqtt_acl_parse_require_newline_or_eof p4 = Inr (r5, p5)" "r5 = 0 \<or> r5 = 1" "scans p4 p5" by blast
    note s5 = scans_trans [OF s4 5(3)]
    from append_text [OF assms(2) ne 4(3)] obtain r6 e' where
      6: "rrr_mqtt_acl_user_entry_new_and_append (mem (pos p5)) e name a = (r6, e')" "r6 = 0 \<or> r6 = 1" "entry_ok e'" by blast
    show ?thesis
      using 1(1) 2(1) nl x [of "mem (pos p2) 2"] 3(1,2) 4(1,2) 5(1,2) 6 ne s2 s3 s4 s5 assms(2)
      by (auto simp: rrr_mqtt_acl_parse_keyword_user_def returns_def)
  qed
qed

lemma scans_reset: "scans p q \<Longrightarrow> pos_ok p \<Longrightarrow> scans p (q\<lparr>pos := pos p\<rparr>)"
  by (auto simp: scans_def pos_ok_def)

lemma body_text:
  "text_ok p \<Longrightarrow> entry_ok e \<Longrightarrow> length (rest p) < fuel \<Longrightarrow> length (rest p) < cfuel \<Longrightarrow>
   returns p entry_ok (rrr_mqtt_acl_parse_topic_block_body fuel cfuel mem e p)"
proof (induction fuel arbitrary: p e)
  case (Suc fuel)
  note tp = text_pos [OF Suc.prems(1)]
  from comments_text [OF Suc.prems(1,4)] obtain q where
    q: "rrr_mqtt_acl_parse_spaces_and_comments cfuel p = Inr q" "scans p q" by blast
  note tq = scans_text [OF Suc.prems(1) q(2)] and rq = scans_rest [OF q(2) tp]
  from word_text(2) [OF tq, of word_DEFAULT] obtain m1 q1 where
    w1: "rrr_parse_match_word_case q word_DEFAULT = Inr (m1, q1)" "scans q q1"
      "m1 = 1 \<and> length (rest q1) < length (rest q) \<or> m1 = 0 \<and> q1 = q" by auto
  from word_text(2) [OF tq, of word_USER] obtain m2 q2 where
    w2: "rrr_parse_match_word_case q word_USER = Inr (m2, q2)" "scans q q2"
      "m2 = 1 \<and> length (rest q2) < length (rest q) \<or> m2 = 0 \<and> q2 = q" by auto
  from word_text(2) [OF tq, of word_TOPIC] obtain m3 q3 where
    w3: "rrr_parse_match_word_case q word_TOPIC = Inr (m3, q3)" "scans q q3"
      "m3 = 1 \<and> length (rest q3) < length (rest q) \<or> m3 = 0 \<and> q3 = q" by auto
  have again: "returns p entry_ok (rrr_mqtt_acl_parse_topic_block_body fuel cfuel mem e' r')"
    if "scans q r" "length (rest r) < length (rest q)" "scans r r'" "entry_ok e'" for r r' e'
  proof -
    have s: "scans p r'" using q(2) that(1,3) by (blast intro: scans_trans)
    have "length (rest r') < length (rest p)"
      using scans_rest [OF that(3) text_pos [OF scans_text [OF tq that(1)]]] that(2) rq by linarith
    then show ?thesis
      using Suc.IH [OF scans_text [OF Suc.prems(1) s] that(4)] Suc.prems(3,4) by (intro returns_from [OF _ s]) linarith
  qed
  show ?case
  proof (cases "RRR_PARSE_CHECK_EOF p \<or> RRR_PARSE_CHECK_EOF q")
    case True
    with q Suc.prems(2) scans_refl [OF tp] show ?thesis by (auto simp: returns_def)
  next
    case ne: False
    note run = q(1) w1(1) w2(1) w3(1)
    show ?thesis
    proof (cases "m1 = 1")
      case True
      with w1(3) have l: "length (rest q1) < length (rest q)" by auto
      from default_text [OF scans_text [OF tq w1(2)] Suc.prems(2)] obtain r e' p' where
        d: "rrr_mqtt_acl_parse_keyword_default e q1 = Inr (r, e', p')" "entry_ok e'" "scans q1 p'" by (auto simp: returns_def)
      have s: "scans p q1" "scans p p'" using q(2) w1(2) d(3) by (blast intro: scans_trans)+
      have "entry_ok (e'\<lparr>default_action_is_set := 1\<rparr>)" using d(2) by (auto simp: entry_ok_def)
      from again [OF w1(2) l d(3) this] d s True ne run Suc.prems(2) show ?thesis
        by (auto simp: returns_def)
    next
      case n1: False
      with w1(3) have q1: "m1 = 0" "q1 = q" by auto
      show ?thesis
      proof (cases "m2 = 1")
        case True
        with w2(3) have l: "length (rest q2) < length (rest q)" by auto
        from user_text [OF scans_text [OF tq w2(2)] Suc.prems(2), of mem] obtain r e' p' where
          d: "rrr_mqtt_acl_parse_keyword_user mem e q2 = Inr (r, e', p')" "entry_ok e'" "scans q2 p'" by (auto simp: returns_def)
        have s: "scans p p'" using q(2) w2(2) d(3) by (blast intro: scans_trans)
        from again [OF w2(2) l d(3,2)] d s True ne run q1 show ?thesis by (auto simp: returns_def)
      next
        case False
        with w2(3) have q2: "m2 = 0" "q2 = q" by auto
        have s: "scans p q3" using q(2) w3(2) by (rule scans_trans)
        from s scans_reset [OF s tp] ne run q1 q2 Suc.prems(2) show ?thesis
          by (cases "m3 = 1") (auto simp: returns_def)
      qed
    qed
  qed
qed simp

lemma push_text:
  assumes "0 \<notin> set topic" "rrr_mqtt_topic_filter_validate_name topic = 0" "list_all entry_ok es"
  shows "\<exists>ret es'. rrr_mqtt_acl_entry_collection_push_new ok es (rule_tokens topic) topic = (ret, es') \<and> (ret = 0 \<or> ret = 1) \<and>
     list_all entry_ok es' \<and> (ret = 0 \<longrightarrow> es' \<noteq> [])"
proof -
  have f: "rule_ok (rule_tokens topic)" using validate_filter_exact [OF assms(1)] assms(2) by (simp add: rule_ok_def rule_tokens_def)
  have "entry_ok \<lparr>users = [], default_action = RRR_MQTT_ACL_ACTION_DEFAULT, default_action_is_set = 0,
      first_token = rule_tokens topic, topic_orig = topic\<rparr>"
    using assms f by (simp add: entry_ok_def action_ok_def RRR_MQTT_ACL_ACTION_DEFAULT_def)
  with assms(3) show ?thesis
    by (auto simp: rrr_mqtt_acl_entry_collection_push_new_def tokens_clone_exact with_memory_def)
qed

text \<open>The part of a round of the loop that reads the topic and stores the rule.\<close>

lemma topic_line_text:
  assumes "text_ok p" "list_all entry_ok es" "scans_range p n (start, stop, p')" "0 < n"
  defines "topic \<equiv> c_string (take n (rest p))"
  shows "extract_range b p' start stop = Inr (if b then (0, Some topic) else (1, None)) \<and>
    (rrr_mqtt_topic_filter_validate_name topic = 0 \<longrightarrow>
      (\<exists>ret tokens. rrr_mqtt_topic_tokenize ok topic = Inr (ret, tokens) \<and> (ret = 0 \<or> ret = 1) \<and>
        (ret = 0 \<longrightarrow> (\<exists>ret es'. rrr_mqtt_acl_entry_collection_push_new ok' es tokens topic = (ret, es') \<and> (ret = 0 \<or> ret = 1) \<and>
           list_all entry_ok es' \<and> (ret = 0 \<longrightarrow> es' \<noteq> [])))))"
proof -
  have t0: "0 \<notin> set topic" by (auto simp: topic_def c_string_def dest: set_takeWhileD)
  have x: "extract_range b p' start stop = Inr (if b then (0, Some topic) else (1, None))"
    using extract_range_text [OF text_pos [OF assms(1)] assms(3,4)] by (simp add: topic_def)
  moreover have "\<exists>ret tokens. rrr_mqtt_topic_tokenize ok topic = Inr (ret, tokens) \<and> (ret = 0 \<or> ret = 1) \<and>
        (ret = 0 \<longrightarrow> tokens = rule_tokens topic)" if "rrr_mqtt_topic_filter_validate_name topic = 0"
  proof (cases "topic = []")
    case False
    have "length topic < RRR_LENGTH_MAX" using validate_filter_exact [OF t0] that by (simp add: RRR_LENGTH_MAX_def)
    from tokenize_levels [OF False t0 this] False show ?thesis
      by (auto simp: rrr_mqtt_topic_tokenize_def with_memory_def rule_tokens_def)
  qed (simp add: rrr_mqtt_topic_tokenize_def rule_tokens_def rrr_mqtt_topic_tokenize_with_end.simps)
  ultimately show ?thesis using push_text [OF t0 _ assms(2), of ok'] by blast
qed

lemma blocks_text:
  "text_ok p \<Longrightarrow> list_all entry_ok es \<Longrightarrow> length (rest p) < fuel \<Longrightarrow> length (rest p) < cfuel \<Longrightarrow>
   returns p (list_all entry_ok) (rrr_mqtt_acl_parse_topic_blocks fuel cfuel mem es p)"
proof (induction fuel arbitrary: p es)
  case (Suc fuel)
  note tp = text_pos [OF Suc.prems(1)]
  from comments_text [OF Suc.prems(1,4)] obtain q where
    q: "rrr_mqtt_acl_parse_spaces_and_comments cfuel p = Inr q" "scans p q" by blast
  note tq = scans_text [OF Suc.prems(1) q(2)] and rq = scans_rest [OF q(2) tp]
  from word_text(2) [OF tq, of word_TOPIC] obtain m q1 where
    w: "rrr_parse_match_word_case q word_TOPIC = Inr (m, q1)" "scans q q1"
      "m = 1 \<and> length (rest q1) < length (rest q) \<or> m = 0 \<and> q1 = q" by auto
  note s1 = scans_trans [OF q(2) w(2)]
  from require_text(2) [OF scans_text [OF Suc.prems(1) s1]] obtain r2 q2 where
    2: "rrr_mqtt_acl_parse_require_space_then_non_newline q1 = Inr (r2, q2)" "r2 = 0 \<or> r2 = 1" "scans q1 q2" by blast
  note s2 = scans_trans [OF s1 2(3)]
  note t2 = scans_text [OF Suc.prems(1) s2]
  from non_range(1) [OF t2] obtain n start stop q3 where
    3: "rrr_parse_non_newline q2 = Inr (start, stop, q3)" "scans_range q2 n (start, stop, q3)" by auto
  note s3 = scans_trans [OF s2 range_scans [OF text_pos [OF t2] 3(2)]]
  note run = q(1) w(1) 2(1) 3(1)
  show ?case
  proof (cases "RRR_PARSE_CHECK_EOF q \<or> m \<noteq> 1 \<or> r2 \<noteq> 0 \<or> stop < int (unat start)")
    case True
    then show ?thesis
      using run q(2) s1 s2 s3 Suc.prems(2) w(3) 2(2) by (auto simp: returns_def)
  next
    case False
    then have c: "\<not> RRR_PARSE_CHECK_EOF q" "m = 1" "r2 = 0" "\<not> stop < int (unat start)" by auto
    have n: "0 < n" using range_empty [OF text_pos [OF t2] 3(2)] c(4) by simp
    define topic where "topic = c_string (take n (rest q2))"
    note tl = topic_line_text [OF t2 Suc.prems(2) 3(2) n, folded topic_def,
        where b = "mem (pos q3) 0" and ok = "\<lambda>n. mem (pos q3) (2 * n + 1)" and ok' = "\<lambda>n. mem (pos q3) (2 * n + 2)"]
    have x: "extract_range (mem (pos q3) 0) q3 start stop = Inr (if mem (pos q3) 0 then (0, Some topic) else (1, None))"
      using tl by blast
    show ?thesis
    proof (cases "mem (pos q3) 0 \<and> rrr_mqtt_topic_filter_validate_name topic = 0")
      case False
      then show ?thesis using run c x s3 Suc.prems(2) by (auto simp: returns_def)
    next
      case ok: True
      from tl ok obtain r4 tokens where
        4: "rrr_mqtt_topic_tokenize (\<lambda>n. mem (pos q3) (2 * n + 1)) topic = Inr (r4, tokens)" "r4 = 0 \<or> r4 = 1" and
        push: "r4 = 0 \<longrightarrow> (\<exists>ret es'. rrr_mqtt_acl_entry_collection_push_new (\<lambda>n. mem (pos q3) (2 * n + 2)) es tokens topic = (ret, es') \<and>
           (ret = 0 \<or> ret = 1) \<and> list_all entry_ok es' \<and> (ret = 0 \<longrightarrow> es' \<noteq> []))" by blast
      show ?thesis
      proof (cases "r4 = 0")
        case False
        with 4(2) have "r4 = 1" by simp
        with run c x ok 4(1) s3 Suc.prems(2) show ?thesis by (auto simp: returns_def)
      next
        case r4: True
        with push obtain r5 es' where
          5: "rrr_mqtt_acl_entry_collection_push_new (\<lambda>n. mem (pos q3) (2 * n + 2)) es tokens topic = (r5, es')" "r5 = 0 \<or> r5 = 1"
            "list_all entry_ok es'" "r5 = 0 \<longrightarrow> es' \<noteq> []" by blast
        show ?thesis
        proof (cases "r5 = 0")
          case False
          with run c x ok 4(1) r4 5 s3 show ?thesis by (auto simp: returns_def)
        next
          case r5: True
          have l3: "length (rest q3) < length (rest q)"
            using scans_rest [OF range_scans [OF text_pos [OF t2] 3(2)] text_pos [OF t2]]
              scans_rest [OF 2(3) text_pos [OF scans_text [OF Suc.prems(1) s1]]] w(3) c(2) by auto
          have le: "entry_ok (last es')" using 5(3,4) r5 by (simp add: list_all_iff)
          have "length (rest q3) < cfuel" using l3 rq Suc.prems(4) by linarith
          from body_text [OF scans_text [OF Suc.prems(1) s3] le this this, of mem] obtain r6 e q6 where
            6: "rrr_mqtt_acl_parse_topic_block_body cfuel cfuel mem (last es') q3 = Inr (r6, e, q6)" "r6 = 0 \<or> r6 = 1"
              "entry_ok e" "scans q3 q6" by (auto simp: returns_def)
          note s6 = scans_trans [OF s3 6(4)]
          have es6: "list_all entry_ok (butlast es' @ [e])" using 5(3) 6(3) by (auto simp: list_all_iff dest: in_set_butlastD)
          have l6: "length (rest q6) < length (rest p)"
            using scans_rest [OF 6(4) text_pos [OF scans_text [OF Suc.prems(1) s3]]] l3 rq by linarith
          then have "length (rest q6) < fuel" "length (rest q6) < cfuel" using Suc.prems(3,4) by linarith+
          from returns_from [OF Suc.IH [OF scans_text [OF Suc.prems(1) s6] es6 this] s6]
          show ?thesis
            using run c x ok 4(1) r4 5(1) r5 6(1,2) es6 s6 by (auto simp: returns_def Let_def)
        qed
      qed
    qed
  qed
qed simp

text \<open>
  Claim C13: reading a rule file returns. Whatever the reader of the file returns (a text is followed by the NUL byte the reader puts after it, and may
  contain others) and for every
  pattern of failing allocations, the parser ends without a fault, at the latest when it has passed the text. It either
  returns 0 and every rule it has stored is well formed (a filter that passed validation with its levels as tokens, or, when a NUL byte stands at its
  beginning, an empty one without tokens, which matches nothing; a
  known action, users with a name), or it returns 1 and the list of rules is empty. With the rules of a file that was read, checking a
  PUBLISH of any version never aborts.
\<close>

theorem acl_file_parse_ok:
  assumes "\<forall>c. contents = Some c \<longrightarrow> unat bytes < length c" "unat bytes < fuel" "\<forall>n. name = Some n \<longrightarrow> 0 \<notin> set n"
  shows "\<exists>ret es. rrr_mqtt_acl_entry_collection_populate_from_file fuel mem (rd, contents, bytes) [] = Inr (ret, es) \<and>
     (ret = 0 \<and> list_all entry_ok es \<or> ret = 1 \<and> es = []) \<and>
     (\<exists>r. rrr_mqtt_broker_acl_handler_publish es name topic is_v5 disconnect = Inr r)"
proof -
  have pub: "\<exists>r. rrr_mqtt_broker_acl_handler_publish es name topic is_v5 disconnect = Inr r" if "list_all entry_ok es" for es
  proof -
    have "list_all (\<lambda>e. rule_ok (first_token e)) es" using that by (auto simp: list_all_iff entry_ok_def)
    from stored.check_decides [OF this _ assms(3)] show ?thesis by (simp add: rrr_mqtt_broker_acl_handler_publish_def)
  qed
  have "\<exists>ret es. rrr_mqtt_acl_entry_collection_populate_from_file fuel mem (rd, contents, bytes) [] = Inr (ret, es) \<and>
     (ret = 0 \<and> list_all entry_ok es \<or> ret = 1 \<and> es = [])"
  proof (cases "rd \<noteq> 0 \<or> contents = None \<or> bytes = 0 \<or> unat bytes > RRR_LENGTH_MAX")
    case True
    then show ?thesis by (auto simp: rrr_mqtt_acl_entry_collection_populate_from_file_def)
  next
    case False
    then obtain c where c: "rd = 0" "contents = Some c" "bytes \<noteq> 0" "\<not> unat bytes > RRR_LENGTH_MAX" by auto
    let ?p = "rrr_parse_pos_init c (ucast bytes)"
    have u: "unat (ucast bytes :: rrr_length) = unat bytes"
      using c(4) by (simp add: unsigned_ucast_eq RRR_LENGTH_MAX_def take_bit_nat_eq_self)
    have l: "unat bytes < length c" using assms(1) c(2) by simp
    have t: "text_ok ?p" using l u by (intro text_ok_init) simp
    have f: "length (rest ?p) < fuel" using l assms(2) u by (simp add: pos_ok_init)
    from blocks_text [OF t _ f f, of "[]" mem] obtain ret es p' where
      "rrr_mqtt_acl_parse_topic_blocks fuel fuel mem [] ?p = Inr (ret, es, p')" "ret = 0 \<or> ret = 1" "list_all entry_ok es"
      by (auto simp: returns_def)
    with c show ?thesis
      by (auto simp: rrr_mqtt_acl_entry_collection_populate_from_file_def rrr_mqtt_acl_entry_collection_clear_def)
  qed
  then show ?thesis using pub [of "[]"] pub by (auto simp del: ex_simps)
qed

theorem acl_file_parse_ok_witness:
  "\<exists>ret es. rrr_mqtt_acl_entry_collection_populate_from_file 8 (\<lambda>_ _. True) (0, Some (word_TOPIC @ [0x20, 0x61, 0]), 7) [] = Inr (ret, es) \<and>
     (ret = 0 \<and> list_all entry_ok es \<or> ret = 1 \<and> es = []) \<and>
     (\<exists>r. rrr_mqtt_broker_acl_handler_publish es None [[0x61]] False True = Inr r)"
  by (rule acl_file_parse_ok) simp_all

end
