(* ===== verification/RRR_Discern_Stack.thy ===== *)
theory RRR_Discern_Stack
  imports RRR_Mqtt_Topic RRR_Parse
begin

text \<open>
  Discern stacks, \<^verbatim>\<open>src/lib/discern_stack.c\<close>: small programs in postfix notation that route messages. The parser checks
  them by executing them with made up values; the executor then runs the list of elements without checks. A storage of
  strings is the list of its bytes with its capacity; a list of elements is the list of the elements below its
  write position with the number of slots, the bytes in use and the capacity of its storage, all at 32 bits. The merged
  storage of a finished program is the pair of both. Allocations succeed or not as \<open>mem i n\<close> says, for the \<open>n\<close>-th one
  at position \<open>i\<close> of the text. The loop of the parser has fuel.
  The theory defines which programs are well typed (two types, booleans and destinations, and fewer than 64 values on the
  stack) and shows that a well typed program without the operator BAIL and the constant FALSE is executed as the manual says, without a fault, and that
  one with BAIL can not run to its end. That the parser accepts only well typed programs is shown in \<^verbatim>\<open>RRR_Discern_Parse\<close>.
\<close>

definition RRR_PARSE_MATCH_TAG :: rrr_length where
  "RRR_PARSE_MATCH_TAG = RRR_PARSE_MATCH_LETTERS OR RRR_PARSE_MATCH_NUMBERS"

definition RRR_DISCERN_STACK_BAIL :: c_int where "RRR_DISCERN_STACK_BAIL = 8"
definition RRR_DISCERN_STACK_MAX :: nat where "RRR_DISCERN_STACK_MAX = 64"

subsection \<open>Data\<close>

datatype element_type = E_NONE | E_TOPIC_FILTER | E_ARRAY_TAG | E_BOOL | E_DESTINATION

datatype operator_type = OP_PUSH | OP_AND | OP_OR | OP_APPLY | OP_NOT | OP_POP | OP_BAIL

datatype discern_fault = FAULT_OK | FAULT_CRITICAL | FAULT_END_MISSING | FAULT_SYNTAX_ERROR | FAULT_INVALID_VALUE
  | FAULT_VALUE_MISSING | FAULT_INVALID_TYPE | FAULT_STACK_COUNT | FAULT_STACK_OVERFLOW

definition OP_ARG_COUNT :: "operator_type \<Rightarrow> nat" where
  "OP_ARG_COUNT op = (case op of OP_PUSH \<Rightarrow> 0 | OP_AND \<Rightarrow> 2 | OP_OR \<Rightarrow> 2 | OP_APPLY \<Rightarrow> 2 | OP_NOT \<Rightarrow> 1 | OP_POP \<Rightarrow> 1 | OP_BAIL \<Rightarrow> 1)"

record stack_value =
  data_size :: rrr_length
  data_pos :: rrr_length
  val :: rrr_length

record element =
  etype :: element_type
  eop :: operator_type
  evalue :: stack_value

record value_storage =
  vdata :: "u8 list"
  vcapacity :: rrr_length

record element_list =
  elements :: "element list"
  slots :: rrr_length
  list_bytes :: rrr_length
  list_capacity :: rrr_length

record discern_stack =
  exe_list :: "element list"
  exe_values :: "u8 list"
  dname :: "u8 list"

definition element_size :: nat where "element_size = 24"

definition empty_values :: value_storage where "empty_values = \<lparr>vdata = [], vcapacity = 0\<rparr>"
definition empty_list :: element_list where
  "empty_list = \<lparr>elements = [], slots = 0, list_bytes = 0, list_capacity = 0\<rparr>"

subsection \<open>Storages and lists\<close>

text \<open>What is pushed to a storage of strings: data at a position inside this storage, or data from elsewhere.\<close>

datatype storage_source = Inside rrr_length | Outside "u8 list"

definition rrr_discern_stack_storage_push ::
    "bool \<Rightarrow> storage_source \<Rightarrow> value_storage \<Rightarrow> (c_int \<times> rrr_length \<times> value_storage) res" where
  "rrr_discern_stack_storage_push ok src target =
     (case src of
        Inside position \<Rightarrow> if position < vcapacity target then Inr (0, position, target) else Inl Bad_Access
      | Outside bytes \<Rightarrow>
          let position = of_nat (length (vdata target)) in
          bindr (rrr_length_add_bug_const position (of_nat (length bytes))) (\<lambda>new_capacity.
          if vcapacity target < new_capacity \<and> \<not> ok then Inr (1, position, target)
          else Inr (0, position, target\<lparr>vdata := vdata target @ bytes, vcapacity := max (vcapacity target) new_capacity\<rparr>)))"

definition rrr_discern_stack_list_pop :: "element_list \<Rightarrow> element_list res" where
  "rrr_discern_stack_list_pop stack = assertr (elements stack \<noteq> []) (Inr (stack\<lparr>elements := butlast (elements stack)\<rparr>))"

definition rrr_discern_stack_data_expand :: "bool \<Rightarrow> element_list \<Rightarrow> rrr_length \<Rightarrow> (c_int \<times> element_list) res" where
  "rrr_discern_stack_data_expand ok l expand_size =
     (let new_size = slots l + expand_size; new_size_bytes = new_size * of_nat element_size in
      bindr (if slots l > 0 then
               assertr (list_bytes l > 0) (assertr (slots l * of_nat element_size \<le> list_bytes l)
                 (let l = l\<lparr>list_bytes := list_bytes l - slots l * of_nat element_size\<rparr> in
                  assertr (list_bytes l = 0) (Inr l)))
             else Inr l) (\<lambda>l.
      bindr (rrr_length_add_bug_const (list_bytes l) new_size_bytes) (\<lambda>new_capacity.
      if list_capacity l < new_capacity \<and> \<not> ok then Inr (1, l)
      else Inr (0, l\<lparr>slots := new_size, list_bytes := list_bytes l + new_size_bytes,
                    list_capacity := max (list_capacity l) new_capacity\<rparr>))))"

definition rrr_discern_stack_list_expand :: "bool \<Rightarrow> element_list \<Rightarrow> rrr_length \<Rightarrow> (c_int \<times> element_list) res" where
  "rrr_discern_stack_list_expand ok l expand_size = rrr_discern_stack_data_expand ok l expand_size"

text \<open>The first and the last character of a string, as signed characters.\<close>

definition RRR_DISCERN_STACK_FIRST_LAST_INDEX :: "u8 list \<Rightarrow> rrr_length res" where
  "RRR_DISCERN_STACK_FIRST_LAST_INDEX str =
     (if str = [] then Inl Bad_Access else Inr (push_bit 16 (scast (hd str)) OR scast (last str)))"

text \<open>
  An element is written to the slot at the write position. The position of the data of an element without data is not
  set and never used; it is 0 here.
\<close>

definition rrr_discern_stack_list_push ::
    "(nat \<Rightarrow> bool) \<Rightarrow> element_list \<Rightarrow> element_type \<Rightarrow> operator_type \<Rightarrow> value_storage \<Rightarrow> storage_source option \<Rightarrow> rrr_length \<Rightarrow> rrr_length \<Rightarrow>
     (c_int \<times> element_list \<times> value_storage) res" where
  "rrr_discern_stack_list_push ok l ty op vs src dsize v =
     assertr (length (elements l) \<le> unat (slots l))
     (bindr (if length (elements l) = unat (slots l) then rrr_discern_stack_list_expand (ok 0) l 8 else Inr (0, l)) (\<lambda>(ret, l).
      if ret \<noteq> 0 then Inr (ret, l, vs)
      else if unat (list_capacity l) < element_size * (length (elements l) + 1) then Inl Bad_Access
      else if dsize > 0 then
        assertr (src \<noteq> None)
          (bindr (rrr_discern_stack_storage_push (ok 1) (the src) vs) (\<lambda>(ret, position, vs).
           if ret \<noteq> 0 then Inr (ret, l, vs)
           else bindr (RRR_DISCERN_STACK_FIRST_LAST_INDEX (c_string (drop (unat position) (vdata vs)))) (\<lambda>index.
             Inr (0, l\<lparr>elements := elements l @ [\<lparr>etype = ty, eop = op,
                        evalue = \<lparr>data_size = dsize, data_pos = position, val = index\<rparr>\<rparr>]\<rparr>, vs))))
      else Inr (0, l\<lparr>elements := elements l @ [\<lparr>etype = ty, eop = op,
                      evalue = \<lparr>data_size = 0, data_pos = 0, val = v\<rparr>\<rparr>]\<rparr>, vs)))"

definition rrr_discern_stack_list_push_bool :: "bool \<Rightarrow> element_list \<Rightarrow> rrr_length \<Rightarrow> (c_int \<times> element_list) res" where
  "rrr_discern_stack_list_push_bool ok l result =
     bindr (rrr_discern_stack_list_push (\<lambda>_. ok) l E_BOOL OP_PUSH empty_values None 0 result) (\<lambda>(ret, l, vs). Inr (ret, l))"

text \<open>The merged storage holds the strings first, so that the positions in the list stay valid, and then the list.\<close>

definition rrr_discern_stack_storage_merge ::
    "bool \<Rightarrow> bool \<Rightarrow> value_storage \<Rightarrow> element_list \<Rightarrow> (c_int \<times> rrr_length \<times> rrr_length) res" where
  "rrr_discern_stack_storage_merge ok ok' vs l =
     bindr (rrr_discern_stack_storage_push ok (Outside (vdata vs)) empty_values) (\<lambda>(ret, a_pos, target).
     if ret \<noteq> 0 then Inr (ret, a_pos, 0)
     else let b_pos = of_nat (length (vdata target)) in
       bindr (rrr_length_add_bug_const b_pos (list_bytes l)) (\<lambda>new_capacity.
       if vcapacity target < new_capacity \<and> \<not> ok' then Inr (1, a_pos, b_pos) else Inr (0, a_pos, b_pos)))"

definition rrr_discern_stack_new :: "bool \<Rightarrow> bool \<Rightarrow> u8 list \<Rightarrow> discern_stack option" where
  "rrr_discern_stack_new ok ok' name =
     (if \<not> ok \<or> \<not> ok' then None else Some \<lparr>exe_list = [], exe_values = [], dname = name\<rparr>)"

subsection \<open>Checked execution\<close>

definition rrr_discern_stack_execute_op_and :: "rrr_length \<Rightarrow> rrr_length \<Rightarrow> rrr_length" where
  "rrr_discern_stack_execute_op_and a b = (if a \<noteq> 0 \<and> b \<noteq> 0 then 1 else 0)"

definition rrr_discern_stack_execute_op_or :: "rrr_length \<Rightarrow> rrr_length \<Rightarrow> rrr_length" where
  "rrr_discern_stack_execute_op_or a b = (if a \<noteq> 0 \<or> b \<noteq> 0 then 1 else 0)"

definition rrr_discern_stack_execute_op_not :: "rrr_length \<Rightarrow> rrr_length" where
  "rrr_discern_stack_execute_op_not a = (if a = 0 then 1 else 0)"

definition rrr_discern_stack_execute_op_bail :: "rrr_length \<Rightarrow> rrr_length" where
  "rrr_discern_stack_execute_op_bail a = a"

definition rrr_discern_stack_execute_op_bool ::
    "bool \<Rightarrow> (rrr_length \<Rightarrow> rrr_length) \<Rightarrow> (rrr_length \<Rightarrow> rrr_length \<Rightarrow> rrr_length) option \<Rightarrow> element_list \<Rightarrow>
     (c_int \<times> discern_fault \<times> element_list) res" where
  "rrr_discern_stack_execute_op_bool ok eval_one eval_two stack =
     assertr (elements stack \<noteq> [])
     (let a = last (elements stack);
          push = (\<lambda>result stack. bindr (rrr_discern_stack_list_push_bool ok stack result) (\<lambda>(ret, stack).
                    Inr (ret, if ret \<noteq> 0 then FAULT_CRITICAL else FAULT_OK, stack))) in
      if etype a \<noteq> E_BOOL then Inr (1, FAULT_INVALID_TYPE, stack)
      else case eval_two of
        Some eval \<Rightarrow>
          assertr (length (elements stack) > 1)
          (let b = last (butlast (elements stack)) in
           if etype b \<noteq> E_BOOL then Inr (1, FAULT_INVALID_TYPE, stack)
           else bindr (rrr_discern_stack_list_pop stack) (\<lambda>stack.
                bindr (rrr_discern_stack_list_pop stack) (push (eval (val (evalue a)) (val (evalue b))))))
      | None \<Rightarrow> bindr (rrr_discern_stack_list_pop stack) (push (eval_one (val (evalue a)))))"

definition rrr_discern_stack_execute_op_apply :: "element_list \<Rightarrow> (c_int \<times> discern_fault \<times> element_list) res" where
  "rrr_discern_stack_execute_op_apply stack =
     (if length (elements stack) < 2 then Inl Bad_Access
      else let a = last (elements stack); b = last (butlast (elements stack)) in
        if etype b \<noteq> E_BOOL then Inr (1, FAULT_INVALID_TYPE, stack)
        else if etype a \<noteq> E_DESTINATION then Inr (1, FAULT_INVALID_TYPE, stack)
        else assertr (data_size (evalue a) > 0)
          (bindr (rrr_discern_stack_list_pop stack) (\<lambda>stack. Inr (0, FAULT_OK, stack))))"

definition rrr_discern_stack_execute_op_push ::
    "(nat \<Rightarrow> bool) \<Rightarrow> element_list \<Rightarrow> element \<Rightarrow> value_storage \<Rightarrow> (c_int \<times> discern_fault \<times> element_list \<times> value_storage) res" where
  "rrr_discern_stack_execute_op_push ok stack node vs =
     (case etype node of
        E_TOPIC_FILTER \<Rightarrow>
          bindr (rrr_discern_stack_list_push_bool (ok 0) stack 1) (\<lambda>(ret, stack).
          Inr (ret, if ret \<noteq> 0 then FAULT_CRITICAL else FAULT_OK, stack, vs))
      | E_ARRAY_TAG \<Rightarrow>
          bindr (rrr_discern_stack_list_push_bool (ok 0) stack 1) (\<lambda>(ret, stack). Inr (ret, FAULT_OK, stack, vs))
      | E_NONE \<Rightarrow> Inl Assertion
      | _ \<Rightarrow>
          bindr (rrr_discern_stack_list_push ok stack (etype node) (eop node) vs (Some (Inside (data_pos (evalue node))))
                   (data_size (evalue node)) (val (evalue node))) (\<lambda>(ret, stack, vs).
          Inr (ret, if ret \<noteq> 0 then FAULT_CRITICAL else FAULT_OK, stack, vs)))"

text \<open>One operator.\<close>

definition parse_execute_switch ::
    "(nat \<Rightarrow> bool) \<Rightarrow> element_list \<Rightarrow> element \<Rightarrow> value_storage \<Rightarrow> (c_int \<times> discern_fault \<times> element_list \<times> value_storage) res" where
  "parse_execute_switch ok stack node vs =
     (case eop node of
        OP_PUSH \<Rightarrow> rrr_discern_stack_execute_op_push ok stack node vs
      | OP_AND \<Rightarrow>
            bindr (rrr_discern_stack_execute_op_bool (ok 0) id (Some rrr_discern_stack_execute_op_and) stack)
              (\<lambda>(ret, fault, stack). Inr (ret, fault, stack, vs))
      | OP_OR \<Rightarrow>
            bindr (rrr_discern_stack_execute_op_bool (ok 0) id (Some rrr_discern_stack_execute_op_or) stack)
              (\<lambda>(ret, fault, stack). Inr (ret, fault, stack, vs))
      | OP_APPLY \<Rightarrow>
            bindr (rrr_discern_stack_execute_op_apply stack) (\<lambda>(ret, fault, stack). Inr (ret, fault, stack, vs))
      | OP_NOT \<Rightarrow>
            bindr (rrr_discern_stack_execute_op_bool (ok 0) rrr_discern_stack_execute_op_not None stack)
              (\<lambda>(ret, fault, stack). Inr (ret, fault, stack, vs))
      | OP_POP \<Rightarrow> bindr (rrr_discern_stack_list_pop stack) (\<lambda>stack. Inr (0, FAULT_OK, stack, vs))
      | OP_BAIL \<Rightarrow>
            bindr (rrr_discern_stack_execute_op_bool (ok 0) rrr_discern_stack_execute_op_bail None stack) (\<lambda>(ret, fault, stack).
            if ret \<noteq> 0 then Inr (ret, fault, stack, vs)
            else if elements stack = [] then Inl Bad_Access
            else Inr (if val (evalue (last (elements stack))) \<noteq> 0 then RRR_DISCERN_STACK_BAIL else 0, fault,
                      stack\<lparr>elements := butlast (elements stack)\<rparr>, vs)))"

text \<open>The check of the height of the stack is skipped when the operator fails or bails.\<close>

definition rrr_discern_stack_parse_execute_step ::
    "(nat \<Rightarrow> bool) \<Rightarrow> element_list \<Rightarrow> element \<Rightarrow> value_storage \<Rightarrow> (c_int \<times> discern_fault \<times> element_list \<times> value_storage) res" where
  "rrr_discern_stack_parse_execute_step ok stack node vs =
     (if OP_ARG_COUNT (eop node) > length (elements stack) then Inr (1, FAULT_STACK_COUNT, stack, vs)
      else
        bindr (parse_execute_switch ok stack node vs)
          (\<lambda>(ret, fault, stack, vs).
           if ret \<noteq> 0 then Inr (ret, fault, stack, vs)
           else assertr (length (elements stack) \<le> RRR_DISCERN_STACK_MAX)
             (if length (elements stack) = RRR_DISCERN_STACK_MAX then Inr (1, FAULT_STACK_OVERFLOW, stack, vs)
              else Inr (0, fault, stack, vs))))"

subsection \<open>The parser\<close>

abbreviation dword_TRUE :: "u8 list" where "dword_TRUE \<equiv> [0x54, 0x52, 0x55, 0x45]"
abbreviation dword_FALSE :: "u8 list" where "dword_FALSE \<equiv> [0x46, 0x41, 0x4c, 0x53, 0x45]"
abbreviation dword_AND :: "u8 list" where "dword_AND \<equiv> [0x41, 0x4e, 0x44]"
abbreviation dword_OR :: "u8 list" where "dword_OR \<equiv> [0x4f, 0x52]"
abbreviation dword_NOT :: "u8 list" where "dword_NOT \<equiv> [0x4e, 0x4f, 0x54]"
abbreviation dword_APPLY :: "u8 list" where "dword_APPLY \<equiv> [0x41, 0x50, 0x50, 0x4c, 0x59]"
abbreviation dword_POP :: "u8 list" where "dword_POP \<equiv> [0x50, 0x4f, 0x50]"
abbreviation dword_BAIL :: "u8 list" where "dword_BAIL \<equiv> [0x42, 0x41, 0x49, 0x4c]"

datatype keyword = K_Comment | K_Bool rrr_length | K_Value element_type | K_Op operator_type

definition discern_keywords :: "(u8 list \<times> keyword) list" where
  "discern_keywords = [([0x23], K_Comment), (dword_TRUE, K_Bool 1), (dword_FALSE, K_Bool 0), ([0x54], K_Value E_TOPIC_FILTER),
     ([0x48], K_Value E_ARRAY_TAG), ([0x44], K_Value E_DESTINATION), ([0x49], K_Value E_DESTINATION),
     (dword_AND, K_Op OP_AND), (dword_OR, K_Op OP_OR), (dword_NOT, K_Op OP_NOT), (dword_APPLY, K_Op OP_APPLY),
     (dword_POP, K_Op OP_POP), (dword_BAIL, K_Op OP_BAIL)]"

fun match_keyword :: "parse_pos \<Rightarrow> (u8 list \<times> keyword) list \<Rightarrow> (keyword option \<times> parse_pos) res" where
  "match_keyword p [] = Inr (None, p)"
| "match_keyword p ((word, k) # ws) =
     bindr (rrr_parse_match_word p word) (\<lambda>(m, p). if m \<noteq> 0 then Inr (Some k, p) else match_keyword p ws)"

text \<open>The value after a keyword.\<close>

definition parse_value_range :: "element_type \<Rightarrow> parse_pos \<Rightarrow> (rrr_length \<times> rrr_slength \<times> parse_pos) res" where
  "parse_value_range ty p =
     (case ty of
        E_TOPIC_FILTER \<Rightarrow> rrr_parse_non_control p
      | E_ARRAY_TAG \<Rightarrow> rrr_parse_match_letters p RRR_PARSE_MATCH_TAG
      | E_DESTINATION \<Rightarrow> rrr_parse_match_letters p RRR_PARSE_MATCH_NAME
      | _ \<Rightarrow> Inl Assertion)"

definition parse_value :: "bool \<Rightarrow> element_type \<Rightarrow> parse_pos \<Rightarrow> (c_int \<times> discern_fault \<times> u8 list \<times> parse_pos) res" where
  "parse_value have_memory ty p =
     bindr (rrr_parse_ignore_spaces_and_increment_line p) (\<lambda>p.
     bindr (parse_value_range ty p) (\<lambda>(start, stop, p).
     if stop < int (unat start) then Inr (1, FAULT_VALUE_MISSING, [], p)
     else if RRR_PARSE_CHECK_EOF p then Inr (1, FAULT_END_MISSING, [], p)
     else bindr (if ty = E_ARRAY_TAG \<or> ty = E_DESTINATION
                 then rrr_parse_match_letters_peek p (RRR_PARSE_MATCH_SPACE_TAB OR RRR_PARSE_MATCH_CONTROL) else Inr 1) (\<lambda>n.
     if n = 0 then Inr (1, FAULT_INVALID_VALUE, [], p)
     else bindr (rrr_length_from_slength_sub_err 0 stop (int (unat start))) (\<lambda>(ret, str_length).
     if ret \<noteq> 0 then Inr (ret, FAULT_CRITICAL, [], p)
     else bindr (rrr_parse_str_extract have_memory p start (str_length + 1)) (\<lambda>(ret, str_tmp).
     if ret \<noteq> 0 then Inr (ret, FAULT_CRITICAL, [], p)
     else let str = c_string (the str_tmp) in
       if ty = E_TOPIC_FILTER \<and> rrr_mqtt_topic_filter_validate_name str \<noteq> 0 then Inr (1, FAULT_INVALID_VALUE, [], p)
       else Inr (0, FAULT_OK, str, p))))))"

record parse_state =
  plist :: element_list
  pstack :: element_list
  pvalues :: value_storage

text \<open>
  The element is pushed to the list and executed. A failed push leaves the fault of the round before, which is OK. The
  operator BAIL is ignored.
\<close>

definition parse_push ::
    "(nat \<Rightarrow> bool) \<Rightarrow> element_type \<Rightarrow> operator_type \<Rightarrow> storage_source option \<Rightarrow> rrr_length \<Rightarrow> rrr_length \<Rightarrow> parse_state \<Rightarrow>
     (c_int \<times> discern_fault \<times> parse_state) res" where
  "parse_push ok ty op src dsize v st =
     bindr (rrr_discern_stack_list_push (\<lambda>n. ok (1 + n)) (plist st) ty op (pvalues st) src dsize v) (\<lambda>(ret, l, vs).
     if ret \<noteq> 0 then Inr (ret, FAULT_OK, st\<lparr>plist := l, pvalues := vs\<rparr>)
     else bindr (rrr_discern_stack_parse_execute_step (\<lambda>n. ok (3 + n)) (pstack st) (last (elements l)) vs) (\<lambda>(ret, fault, stack, vs).
     Inr (if ret = RRR_DISCERN_STACK_BAIL then 0 else ret, fault, \<lparr>plist = l, pstack = stack, pvalues = vs\<rparr>)))"

definition string_size :: "u8 list \<Rightarrow> rrr_length res" where
  "string_size str = bindr (rrr_size_t_inc_bug_const (of_nat (length str))) rrr_length_from_size_t_bug_const"

text \<open>One round of the loop after a keyword: the keyword decides what is pushed.\<close>

definition parse_element ::
    "(rrr_length \<Rightarrow> nat \<Rightarrow> bool) \<Rightarrow> keyword \<Rightarrow> parse_pos \<Rightarrow> parse_state \<Rightarrow> (c_int \<times> discern_fault \<times> parse_pos \<times> parse_state) res" where
  "parse_element mem k p st =
     (let push = (\<lambda>ty op src dsize v p. bindr (parse_push (mem (pos p)) ty op src dsize v st)
                    (\<lambda>(ret, fault, st). Inr (ret, fault, p, st))) in
      case k of
        K_Op op \<Rightarrow> push E_NONE op None 0 0 p
      | _ \<Rightarrow>
          bindr (rrr_parse_match_letters_peek p (RRR_PARSE_MATCH_SPACE_TAB OR RRR_PARSE_MATCH_CONTROL)) (\<lambda>n.
          if n = 0 then Inr (1, FAULT_SYNTAX_ERROR, p, st)
          else case k of
            K_Bool v \<Rightarrow> push E_BOOL OP_PUSH None 0 v p
          | K_Value ty \<Rightarrow>
              bindr (parse_value (mem (pos p) 0) ty p) (\<lambda>(ret, fault, str, p).
              if ret \<noteq> 0 then Inr (ret, fault, p, st)
              else bindr (string_size str) (\<lambda>dsize. push ty OP_PUSH (Some (Outside (str @ [0]))) dsize 0 p))
          | _ \<Rightarrow> Inl Assertion))"

fun parse_loop ::
    "nat \<Rightarrow> (rrr_length \<Rightarrow> nat \<Rightarrow> bool) \<Rightarrow> parse_pos \<Rightarrow> parse_state \<Rightarrow> (c_int \<times> discern_fault \<times> parse_pos \<times> parse_state) res" where
  "parse_loop 0 mem p st = Inl Diverge"
| "parse_loop (Suc fuel) mem p st =
     (if RRR_PARSE_CHECK_EOF p then Inr (0, FAULT_OK, p, st)
      else bindr (rrr_parse_ignore_spaces_and_increment_line p) (\<lambda>p.
        if RRR_PARSE_CHECK_EOF p then Inr (0, FAULT_OK, p, st)
        else bindr (match_keyword p discern_keywords) (\<lambda>(k, p).
          case k of
            None \<Rightarrow> Inr (1, FAULT_SYNTAX_ERROR, p, st)
          | Some K_Comment \<Rightarrow> bindr (rrr_parse_comment p) (\<lambda>p. parse_loop fuel mem p st)
          | Some k \<Rightarrow>
              bindr (parse_element mem k p st) (\<lambda>(ret, fault, p, st).
              if ret \<noteq> 0 then Inr (ret, fault, p, st)
              else if elements (pstack st) = [] then Inr (0, fault, p, st)
              else parse_loop fuel mem p st))))"

definition rrr_discern_stack_parse ::
    "nat \<Rightarrow> (rrr_length \<Rightarrow> nat \<Rightarrow> bool) \<Rightarrow> discern_stack \<Rightarrow> parse_pos \<Rightarrow> (c_int \<times> discern_fault \<times> discern_stack \<times> parse_pos) res" where
  "rrr_discern_stack_parse fuel mem ds p =
     bindr (rrr_parse_ignore_control_and_increment_line p) (\<lambda>p.
     if RRR_PARSE_CHECK_EOF p then Inr (1, FAULT_END_MISSING, ds, p)
     else bindr (parse_loop fuel mem p \<lparr>plist = empty_list, pstack = empty_list, pvalues = empty_values\<rparr>) (\<lambda>(ret, fault, p, st).
       if ret \<noteq> 0 then Inr (ret, fault, ds, p)
       else if elements (pstack st) \<noteq> [] then Inr (1, FAULT_STACK_COUNT, ds, p)
       else bindr (rrr_discern_stack_storage_merge (mem (pos p) 5) (mem (pos p) 6) (pvalues st) (plist st)) (\<lambda>(ret, value_pos, list_pos).
         if ret \<noteq> 0 then Inr (ret, fault, ds, p)
         else assertr (value_pos = 0)
           (Inr (0, fault, ds\<lparr>exe_list := elements (plist st), exe_values := vdata (pvalues st)\<rparr>, p)))))"

definition rrr_discern_stack_interpret ::
    "nat \<Rightarrow> bool \<Rightarrow> bool \<Rightarrow> (rrr_length \<Rightarrow> nat \<Rightarrow> bool) \<Rightarrow> discern_stack list \<Rightarrow> discern_fault \<Rightarrow> parse_pos \<Rightarrow> u8 list \<Rightarrow>
     (c_int \<times> discern_stack list \<times> discern_fault \<times> parse_pos) res" where
  "rrr_discern_stack_interpret fuel ok ok' mem target fault p name =
     (case rrr_discern_stack_new ok ok' name of
        None \<Rightarrow> Inr (1, target, fault, p)
      | Some ds \<Rightarrow>
          bindr (rrr_discern_stack_parse fuel mem ds p) (\<lambda>(ret, fault, ds, p).
          Inr (ret, if ret \<noteq> 0 then target else target @ [ds], fault, p)))"

subsection \<open>Collections\<close>

definition rrr_discern_stack_collection_get :: "discern_stack list \<Rightarrow> u8 list \<Rightarrow> discern_stack option" where
  "rrr_discern_stack_collection_get collection name = find (\<lambda>ds. dname ds = name) collection"

definition rrr_discern_stack_add_from :: "bool \<Rightarrow> discern_stack \<Rightarrow> discern_stack \<Rightarrow> (c_int \<times> discern_stack) res" where
  "rrr_discern_stack_add_from ok target source =
     (if \<not> ok then Inr (1, target)
      else Inr (0, target\<lparr>exe_list := exe_list source, exe_values := exe_values source\<rparr>))"

definition rrr_discern_stack_collection_add_cloned ::
    "(nat \<Rightarrow> bool) \<Rightarrow> discern_stack list \<Rightarrow> discern_stack \<Rightarrow> (c_int \<times> discern_stack list) res" where
  "rrr_discern_stack_collection_add_cloned ok collection source =
     (case rrr_discern_stack_new (ok 0) (ok 1) (dname source) of
        None \<Rightarrow> Inr (1, collection)
      | Some target \<Rightarrow>
          bindr (rrr_discern_stack_add_from (ok 2) target source) (\<lambda>(ret, target).
          Inr (ret, if ret \<noteq> 0 then collection else collection @ [target])))"

primrec rrr_discern_stack_collection_iterate_names :: "(u8 list \<Rightarrow> 'w \<Rightarrow> 'w) \<Rightarrow> discern_stack list \<Rightarrow> 'w \<Rightarrow> 'w" where
  "rrr_discern_stack_collection_iterate_names callback [] w = w"
| "rrr_discern_stack_collection_iterate_names callback (ds # collection) w =
     rrr_discern_stack_collection_iterate_names callback collection (callback (dname ds) w)"

fun iterate_destinations :: "(u8 list \<Rightarrow> 'w \<Rightarrow> c_int \<times> 'w) \<Rightarrow> u8 list \<Rightarrow> element list \<Rightarrow> 'w \<Rightarrow> c_int \<times> 'w" where
  "iterate_destinations callback values [] w = (0, w)"
| "iterate_destinations callback values (e # es) w =
     (if etype e \<noteq> E_DESTINATION then iterate_destinations callback values es w
      else case callback (c_string (drop (unat (data_pos (evalue e))) values)) w of (ret, w) \<Rightarrow>
        if ret \<noteq> 0 then (ret, w) else iterate_destinations callback values es w)"

fun rrr_discern_stack_collection_iterate_destination_names ::
    "(u8 list \<Rightarrow> u8 list \<Rightarrow> 'w \<Rightarrow> c_int \<times> 'w) \<Rightarrow> discern_stack list \<Rightarrow> 'w \<Rightarrow> c_int \<times> 'w" where
  "rrr_discern_stack_collection_iterate_destination_names callback [] w = (0, w)"
| "rrr_discern_stack_collection_iterate_destination_names callback (ds # collection) w =
     (case iterate_destinations (callback (dname ds)) (exe_values ds) (exe_list ds) w of (ret, w) \<Rightarrow>
        if ret \<noteq> 0 then (ret, w) else rrr_discern_stack_collection_iterate_destination_names callback collection w)"

subsection \<open>Fast execution\<close>

text \<open>
  The callbacks act on a world. That for topic filters gets the bytes from the filter on and its size, with the
  terminator. That for array tags may return a new index. A callback that fails leaves the result as it was.
\<close>

record 'w discern_callbacks =
  resolve_topic_filter_cb :: "u8 list \<Rightarrow> rrr_length \<Rightarrow> 'w \<Rightarrow> (c_int \<times> rrr_length \<times> 'w) res"
  resolve_array_tag_cb :: "u8 list \<Rightarrow> 'w \<Rightarrow> (c_int \<times> rrr_length \<times> rrr_length list option \<times> 'w) res"
  apply_cb_false :: "(u8 list \<Rightarrow> 'w \<Rightarrow> (c_int \<times> 'w) res) option"
  apply_cb_true :: "u8 list \<Rightarrow> 'w \<Rightarrow> (c_int \<times> 'w) res"

definition rrr_discern_stack_execute_apply_cb_dummy :: "u8 list \<Rightarrow> 'w \<Rightarrow> (c_int \<times> 'w) res" where
  "rrr_discern_stack_execute_apply_cb_dummy destination w = Inr (0, w)"

definition apply_cbs :: "'w discern_callbacks \<Rightarrow> bool \<Rightarrow> u8 list \<Rightarrow> 'w \<Rightarrow> (c_int \<times> 'w) res" where
  "apply_cbs cbs b =
     (if b then apply_cb_true cbs
      else case apply_cb_false cbs of Some cb \<Rightarrow> cb | None \<Rightarrow> rrr_discern_stack_execute_apply_cb_dummy)"

text \<open>The array of values with the write position, a 32 bit number that is not checked before a use but for the one assertion.\<close>

record 'w exec_state =
  stack_e :: "stack_value list"
  wpos :: rrr_length
  index_tmp :: "rrr_length list"
  world :: 'w

definition get_e :: "'w exec_state \<Rightarrow> rrr_length \<Rightarrow> stack_value res" where
  "get_e s i = (if unat i < length (stack_e s) then Inr (stack_e s ! unat i) else Inl Bad_Access)"

definition set_e :: "'w exec_state \<Rightarrow> rrr_length \<Rightarrow> stack_value \<Rightarrow> 'w exec_state res" where
  "set_e s i x = (if unat i < length (stack_e s) then Inr (s\<lparr>stack_e := (stack_e s)[unat i := x]\<rparr>) else Inl Bad_Access)"

definition set_value :: "'w exec_state \<Rightarrow> rrr_length \<Rightarrow> rrr_length \<Rightarrow> 'w exec_state res" where
  "set_value s i v = bindr (get_e s i) (\<lambda>x. set_e s i (x\<lparr>val := v\<rparr>))"

definition push_value :: "'w exec_state \<Rightarrow> rrr_length \<Rightarrow> 'w exec_state res" where
  "push_value s v = bindr (set_value s (wpos s) v) (\<lambda>s. Inr (s\<lparr>wpos := wpos s + 1\<rparr>))"

definition execute_push ::
    "'w discern_callbacks \<Rightarrow> u8 list \<Rightarrow> element \<Rightarrow> 'w exec_state \<Rightarrow> (c_int \<times> discern_fault \<times> 'w exec_state) res" where
  "execute_push cbs values node s =
     (case etype node of
        E_TOPIC_FILTER \<Rightarrow>
          bindr (resolve_topic_filter_cb cbs (drop (unat (data_pos (evalue node))) values) (data_size (evalue node)) (world s))
            (\<lambda>(ret, v, w). let s = s\<lparr>world := w\<rparr> in
             if ret \<noteq> 0 then Inr (ret, FAULT_OK, s) else bindr (push_value s v) (\<lambda>s. Inr (0, FAULT_OK, s)))
      | E_ARRAY_TAG \<Rightarrow>
          if index_tmp s \<noteq> [] \<and> val (evalue node) \<notin> set (index_tmp s)
          then bindr (push_value s 0) (\<lambda>s. Inr (0, FAULT_OK, s))
          else bindr (resolve_array_tag_cb cbs (c_string (drop (unat (data_pos (evalue node))) values)) (world s))
            (\<lambda>(ret, v, new_index, w).
             let s = s\<lparr>world := w, index_tmp := (case new_index of Some ix \<Rightarrow> ix | None \<Rightarrow> index_tmp s)\<rparr> in
             if ret \<noteq> 0 then Inr (ret, FAULT_OK, s) else bindr (push_value s v) (\<lambda>s. Inr (0, FAULT_OK, s)))
      | E_BOOL \<Rightarrow> bindr (push_value s 1) (\<lambda>s. Inr (0, FAULT_OK, s))
      | E_DESTINATION \<Rightarrow> bindr (set_e s (wpos s) (evalue node)) (\<lambda>s. Inr (0, FAULT_OK, s\<lparr>wpos := wpos s + 1\<rparr>))
      | E_NONE \<Rightarrow> Inl Assertion)"

definition execute_bool :: "(rrr_length \<Rightarrow> rrr_length \<Rightarrow> rrr_length) \<Rightarrow> 'w exec_state \<Rightarrow> (c_int \<times> discern_fault \<times> 'w exec_state) res" where
  "execute_bool eval s =
     bindr (get_e s (wpos s - 1)) (\<lambda>a. bindr (get_e s (wpos s - 2)) (\<lambda>b.
     bindr (set_value s (wpos s - 2) (eval (val a) (val b))) (\<lambda>s. Inr (0, FAULT_OK, s\<lparr>wpos := wpos s - 1\<rparr>))))"

definition execute_op ::
    "'w discern_callbacks \<Rightarrow> u8 list \<Rightarrow> element \<Rightarrow> 'w exec_state \<Rightarrow> (c_int \<times> discern_fault \<times> 'w exec_state) res" where
  "execute_op cbs values node s =
     (case eop node of
        OP_PUSH \<Rightarrow> execute_push cbs values node s
      | OP_AND \<Rightarrow> execute_bool (\<lambda>a b. if a \<noteq> 0 \<and> b \<noteq> 0 then 1 else 0) s
      | OP_OR \<Rightarrow> execute_bool (\<lambda>a b. if a \<noteq> 0 \<or> b \<noteq> 0 then 1 else 0) s
      | OP_APPLY \<Rightarrow>
          bindr (get_e s (wpos s - 2)) (\<lambda>b. bindr (get_e s (wpos s - 1)) (\<lambda>a.
          bindr (apply_cbs cbs (val b AND 1 \<noteq> 0) (c_string (drop (unat (data_pos a)) values)) (world s)) (\<lambda>(ret, w).
          if ret \<noteq> 0 then Inr (ret, FAULT_CRITICAL, s\<lparr>world := w\<rparr>)
          else Inr (0, FAULT_OK, s\<lparr>world := w, wpos := wpos s - 1\<rparr>))))
      | OP_NOT \<Rightarrow>
          bindr (get_e s (wpos s - 1)) (\<lambda>a.
          bindr (set_value s (wpos s - 1) (if val a = 0 then 1 else 0)) (\<lambda>s. Inr (0, FAULT_OK, s)))
      | OP_POP \<Rightarrow> Inr (0, FAULT_OK, s\<lparr>wpos := wpos s - 1\<rparr>)
      | OP_BAIL \<Rightarrow>
          bindr (get_e s (wpos s - 1)) (\<lambda>a. Inr (if val a \<noteq> 0 then RRR_DISCERN_STACK_BAIL else 0, FAULT_OK, s)))"

fun execute_loop ::
    "'w discern_callbacks \<Rightarrow> u8 list \<Rightarrow> element list \<Rightarrow> 'w exec_state \<Rightarrow> (c_int \<times> discern_fault \<times> 'w exec_state) res" where
  "execute_loop cbs values [] s = assertr (wpos s = 0) (Inr (0, FAULT_OK, s))"
| "execute_loop cbs values (node # nodes) s =
     assertr (unat (wpos s) < RRR_DISCERN_STACK_MAX)
       (bindr (execute_op cbs values node s) (\<lambda>(ret, fault, s).
        if ret \<noteq> 0 then Inr (ret, fault, s) else execute_loop cbs values nodes s))"

definition exec_start :: "'w \<Rightarrow> 'w exec_state" where
  "exec_start w = \<lparr>stack_e = replicate RRR_DISCERN_STACK_MAX \<lparr>data_size = 0, data_pos = 0, val = 0\<rparr>, wpos = 0, index_tmp = [], world = w\<rparr>"

definition rrr_discern_stack_execute :: "discern_stack \<Rightarrow> 'w discern_callbacks \<Rightarrow> 'w \<Rightarrow> (c_int \<times> discern_fault \<times> 'w) res" where
  "rrr_discern_stack_execute ds cbs w =
     bindr (execute_loop cbs (exe_values ds) (exe_list ds) (exec_start w)) (\<lambda>(ret, fault, s). Inr (ret, fault, world s))"

fun collection_execute :: "discern_stack list \<Rightarrow> 'w discern_callbacks \<Rightarrow> discern_fault \<Rightarrow> 'w \<Rightarrow> (c_int \<times> discern_fault \<times> 'w) res" where
  "collection_execute [] cbs fault w = Inr (0, fault, w)"
| "collection_execute (ds # collection) cbs fault w =
     bindr (rrr_discern_stack_execute ds cbs w) (\<lambda>(ret, fault, w).
     if ret \<noteq> 0 then Inr (ret, fault, w) else collection_execute collection cbs fault w)"

definition rrr_discern_stack_collection_execute ::
    "discern_stack list \<Rightarrow> 'w discern_callbacks \<Rightarrow> 'w \<Rightarrow> (c_int \<times> discern_fault \<times> 'w) res" where
  "rrr_discern_stack_collection_execute collection cbs w = collection_execute collection cbs FAULT_OK w"

subsection \<open>The callbacks for messages\<close>

text \<open>
  The topic filter callback of \<^verbatim>\<open>discern_stack_helper.c\<close>: the topic of the message is \<open>topic_length\<close> bytes of \<open>msg_data\<close>. Any
  result of the matcher but a mismatch is a match.
\<close>

definition rrr_discern_stack_helper_topic_filter_resolve_cb ::
    "u8 list \<Rightarrow> u16 \<Rightarrow> u8 list \<Rightarrow> rrr_length \<Rightarrow> (c_int \<times> rrr_length) res" where
  "rrr_discern_stack_helper_topic_filter_resolve_cb msg_data topic_length topic_filter topic_filter_size =
     (if topic_length = 0 then Inr (0, 0)
      else bindr (rrr_mqtt_topic_match_topic_and_linear_with_end msg_data (unat topic_length) topic_filter
                    (unat (topic_filter_size - 1))) (\<lambda>m.
           if m = RRR_MQTT_TOKEN_MISMATCH then Inr (0, 0) else Inr (0, 1)))"

subsection \<open>Types\<close>

text \<open>
  The effect of an element on the types of the values on the stack, the top first. A program is well typed when every operator finds
  the operands it needs and there are never 64 values.
\<close>

fun type_step :: "element \<Rightarrow> element_type list \<Rightarrow> element_type list option" where
  "type_step e ts =
     (case (eop e, ts) of
        (OP_PUSH, _) \<Rightarrow> (case etype e of E_NONE \<Rightarrow> None | E_DESTINATION \<Rightarrow> Some (E_DESTINATION # ts) | _ \<Rightarrow> Some (E_BOOL # ts))
      | (OP_AND, E_BOOL # E_BOOL # us) \<Rightarrow> Some (E_BOOL # us)
      | (OP_OR, E_BOOL # E_BOOL # us) \<Rightarrow> Some (E_BOOL # us)
      | (OP_APPLY, E_DESTINATION # E_BOOL # us) \<Rightarrow> Some (E_BOOL # us)
      | (OP_NOT, E_BOOL # us) \<Rightarrow> Some (E_BOOL # us)
      | (OP_POP, _ # us) \<Rightarrow> Some us
      | (OP_BAIL, E_BOOL # us) \<Rightarrow> Some us
      | _ \<Rightarrow> None)"

fun typed :: "element list \<Rightarrow> element_type list \<Rightarrow> element_type list option" where
  "typed [] ts = Some ts"
| "typed (e # es) ts =
     (case type_step e ts of None \<Rightarrow> None | Some us \<Rightarrow> if length us < RRR_DISCERN_STACK_MAX then typed es us else None)"

text \<open>The strings that the elements refer to: they are terminated and not empty, and topic filters are valid.\<close>

definition string_at :: "u8 list \<Rightarrow> rrr_length \<Rightarrow> u8 list \<Rightarrow> bool" where
  "string_at values position str \<longleftrightarrow> (\<exists>r. drop (unat position) values = str @ 0 # r) \<and> str \<noteq> [] \<and> 0 \<notin> set str"

definition node_ok :: "u8 list \<Rightarrow> element \<Rightarrow> bool" where
  "node_ok values e \<longleftrightarrow> (eop e = OP_PUSH \<and> etype e \<in> {E_TOPIC_FILTER, E_ARRAY_TAG, E_DESTINATION} \<longrightarrow>
     (\<exists>str. string_at values (data_pos (evalue e)) str \<and> data_size (evalue e) = of_nat (length str + 1) \<and> length str + 1 < 2 ^ 32 \<and>
       (etype e = E_TOPIC_FILTER \<longrightarrow> rrr_mqtt_topic_filter_validate_name str = 0)))"

definition program_ok :: "discern_stack \<Rightarrow> bool" where
  "program_ok ds \<longleftrightarrow> typed (exe_list ds) [] = Some [] \<and> list_all (node_ok (exe_values ds)) (exe_list ds)"

definition bails :: "element list \<Rightarrow> nat" where
  "bails es = length (filter (\<lambda>e. eop e = OP_BAIL) es)"

lemma bails_simps [simp]: "bails [] = 0" "bails (e # es) = (if eop e = OP_BAIL then 1 else 0) + bails es"
  by (simp_all add: bails_def)

text \<open>Callbacks that return, with a truth value, on all valid filters and all tags, and return on all destinations that are \<open>known\<close>.\<close>

definition callbacks_return :: "(u8 list \<Rightarrow> bool) \<Rightarrow> 'w discern_callbacks \<Rightarrow> bool" where
  "callbacks_return known cbs \<longleftrightarrow>
     (\<forall>f r w. f \<noteq> [] \<and> 0 \<notin> set f \<and> rrr_mqtt_topic_filter_validate_name f = 0 \<longrightarrow>
        (\<exists>ret v w'. resolve_topic_filter_cb cbs (f @ 0 # r) (of_nat (length f + 1)) w = Inr (ret, v, w') \<and> v \<in> {0, 1})) \<and>
     (\<forall>tag w. \<exists>ret v ix w'. resolve_array_tag_cb cbs tag w = Inr (ret, v, ix, w') \<and> v \<in> {0, 1}) \<and>
     (\<forall>b d w. known d \<longrightarrow> (\<exists>ret w'. apply_cbs cbs b d w = Inr (ret, w')))"

definition known_destination :: "(u8 list \<Rightarrow> bool) \<Rightarrow> u8 list \<Rightarrow> element \<Rightarrow> bool" where
  "known_destination known values e \<longleftrightarrow> (etype e = E_DESTINATION \<longrightarrow> known (c_string (drop (unat (data_pos (evalue e))) values)))"

lemma c_string_at: "string_at values position str \<Longrightarrow> c_string (drop (unat position) values) = str"
  by (auto simp: string_at_def c_string_def takeWhile_nul)

subsection \<open>Execution of well typed programs\<close>

lemma wpos_pred:
  fixes i :: rrr_length
  shows "0 < unat i \<Longrightarrow> unat (i - 1) = unat i - 1" "1 < unat i \<Longrightarrow> unat (i - 2) = unat i - 2"
proof -
  assume "0 < unat i"
  then have "1 \<le> i" by (simp add: word_le_nat_alt Suc_le_eq)
  then show "unat (i - 1) = unat i - 1" by (simp add: unat_sub)
next
  assume "1 < unat i"
  then have "2 \<le> i" by (simp add: word_le_nat_alt)
  then show "unat (i - 2) = unat i - 2" by (simp add: unat_sub)
qed

lemma wpos_succ: "unat (i :: rrr_length) < 64 \<Longrightarrow> unat (i + 1) = unat i + 1"
  by (rule unat_inc [of i 64]) (simp add: word_less_nat_alt)

lemmas exec_defs = get_e_def set_e_def set_value_def push_value_def execute_bool_def Let_def

text \<open>One operator does not fault, and moves the write position as the types say, except BAIL.\<close>

lemma execute_push_safe:
  assumes "callbacks_return (\<lambda>_. True) cbs" "node_ok values e" "eop e = OP_PUSH" "etype e \<noteq> E_NONE"
    and "length (stack_e s) = 64" "unat (wpos s) < 64"
  shows "\<exists>ret fault s'. execute_push cbs values e s = Inr (ret, fault, s') \<and> length (stack_e s') = 64 \<and>
    (ret = 0 \<longrightarrow> unat (wpos s') = unat (wpos s) + 1)"
proof -
  have cb: "\<exists>ret v ix w'. resolve_array_tag_cb cbs tag w = Inr (ret, v, ix, w')" for tag w
    using assms(1) unfolding callbacks_return_def by blast
  have inc: "unat (wpos s + 1) = unat (wpos s) + 1" using wpos_succ [OF assms(6)] .
  show ?thesis
  proof (cases "etype e")
    case E_TOPIC_FILTER
    obtain str r where str: "drop (unat (data_pos (evalue e))) values = str @ 0 # r" "str \<noteq> []" "0 \<notin> set str"
      "data_size (evalue e) = of_nat (length str + 1)" "rrr_mqtt_topic_filter_validate_name str = 0"
      using assms(2,3) E_TOPIC_FILTER by (auto simp: node_ok_def string_at_def)
    obtain ret v w' where "resolve_topic_filter_cb cbs (str @ 0 # r) (of_nat (length str + 1)) (world s) = Inr (ret, v, w')"
      using assms(1) str(2,3,5) unfolding callbacks_return_def by blast
    then show ?thesis
      using E_TOPIC_FILTER assms(5,6) inc str(4) unfolding execute_push_def str(1) by (auto simp: exec_defs)
  next
    case E_ARRAY_TAG
    obtain ret v ix w' where "resolve_array_tag_cb cbs (c_string (drop (unat (data_pos (evalue e))) values)) (world s) = Inr (ret, v, ix, w')"
      using cb by blast
    then show ?thesis
      using E_ARRAY_TAG assms(5,6) inc by (auto simp: execute_push_def exec_defs)
  qed (use assms(4-6) inc in \<open>auto simp: execute_push_def exec_defs\<close>)
qed

lemma execute_op_safe:
  assumes "callbacks_return (\<lambda>_. True) cbs" "node_ok values e" "type_step e ts = Some us"
    and "length (stack_e s) = 64" "unat (wpos s) = length ts + b" "unat (wpos s) < 64"
  shows "\<exists>ret fault s'. execute_op cbs values e s = Inr (ret, fault, s') \<and> length (stack_e s') = 64 \<and>
    (ret = 0 \<longrightarrow> unat (wpos s') = length us + b + (if eop e = OP_BAIL then 1 else 0))"
proof (cases "eop e")
  case OP_PUSH
  then have "etype e \<noteq> E_NONE" "length us = length ts + 1" using assms(3) by (auto split: element_type.splits)
  with execute_push_safe [OF assms(1,2) OP_PUSH _ assms(4,6)] OP_PUSH assms(5) show ?thesis
    by (auto simp: execute_op_def)
next
  case OP_APPLY
  then obtain vs where vs: "ts = E_DESTINATION # E_BOOL # vs" "us = E_BOOL # vs"
    using assms(3) by (auto split: list.splits element_type.splits)
  obtain ret w' where "apply_cbs cbs (val (stack_e s ! (length vs + b)) AND 1 \<noteq> 0)
      (c_string (drop (unat (data_pos (stack_e s ! Suc (length vs + b)))) values)) (world s) = Inr (ret, w')"
    using assms(1) unfolding callbacks_return_def by blast
  with vs show ?thesis
    using OP_APPLY assms(4-6) by (auto simp: execute_op_def exec_defs wpos_pred)
qed (use assms(3-6) in \<open>auto simp: execute_op_def exec_defs wpos_pred split: list.splits element_type.splits\<close>)

lemma execute_loop_safe:
  assumes "callbacks_return (\<lambda>_. True) cbs"
  shows "list_all (node_ok values) es \<Longrightarrow> typed es ts = Some [] \<Longrightarrow> length ts < 64 \<Longrightarrow> length (stack_e s) = 64 \<Longrightarrow>
    unat (wpos s) = length ts + b \<Longrightarrow>
    (\<exists>ret fault s'. execute_loop cbs values es s = Inr (ret, fault, s') \<and> (ret \<noteq> 0 \<or> b + bails es = 0)) \<or>
    execute_loop cbs values es s = Inl Assertion \<and> 0 < b + bails es"
proof (induction es arbitrary: ts s b)
  case Nil
  then show ?case by (cases "wpos s = 0") (auto simp: assertr_def unat_gt_0)
next
  case (Cons e es)
  show ?case
  proof (cases "unat (wpos s) < 64")
    case False
    with Cons.prems(3,5) show ?thesis by (simp add: RRR_DISCERN_STACK_MAX_def)
  next
    case True
    obtain us where us: "type_step e ts = Some us" "length us < 64" "typed es us = Some []"
      using Cons.prems(2) by (auto simp: RRR_DISCERN_STACK_MAX_def split: option.splits if_splits)
    have "node_ok values e" using Cons.prems(1) by simp
    from execute_op_safe [OF assms this us(1) Cons.prems(4,5) True]
    obtain ret fault s' where s': "execute_op cbs values e s = Inr (ret, fault, s')" "length (stack_e s') = 64"
      "ret = 0 \<Longrightarrow> unat (wpos s') = length us + (b + (if eop e = OP_BAIL then 1 else 0))" by (auto simp: add.assoc)
    have l: "execute_loop cbs values (e # es) s = (if ret \<noteq> 0 then Inr (ret, fault, s') else execute_loop cbs values es s')"
      using s'(1) True by (simp add: RRR_DISCERN_STACK_MAX_def)
    show ?thesis
    proof (cases "ret = 0")
      case True
      with Cons.IH [OF _ us(3,2) s'(2) s'(3)] Cons.prems(1) l show ?thesis by (auto simp: add_ac)
    qed (use l in auto)
  qed
qed

subsection \<open>Meaning of programs\<close>

text \<open>
  What the manual says: a stack of truth values and destinations, of any height. APPLY hands the destination below which
  there is a truth value to one of the two callbacks, and BAIL takes the truth value from the stack and stops the program if it is true.
\<close>

datatype rvalue = Truth bool | Dest "u8 list"

type_synonym 'w run_state = "rvalue list \<times> rrr_length list \<times> 'w"

definition run_push :: "'w discern_callbacks \<Rightarrow> u8 list \<Rightarrow> element \<Rightarrow> 'w run_state \<Rightarrow> (c_int \<times> discern_fault \<times> 'w run_state) res" where
  "run_push cbs values e = (\<lambda>(st, ix, w).
     case etype e of
       E_TOPIC_FILTER \<Rightarrow>
         bindr (resolve_topic_filter_cb cbs (drop (unat (data_pos (evalue e))) values) (data_size (evalue e)) w) (\<lambda>(ret, v, w).
         Inr (ret, FAULT_OK, (Truth (v \<noteq> 0) # st, ix, w)))
     | E_ARRAY_TAG \<Rightarrow>
         if ix \<noteq> [] \<and> val (evalue e) \<notin> set ix then Inr (0, FAULT_OK, (Truth False # st, ix, w))
         else bindr (resolve_array_tag_cb cbs (c_string (drop (unat (data_pos (evalue e))) values)) w) (\<lambda>(ret, v, new_index, w).
           Inr (ret, FAULT_OK, (Truth (v \<noteq> 0) # st, case new_index of Some ix \<Rightarrow> ix | None \<Rightarrow> ix, w)))
     | E_BOOL \<Rightarrow> Inr (0, FAULT_OK, (Truth (val (evalue e) \<noteq> 0) # st, ix, w))
     | E_DESTINATION \<Rightarrow> Inr (0, FAULT_OK, (Dest (c_string (drop (unat (data_pos (evalue e))) values)) # st, ix, w))
     | E_NONE \<Rightarrow> Inl Bug)"

definition run_op :: "'w discern_callbacks \<Rightarrow> u8 list \<Rightarrow> element \<Rightarrow> 'w run_state \<Rightarrow> (c_int \<times> discern_fault \<times> 'w run_state) res" where
  "run_op cbs values e = (\<lambda>(st, ix, w).
     case (eop e, st) of
       (OP_PUSH, _) \<Rightarrow> run_push cbs values e (st, ix, w)
     | (OP_AND, Truth a # Truth b # st) \<Rightarrow> Inr (0, FAULT_OK, (Truth (a \<and> b) # st, ix, w))
     | (OP_OR, Truth a # Truth b # st) \<Rightarrow> Inr (0, FAULT_OK, (Truth (a \<or> b) # st, ix, w))
     | (OP_APPLY, Dest d # Truth b # st) \<Rightarrow>
         bindr (apply_cbs cbs b d w) (\<lambda>(ret, w).
         Inr (ret, if ret \<noteq> 0 then FAULT_CRITICAL else FAULT_OK, (Truth b # st, ix, w)))
     | (OP_NOT, Truth a # st) \<Rightarrow> Inr (0, FAULT_OK, (Truth (\<not> a) # st, ix, w))
     | (OP_POP, _ # st) \<Rightarrow> Inr (0, FAULT_OK, (st, ix, w))
     | (OP_BAIL, Truth a # st) \<Rightarrow> Inr (if a then RRR_DISCERN_STACK_BAIL else 0, FAULT_OK, (st, ix, w))
     | _ \<Rightarrow> Inl Bug)"

fun run :: "'w discern_callbacks \<Rightarrow> u8 list \<Rightarrow> element list \<Rightarrow> 'w run_state \<Rightarrow> (c_int \<times> discern_fault \<times> 'w) res" where
  "run cbs values [] (st, ix, w) = (if st = [] then Inr (0, FAULT_OK, w) else Inl Bug)"
| "run cbs values (e # es) s =
     bindr (run_op cbs values e s) (\<lambda>(ret, fault, s).
     if ret \<noteq> 0 then Inr (ret, fault, snd (snd s)) else run cbs values es s)"

text \<open>The representation of such a stack in the array.\<close>

definition conf :: "(u8 list \<Rightarrow> bool) \<Rightarrow> u8 list \<Rightarrow> stack_value \<Rightarrow> rvalue \<Rightarrow> bool" where
  "conf known values x v =
     (case v of Truth b \<Rightarrow> val x = of_bool b | Dest d \<Rightarrow> c_string (drop (unat (data_pos x)) values) = d \<and> known d)"

fun rtype :: "rvalue \<Rightarrow> element_type" where
  "rtype (Truth b) = E_BOOL"
| "rtype (Dest d) = E_DESTINATION"

lemma rtype_cases: "rtype v = E_BOOL \<Longrightarrow> \<exists>b. v = Truth b" "rtype v = E_DESTINATION \<Longrightarrow> \<exists>d. v = Dest d"
  by (cases v; simp)+

lemma conf_simps [simp]: "conf known values x (Truth b) \<longleftrightarrow> val x = of_bool b"
  "conf known values x (Dest d) \<longleftrightarrow> c_string (drop (unat (data_pos x)) values) = d \<and> known d"
  by (simp_all add: conf_def)

definition rep :: "(u8 list \<Rightarrow> bool) \<Rightarrow> u8 list \<Rightarrow> 'w exec_state \<Rightarrow> 'w run_state \<Rightarrow> bool" where
  "rep known values s = (\<lambda>(st, ix, w). length (stack_e s) = 64 \<and> unat (wpos s) = length st \<and> index_tmp s = ix \<and> world s = w \<and>
     list_all2 (conf known values) (take (length st) (stack_e s)) (rev st))"

lemma take_top:
  "n < length xs \<Longrightarrow> length ys = n \<Longrightarrow> list_all2 P (take (Suc n) xs) (ys @ [y]) \<longleftrightarrow> list_all2 P (take n xs) ys \<and> P (xs ! n) y"
  by (simp add: take_Suc_conv_app_nth list_all2_append)

lemma rep_push:
  assumes "rep known values s (st, ix, w)" "length st < 64" "conf known values x v"
  shows "rep known values (s\<lparr>stack_e := (stack_e s)[unat (wpos s) := x], wpos := wpos s + 1\<rparr>) (v # st, ix, w)"
  using assms wpos_succ [of "wpos s"] by (simp add: rep_def take_top)

lemma rep_top:
  assumes "rep known values s (v # st, ix, w)" "length st < 64"
  shows "unat (wpos s - 1) = length st" "conf known values (stack_e s ! length st) v"
    "rep known values (s\<lparr>wpos := wpos s - 1\<rparr>) (st, ix, w)"
    "conf known values x u \<Longrightarrow> rep known values (s\<lparr>stack_e := (stack_e s)[length st := x]\<rparr>) (u # st, ix, w)"
  using assms wpos_pred(1) [of "wpos s"] by (auto simp: rep_def take_top)

lemma rep_two:
  assumes "rep known values s (v # u # st, ix, w)" "length st < 63"
  shows "unat (wpos s - 2) = length st" "conf known values (stack_e s ! length st) u"
  using rep_top(3) [OF assms(1), THEN rep_top(2)] assms wpos_pred(2) [of "wpos s"] by (auto simp: rep_def)


text \<open>One operator.\<close>

abbreviation simulates ::
    "(u8 list \<Rightarrow> bool) \<Rightarrow> u8 list \<Rightarrow> (c_int \<times> discern_fault \<times> 'w exec_state) res \<Rightarrow> (c_int \<times> discern_fault \<times> 'w run_state) res \<Rightarrow> element_type list \<Rightarrow> bool" where
  "simulates known values x y us \<equiv> \<exists>ret fault s' st ix w. x = Inr (ret, fault, s') \<and> y = Inr (ret, fault, (st, ix, w)) \<and>
     (ret \<noteq> 0 \<longrightarrow> world s' = w) \<and> (ret = 0 \<longrightarrow> rep known values s' (st, ix, w) \<and> map rtype st = us)"

lemma push_value_rep:
  assumes "rep known values s (st, ix, w)" "length st < 64" "v \<in> {0, 1}"
  shows "\<exists>s'. push_value s v = Inr s' \<and> rep known values s' (Truth (v \<noteq> 0) # st, ix, w)"
proof -
  have "conf known values ((stack_e s ! unat (wpos s))\<lparr>val := v\<rparr>) (Truth (v \<noteq> 0))" using assms(3) by auto
  from rep_push [OF assms(1,2) this] assms(1,2) show ?thesis by (simp add: exec_defs rep_def)
qed

lemma rep_world: "rep known values s (st, ix, w) \<Longrightarrow> rep known values (s\<lparr>world := w', index_tmp := ix'\<rparr>) (st, ix', w')"
  by (simp add: rep_def)

lemma push_simulates:
  assumes cb: "callbacks_return known cbs" and "node_ok values e" "eop e = OP_PUSH" "etype e \<noteq> E_NONE"
    and "etype e = E_BOOL \<Longrightarrow> val (evalue e) \<noteq> 0" and r: "rep known values s (st, ix, w)" "length st < 64"
    and k: "known_destination known values e"
  shows "simulates known values (execute_push cbs values e s) (run_push cbs values e (st, ix, w))
    ((if etype e = E_DESTINATION then E_DESTINATION else E_BOOL) # map rtype st)"
proof (cases "etype e")
  case E_TOPIC_FILTER
  obtain str tail where str: "drop (unat (data_pos (evalue e))) values = str @ 0 # tail" "str \<noteq> []" "0 \<notin> set str"
    "data_size (evalue e) = of_nat (length str + 1)" "rrr_mqtt_topic_filter_validate_name str = 0"
    using assms(2,3) E_TOPIC_FILTER by (auto simp: node_ok_def string_at_def)
  obtain ret v w' where v: "resolve_topic_filter_cb cbs (str @ 0 # tail) (of_nat (length str + 1)) w = Inr (ret, v, w')" "v \<in> {0, 1}"
    using cb str(2,3,5) unfolding callbacks_return_def by blast
  have "rep known values (s\<lparr>world := w'\<rparr>) (st, ix, w')" using r(1) by (simp add: rep_def)
  from push_value_rep [OF this r(2) v(2)]
  obtain s' where "push_value (s\<lparr>world := w'\<rparr>) v = Inr s'" "rep known values s' (Truth (v \<noteq> 0) # st, ix, w')" by blast
  then show ?thesis
    using E_TOPIC_FILTER v(1) r(1) str(4) unfolding execute_push_def run_push_def by (simp add: str(1) rep_def Let_def)
next
  case E_ARRAY_TAG
  show ?thesis
  proof (cases "ix \<noteq> [] \<and> val (evalue e) \<notin> set ix")
    case True
    then show ?thesis
      using push_value_rep [OF r, of 0] r(1) E_ARRAY_TAG by (auto simp: execute_push_def run_push_def rep_def)
  next
    case False
    obtain ret v nx w' where v: "resolve_array_tag_cb cbs (c_string (drop (unat (data_pos (evalue e))) values)) w = Inr (ret, v, nx, w')" "v \<in> {0, 1}"
      using cb unfolding callbacks_return_def by blast
    let ?ix = "case nx of Some jx \<Rightarrow> jx | None \<Rightarrow> ix"
    obtain s' where s': "push_value (s\<lparr>world := w', index_tmp := ?ix\<rparr>) v = Inr s'" "rep known values s' (Truth (v \<noteq> 0) # st, ?ix, w')"
      using push_value_rep [OF rep_world [OF r(1)] r(2) v(2)] by blast
    have i: "ix = index_tmp s" "w = world s" using r(1) by (simp_all add: rep_def)
    note if_not_P [OF False [unfolded i], simp]
    show ?thesis using s' E_ARRAY_TAG v(1) unfolding execute_push_def run_push_def i by (simp add: Let_def)
  qed
next
  case E_BOOL
  with push_value_rep [OF r, of 1] assms(5) show ?thesis by (auto simp: execute_push_def run_push_def)
next
  case E_DESTINATION
  have "conf known values (evalue e) (Dest (c_string (drop (unat (data_pos (evalue e))) values)))"
    using k E_DESTINATION by (simp add: known_destination_def)
  from rep_push [OF r this] E_DESTINATION r show ?thesis by (auto simp: execute_push_def run_push_def set_e_def rep_def)
qed (use assms(4) in simp)


lemma bool_simulates:
  assumes "rep known values s (Truth a # Truth b # st, ix, w)" "length st < 63" "eval (of_bool a) (of_bool b) = of_bool c"
  shows "\<exists>s'. execute_bool eval s = Inr (0, FAULT_OK, s') \<and> rep known values s' (Truth c # st, ix, w)"
proof -
  note top = rep_top [OF assms(1)] and two = rep_two [OF assms(1,2)]
  let ?x = "(stack_e s ! length st)\<lparr>val := of_bool c\<rparr>"
  have "conf known values ?x (Truth c)" by simp
  from rep_top(4) [OF top(3) _ this]
  have "rep known values (s\<lparr>wpos := wpos s - 1, stack_e := (stack_e s)[length st := ?x]\<rparr>) (Truth c # st, ix, w)" using assms(2) by simp
  then have r: "rep known values (s\<lparr>stack_e := (stack_e s)[length st := ?x], wpos := wpos s - 1\<rparr>) (Truth c # st, ix, w)"
    by (simp add: rep_def)
  have v: "val (stack_e s ! Suc (length st)) = of_bool a" "val (stack_e s ! length st) = of_bool b"
    "unat (wpos s - 1) = Suc (length st)" "length (stack_e s) = 64"
    using top(1,2) two(2) assms(1,2) by (simp_all add: rep_def)
  show ?thesis using r v two(1) assms(2,3) by (simp add: exec_defs)
qed

lemma op_simulates:
  assumes cb: "callbacks_return known cbs" and e: "node_ok values e" "eop e \<noteq> OP_BAIL" "etype e = E_BOOL \<Longrightarrow> val (evalue e) \<noteq> 0"
    and k: "known_destination known values e" and r: "rep known values s (st, ix, w)" "length st < 64" and ty: "type_step e (map rtype st) = Some us"
  shows "simulates known values (execute_op cbs values e s) (run_op cbs values e (st, ix, w)) us"
proof (cases "eop e")
  case OP_PUSH
  then have "etype e \<noteq> E_NONE" "us = (if etype e = E_DESTINATION then E_DESTINATION else E_BOOL) # map rtype st"
    using ty by (auto split: element_type.splits)
  with push_simulates [OF cb e(1) OP_PUSH _ e(3) r k] OP_PUSH show ?thesis by (simp add: execute_op_def run_op_def)
next
  case OP_AND
  then obtain a b vs where st: "st = Truth a # Truth b # vs" "us = E_BOOL # map rtype vs"
    using ty by (auto split: list.splits element_type.splits dest!: rtype_cases rtype_cases [OF sym])
  with OP_AND bool_simulates [of known "values" s a b vs ix w "\<lambda>a b. if a \<noteq> 0 \<and> b \<noteq> 0 then 1 else 0" "a \<and> b"] r show ?thesis
    by (auto simp: execute_op_def run_op_def)
next
  case OP_OR
  then obtain a b vs where st: "st = Truth a # Truth b # vs" "us = E_BOOL # map rtype vs"
    using ty by (auto split: list.splits element_type.splits dest!: rtype_cases rtype_cases [OF sym])
  with OP_OR bool_simulates [of known "values" s a b vs ix w "\<lambda>a b. if a \<noteq> 0 \<or> b \<noteq> 0 then 1 else 0" "a \<or> b"] r show ?thesis
    by (auto simp: execute_op_def run_op_def)
next
  case OP_APPLY
  then obtain d b vs where st: "st = Dest d # Truth b # vs" "us = E_BOOL # map rtype vs"
    using ty by (auto split: list.splits element_type.splits dest!: rtype_cases rtype_cases [OF sym])
  then have l: "length vs < 63" "length (Truth b # vs) < 64" using r(2) by simp_all
  note top = rep_top [OF r(1) [unfolded st] l(2)] and two = rep_two [OF r(1) [unfolded st] l(1)]
  have "known d" using top(2) by simp
  then obtain ret w' where a: "apply_cbs cbs b d w = Inr (ret, w')" using cb unfolding callbacks_return_def by blast
  have "rep known values (s\<lparr>world := w', wpos := wpos s - 1\<rparr>) (Truth b # vs, ix, w')" using top(3) by (simp add: rep_def)
  moreover have "length (stack_e s) = 64" "world s = w" using r(1) by (simp_all add: rep_def)
  ultimately show ?thesis using OP_APPLY a top(1,2) two st l by (cases b) (simp_all add: execute_op_def run_op_def get_e_def)
next
  case OP_NOT
  then obtain a vs where st: "st = Truth a # vs" "us = E_BOOL # map rtype vs"
    using ty by (auto split: list.splits element_type.splits dest!: rtype_cases rtype_cases [OF sym])
  then have l: "length vs < 64" using r(2) by simp
  let ?x = "(stack_e s ! length vs)\<lparr>val := of_bool (\<not> a)\<rparr>"
  have "conf known values ?x (Truth (\<not> a))" by simp
  from rep_top(4) [OF r(1) [unfolded st] l this] rep_top(1,2) [OF r(1) [unfolded st] l] r(1) show ?thesis
    using OP_NOT st l by (cases a) (simp_all add: execute_op_def run_op_def exec_defs rep_def)
next
  case OP_POP
  then obtain v where "st = v # tl st" "us = map rtype (tl st)" using ty by (cases st) auto
  with rep_top(3) [of known "values" s v "tl st" ix w] r OP_POP show ?thesis
    by (cases st) (auto simp: execute_op_def run_op_def)
qed (use e(2) in simp)

text \<open>The program neither bails nor has the constant FALSE.\<close>

definition plain :: "element \<Rightarrow> bool" where
  "plain e \<longleftrightarrow> eop e \<noteq> OP_BAIL \<and> (etype e = E_BOOL \<longrightarrow> val (evalue e) \<noteq> 0)"

lemma loop_simulates:
  assumes "callbacks_return known cbs"
  shows "list_all (node_ok values) es \<Longrightarrow> list_all plain es \<Longrightarrow> list_all (known_destination known values) es \<Longrightarrow> typed es (map rtype st) = Some [] \<Longrightarrow> length st < 64 \<Longrightarrow>
    rep known values s (st, ix, w) \<Longrightarrow>
    \<exists>ret fault s'. execute_loop cbs values es s = Inr (ret, fault, s') \<and> run cbs values es (st, ix, w) = Inr (ret, fault, world s')"
proof (induction es arbitrary: st ix w s)
  case Nil
  then have "wpos s = 0" by (simp add: rep_def unat_eq_0)
  with Nil show ?case by (simp add: rep_def)
next
  case (Cons e es)
  obtain us where us: "type_step e (map rtype st) = Some us" "length us < 64" "typed es us = Some []"
    using Cons.prems(4) by (auto simp: RRR_DISCERN_STACK_MAX_def split: option.splits if_splits)
  have e: "node_ok values e" "eop e \<noteq> OP_BAIL" "etype e = E_BOOL \<Longrightarrow> val (evalue e) \<noteq> 0"
    using Cons.prems(1,2) by (auto simp: plain_def)
  have k: "known_destination known values e" using Cons.prems(3) by simp
  from op_simulates [OF assms e k Cons.prems(6,5) us(1)]
  obtain ret fault s' st' ix' w' where s': "execute_op cbs values e s = Inr (ret, fault, s')"
    "run_op cbs values e (st, ix, w) = Inr (ret, fault, (st', ix', w'))"
    "ret \<noteq> 0 \<Longrightarrow> world s' = w'" "ret = 0 \<Longrightarrow> rep known values s' (st', ix', w') \<and> map rtype st' = us" by blast
  have a: "unat (wpos s) < RRR_DISCERN_STACK_MAX"
    using Cons.prems(5,6) by (simp add: rep_def RRR_DISCERN_STACK_MAX_def)
  show ?case
  proof (cases "ret = 0")
    case True
    with s'(4) have s4: "rep known values s' (st', ix', w')" "map rtype st' = us" by simp_all
    have "length st' < 64" using us(2) s4(2) by (metis length_map)
    from Cons.IH [OF _ _ _ _ this s4(1)] Cons.prems(1-3) us(3) s4(2) s'(1,2) True a show ?thesis by simp
  qed (use s' a in simp)
qed


subsection \<open>Properties\<close>

lemma rep_start: "rep known values (exec_start w) ([], [], w)"
  by (simp add: rep_def exec_start_def RRR_DISCERN_STACK_MAX_def)

lemma execute_run:
  assumes "callbacks_return known cbs" "program_ok ds" "list_all plain (exe_list ds)"
    and "list_all (known_destination known (exe_values ds)) (exe_list ds)"
  shows "\<exists>ret fault w'. rrr_discern_stack_execute ds cbs w = Inr (ret, fault, w') \<and>
    run cbs (exe_values ds) (exe_list ds) ([], [], w) = Inr (ret, fault, w')"
  using loop_simulates [OF assms(1) _ assms(3,4) _ _ rep_start, of w] assms(2)
  by (auto simp: program_ok_def rrr_discern_stack_execute_def)

text \<open>
  Claim C2: a well typed program without the operator BAIL and the constant FALSE, executed on the array of 64 values
  without checks, does what the stack machine of the manual does, when the callbacks return, those for APPLY on the destinations that
  the program names: the same callbacks with the same arguments in the same order, the same
  return value and fault, and no access outside the array, failed assertion or other fault.
\<close>

theorem discern_executes_meaning:
  assumes "callbacks_return known cbs" "program_ok ds" "list_all plain (exe_list ds)"
    and "list_all (known_destination known (exe_values ds)) (exe_list ds)"
  shows "\<exists>ret fault w'. rrr_discern_stack_execute ds cbs w = Inr (ret, fault, w') \<and>
    run cbs (exe_values ds) (exe_list ds) ([], [], w) = Inr (ret, fault, w')"
  using execute_run [OF assms] .

definition demo_callbacks :: "u8 list list discern_callbacks" where
  "demo_callbacks = \<lparr>resolve_topic_filter_cb = (\<lambda>f n w. Inr (0, 1, w)), resolve_array_tag_cb = (\<lambda>tag w. Inr (0, 0, None, w)),
     apply_cb_false = None, apply_cb_true = (\<lambda>d w. Inr (0, w @ [d]))\<rparr>"

definition demo_push :: "element_type \<Rightarrow> rrr_length \<Rightarrow> element" where
  "demo_push ty p = \<lparr>etype = ty, eop = OP_PUSH, evalue = \<lparr>data_size = 2, data_pos = p, val = 1\<rparr>\<rparr>"

definition demo_op :: "operator_type \<Rightarrow> element" where
  "demo_op op = \<lparr>etype = E_NONE, eop = op, evalue = \<lparr>data_size = 0, data_pos = 0, val = 0\<rparr>\<rparr>"

text \<open>The program \<^verbatim>\<open>T a D d APPLY POP\<close> and one that ends in BAIL.\<close>

definition demo_program :: discern_stack where
  "demo_program = \<lparr>exe_list = [demo_push E_TOPIC_FILTER 0, demo_push E_DESTINATION 2, demo_op OP_APPLY, demo_op OP_POP],
     exe_values = [0x61, 0, 0x64, 0], dname = []\<rparr>"

definition demo_bail :: discern_stack where
  "demo_bail = \<lparr>exe_list = [demo_push E_TOPIC_FILTER 0, demo_op OP_NOT, demo_op OP_BAIL], exe_values = [0x61, 0], dname = []\<rparr>"

lemmas demo_defs = demo_callbacks_def demo_push_def demo_op_def demo_program_def demo_bail_def

lemma demo_callbacks_return: "callbacks_return (\<lambda>_. True) demo_callbacks"
  by (auto simp: callbacks_return_def demo_callbacks_def apply_cbs_def rrr_discern_stack_execute_apply_cb_dummy_def)

lemma validate_a: "rrr_mqtt_topic_filter_validate_name [0x61] = 0"
proof -
  have "\<exists>cps. code_points cps \<and> [0x61] = utf8_concat cps"
    by (rule exI [of _ "[0x61]"]) (simp add: utf8_scalar_def utf8_encode_def)
  then show ?thesis by (simp add: validate_filter_exact filter_ok_def)
qed

lemma demo_node:
  assumes "Suc (unat p) < length values" "values ! unat p \<noteq> 0" "values ! Suc (unat p) = 0"
    and "ty = E_TOPIC_FILTER \<Longrightarrow> values ! unat p = 0x61"
  shows "node_ok values (demo_push ty p)"
proof -
  have "drop (unat p) values = values ! unat p # 0 # drop (unat p + 2) values"
    using assms(1,3) by (simp add: Cons_nth_drop_Suc [symmetric])
  then have "string_at values p [values ! unat p]" using assms(2) by (simp add: string_at_def)
  then show ?thesis using assms(4) validate_a by (auto simp: node_ok_def demo_push_def intro!: exI [of _ "[values ! unat p]"])
qed

lemma demo_op_ok [simp]: "op \<noteq> OP_PUSH \<Longrightarrow> node_ok values (demo_op op)"
  by (simp add: node_ok_def demo_op_def)

lemma demo_programs_ok: "program_ok demo_program" "program_ok demo_bail"
proof -
  have "node_ok [0x61, 0, 0x64, 0] (demo_push E_TOPIC_FILTER 0)" "node_ok [0x61, 0] (demo_push E_TOPIC_FILTER 0)"
    "node_ok [0x61, 0, 0x64, 0] (demo_push E_DESTINATION 2)"
    by (rule demo_node; simp)+
  moreover have "typed (exe_list demo_program) [] = Some []" "typed (exe_list demo_bail) [] = Some []"
    by (simp_all add: demo_defs RRR_DISCERN_STACK_MAX_def)
  ultimately show "program_ok demo_program" "program_ok demo_bail"
    by (simp_all add: program_ok_def demo_program_def demo_bail_def)
qed

theorem discern_executes_meaning_witness:
  "rrr_discern_stack_execute demo_program demo_callbacks [] = Inr (0, FAULT_OK, [[0x64]])"
proof -
  have "run demo_callbacks (exe_values demo_program) (exe_list demo_program) ([], [], []) = Inr (0, FAULT_OK, [[0x64]])"
    by (simp add: demo_defs run_op_def run_push_def apply_cbs_def c_string_def)
  moreover have "list_all plain (exe_list demo_program)" by (simp add: demo_defs plain_def)
  ultimately show ?thesis
    using discern_executes_meaning [OF demo_callbacks_return demo_programs_ok(1), of "[]"] by (auto simp: known_destination_def list_all_iff)
qed

text \<open>
  Claim C38: a well typed program with the operator BAIL never runs to its end. The executor leaves the value that BAIL has
  tested on the stack, unlike the parser and the manual, so that unless the program stops with a return value that is not 0, by BAIL or by a
  callback, an assertion fails: that the stack is empty at the end, or that there is room for another value. There
  is no other fault, and a well typed program without BAIL has none at all.
\<close>

theorem discern_bail_aborts:
  assumes "callbacks_return (\<lambda>_. True) cbs" "program_ok ds"
  shows "(\<exists>ret fault w'. rrr_discern_stack_execute ds cbs w = Inr (ret, fault, w') \<and> (ret \<noteq> 0 \<or> bails (exe_list ds) = 0)) \<or>
    rrr_discern_stack_execute ds cbs w = Inl Assertion \<and> bails (exe_list ds) \<noteq> 0"
proof -
  have "length (stack_e (exec_start w)) = 64" "unat (wpos (exec_start w)) = 0" by (simp_all add: exec_start_def RRR_DISCERN_STACK_MAX_def)
  with execute_loop_safe [OF assms(1), of "exe_values ds" "exe_list ds" "[]" "exec_start w" 0] assms(2)
  show ?thesis by (auto simp: program_ok_def rrr_discern_stack_execute_def)
qed

theorem discern_bail_aborts_witness:
  "rrr_discern_stack_execute demo_bail demo_callbacks [] = Inl Assertion"
proof -
  have b: "bails (exe_list demo_bail) = 1" by (simp add: demo_defs)
  have "\<not> (\<exists>ret fault w'. rrr_discern_stack_execute demo_bail demo_callbacks [] = Inr (ret, fault, w') \<and> ret \<noteq> 0)"
    by (auto simp: rrr_discern_stack_execute_def exec_start_def demo_defs execute_op_def execute_push_def exec_defs RRR_DISCERN_STACK_MAX_def assertr_def)
  with discern_bail_aborts [OF demo_callbacks_return demo_programs_ok(2), of "[]"] b show ?thesis by auto
qed

text \<open>The constant FALSE is executed as TRUE.\<close>

lemma discern_false_is_true:
  assumes "etype e = E_BOOL" "eop e = OP_PUSH" "length (stack_e s) = 64" "unat (wpos s) < 64"
  shows "\<exists>s'. execute_op cbs values e s = Inr (0, FAULT_OK, s') \<and> val (stack_e s' ! unat (wpos s)) = 1"
  using assms by (simp add: execute_op_def execute_push_def exec_defs)

end
