(* ===== verification/RRR_Discern_Parse.thy ===== *)
theory RRR_Discern_Parse
  imports RRR_Discern_Stack
begin

text \<open>
  The parser of discern stacks accepts only programs that the executor can run. The theory has no definitions of code: it shows for the
  parser of \<^verbatim>\<open>RRR_Discern_Stack\<close> that the storages it grows stay in their bounds, that the checked execution of an element agrees with the
  typing rules, that every value it stores is a terminated string, and that it returns on every text of up to \<open>2 ^ 26\<close> bytes.
\<close>

subsection \<open>Storages\<close>

definition list_ok :: "element_list \<Rightarrow> bool" where
  "list_ok l \<longleftrightarrow> length (elements l) \<le> unat (slots l) \<and> unat (slots l) * 24 < 2 ^ 31 \<and>
     unat (list_bytes l) = unat (slots l) * 24 \<and> list_bytes l \<le> list_capacity l"

definition vs_ok :: "value_storage \<Rightarrow> bool" where
  "vs_ok vs \<longleftrightarrow> length (vdata vs) < 2 ^ 32 \<and> unat (vcapacity vs) = length (vdata vs)"

lemma list_ok_pop: "list_ok l \<Longrightarrow> list_ok (l\<lparr>elements := butlast (elements l)\<rparr>)"
  by (auto simp: list_ok_def)

lemma add_bug_const_ok:
  fixes a b :: rrr_length
  assumes "unat a + unat b < 2 ^ 32"
  shows "rrr_length_add_bug_const a b = Inr (a + b)" "unat (a + b) = unat a + unat b"
proof -
  show u: "unat (a + b) = unat a + unat b" using assms by (simp add: unat_plus_if_size word_size)
  then show "rrr_length_add_bug_const a b = Inr (a + b)"
    by (simp add: rrr_length_add_bug_const_def Let_def word_less_nat_alt)
qed

lemma unat_mult24: "unat x * 24 < 2 ^ 32 \<Longrightarrow> unat (x * 24 :: rrr_length) = unat x * 24"
  using unat_mult_lem [of x 24] by simp

lemma expand_ok:
  assumes "list_ok l" "length (elements l) = unat (slots l)" "length (elements l) < 2 ^ 26"
  shows "\<exists>ret l'. rrr_discern_stack_list_expand ok l 8 = Inr (ret, l') \<and>
    (ret = 1 \<or> ret = 0 \<and> list_ok l' \<and> elements l' = elements l \<and> length (elements l) < unat (slots l'))"
proof -
  let ?n = "slots l + 8"
  have s: "unat (slots l) < 2 ^ 26" using assms(2,3) by simp
  have n: "unat ?n = unat (slots l) + 8" using s by (simp add: unat_plus_if_size word_size)
  have m: "unat (slots l * 24) = unat (slots l) * 24" "unat (?n * 24) = unat ?n * 24"
    using s n unat_mult24 [of "slots l"] unat_mult24 [of ?n] by simp_all
  have b: "list_bytes l = slots l * 24" using assms(1) m(1) by (simp add: list_ok_def word_unat_eq_iff)
  have a: "rrr_length_add_bug_const 0 (?n * 24) = Inr (?n * 24)"
    by (simp add: rrr_length_add_bug_const_def)
  have z: "list_bytes l > 0 \<longleftrightarrow> slots l > 0" "slots l \<noteq> 0 \<longleftrightarrow> slots l > 0" "slots l = 0 \<Longrightarrow> l\<lparr>list_bytes := 0\<rparr> = l"
    using b m(1) by (simp add: word_less_nat_alt, simp add: word_neq_0_conv, cases l, simp)
  have e: "rrr_discern_stack_list_expand ok l 8 =
      Inr (if list_capacity l < ?n * 24 \<and> \<not> ok then (1, l\<lparr>list_bytes := 0\<rparr>)
           else (0, l\<lparr>list_bytes := ?n * 24, slots := ?n, list_capacity := max (list_capacity l) (?n * 24)\<rparr>))"
    using b z a by (cases "slots l = 0") (auto simp: rrr_discern_stack_list_expand_def rrr_discern_stack_data_expand_def Let_def element_size_def assertr_def)
  show ?thesis
    using e m n s assms(1,2) by (auto simp: list_ok_def)
qed

abbreviation add_element :: "element_list \<Rightarrow> element \<Rightarrow> element_list" where
  "add_element l e \<equiv> l\<lparr>elements := elements l @ [e]\<rparr>"

lemma room_ok:
  assumes "list_ok l" "length (elements l) < 2 ^ 26"
  shows "\<exists>ret l'. (if length (elements l) = unat (slots l) then rrr_discern_stack_list_expand ok l 8 else Inr (0, l)) = Inr (ret, l') \<and>
    (ret = 1 \<or> ret = 0 \<and> elements l' = elements l \<and> (\<forall>e. list_ok (add_element l' e)) \<and>
       \<not> unat (list_capacity l') < element_size * (length (elements l) + 1))"
proof -
  have r: "(\<forall>e. list_ok (add_element m e)) \<and> \<not> unat (list_capacity m) < element_size * (length (elements m) + 1)"
    if "list_ok m" "length (elements m) < unat (slots m)" for m
    using that by (auto simp: list_ok_def element_size_def word_le_nat_alt)
  show ?thesis
  proof (cases "length (elements l) = unat (slots l)")
    case True
    from expand_ok [OF assms(1) True assms(2), of ok] obtain ret l' where l': "rrr_discern_stack_list_expand ok l 8 = Inr (ret, l')"
      "ret = 1 \<or> ret = 0 \<and> list_ok l' \<and> elements l' = elements l \<and> length (elements l) < unat (slots l')" by blast
    with True r [of l'] show ?thesis by auto
  next
    case False
    with r [OF assms(1)] assms(1) show ?thesis by (auto simp: list_ok_def)
  qed
qed

lemma list_push_plain:
  assumes "list_ok l" "length (elements l) < 2 ^ 26"
  shows "\<exists>ret l'. rrr_discern_stack_list_push ok l ty op vs src 0 v = Inr (ret, l', vs) \<and>
    (ret = 1 \<or> ret = 0 \<and> list_ok l' \<and>
      elements l' = elements l @ [\<lparr>etype = ty, eop = op, evalue = \<lparr>data_size = 0, data_pos = 0, val = v\<rparr>\<rparr>])"
proof -
  obtain ret l' where room: "(if length (elements l) = unat (slots l) then rrr_discern_stack_list_expand (ok 0) l 8 else Inr (0, l)) = Inr (ret, l')"
    "ret = 1 \<or> ret = 0 \<and> elements l' = elements l \<and> (\<forall>e. list_ok (add_element l' e)) \<and>
       \<not> unat (list_capacity l') < element_size * (length (elements l) + 1)"
    using room_ok [OF assms, of "ok 0"] by blast
  have a: "length (elements l) \<le> unat (slots l)" using assms(1) by (simp add: list_ok_def)
  show ?thesis using room(2) a unfolding rrr_discern_stack_list_push_def room(1) by auto
qed

lemma list_push_data:
  assumes "list_ok l" "length (elements l) < 2 ^ 26" "0 < dsize"
    and "rrr_discern_stack_storage_push (ok 1) src vs = Inr (r, position, vs')" "r = 0 \<or> r = 1"
    and "r = 0 \<Longrightarrow> string_at (vdata vs') position str"
  shows "\<exists>ret l' ws. rrr_discern_stack_list_push ok l ty op vs (Some src) dsize v = Inr (ret, l', ws) \<and>
    (ret = 1 \<or> ret = 0 \<and> r = 0 \<and> ws = vs' \<and> list_ok l' \<and>
      (\<exists>i. elements l' = elements l @ [\<lparr>etype = ty, eop = op, evalue = \<lparr>data_size = dsize, data_pos = position, val = i\<rparr>\<rparr>]))"
proof -
  obtain ret l' where room: "(if length (elements l) = unat (slots l) then rrr_discern_stack_list_expand (ok 0) l 8 else Inr (0, l)) = Inr (ret, l')"
    "ret = 1 \<or> ret = 0 \<and> elements l' = elements l \<and> (\<forall>e. list_ok (add_element l' e)) \<and>
       \<not> unat (list_capacity l') < element_size * (length (elements l) + 1)"
    using room_ok [OF assms(1,2), of "ok 0"] by blast
  have a: "length (elements l) \<le> unat (slots l)" using assms(1) by (simp add: list_ok_def)
  have i: "RRR_DISCERN_STACK_FIRST_LAST_INDEX (c_string (drop (unat position) (vdata vs'))) =
      Inr (push_bit 16 (scast (hd str)) OR scast (last str))" if "r = 0"
    using assms(6) [OF that] c_string_at [OF assms(6) [OF that]] by (simp add: string_at_def RRR_DISCERN_STACK_FIRST_LAST_INDEX_def)
  show ?thesis
    using room(2) assms(3-5) i a unfolding rrr_discern_stack_list_push_def room(1) by auto
qed

lemma string_at_bound: "string_at xs position str \<Longrightarrow> unat position < length xs"
  by (rule ccontr) (auto simp: string_at_def)

lemma storage_push_inside:
  "vs_ok vs \<Longrightarrow> string_at (vdata vs) position str \<Longrightarrow> rrr_discern_stack_storage_push ok (Inside position) vs = Inr (0, position, vs)"
  by (auto simp: rrr_discern_stack_storage_push_def vs_ok_def word_less_nat_alt dest: string_at_bound)

lemma storage_push_outside:
  assumes "vs_ok vs" "length (vdata vs) + length str + 1 < 2 ^ 32" "str \<noteq> []" "0 \<notin> set str"
  shows "\<exists>r vs'. rrr_discern_stack_storage_push ok (Outside (str @ [0])) vs = Inr (r, of_nat (length (vdata vs)), vs') \<and>
    (r = 1 \<or> r = 0 \<and> vs_ok vs' \<and> vdata vs' = vdata vs @ str @ [0] \<and> string_at (vdata vs') (of_nat (length (vdata vs))) str)"
proof -
  let ?a = "of_nat (length (vdata vs)) :: rrr_length" and ?b = "of_nat (length (str @ [0 :: u8])) :: rrr_length"
  have u: "unat ?a = length (vdata vs)" "unat ?b = length str + 1" using assms(2) by (simp_all add: unat_of_nat del: of_nat_Suc)
  have s: "unat ?a + unat ?b < 2 ^ 32" using assms(2) u by simp
  note add = add_bug_const_ok [OF s]
  have c: "vcapacity vs = ?a" using assms(1) u(1) by (simp add: vs_ok_def word_unat_eq_iff)
  have l: "?a < ?a + ?b" using add(2) u(2) by (simp add: word_less_nat_alt)
  have e: "rrr_discern_stack_storage_push ok (Outside (str @ [0])) vs =
     Inr (if ok then 0 else 1, ?a, if ok then vs\<lparr>vdata := vdata vs @ str @ [0], vcapacity := ?a + ?b\<rparr> else vs)"
    using add(1) l c by (simp add: rrr_discern_stack_storage_push_def Let_def max_def)
  have "string_at (vdata vs @ str @ [0]) ?a str" using u(1) assms(3,4) by (simp add: string_at_def)
  moreover have "length (vdata vs @ str @ [0]) = length (vdata vs) + length str + 1" by simp
  ultimately show ?thesis unfolding e using add(2) u assms(2) by (auto simp: vs_ok_def simp del: of_nat_Suc length_append)
qed


subsection \<open>The checked execution\<close>

text \<open>The stack of the parser: its types, the top first.\<close>

definition types :: "element_list \<Rightarrow> element_type list" where
  "types stack = map etype (rev (elements stack))"

definition stack_ok :: "element_list \<Rightarrow> bool" where
  "stack_ok stack \<longleftrightarrow> list_ok stack \<and> (\<forall>e \<in> set (elements stack). etype e = E_BOOL \<or> etype e = E_DESTINATION \<and> data_size (evalue e) > 0)"

lemma stack_cases:
  assumes "elements stack \<noteq> []" "stack_ok stack"
  obtains a where "elements stack = butlast (elements stack) @ [a]" "types stack = etype a # types (stack\<lparr>elements := butlast (elements stack)\<rparr>)"
    "stack_ok (stack\<lparr>elements := butlast (elements stack)\<rparr>)" "last (elements stack) = a"
    "etype a = E_BOOL \<or> etype a = E_DESTINATION \<and> data_size (evalue a) > 0"
proof -
  have e: "elements stack = butlast (elements stack) @ [last (elements stack)]" using assms(1) by simp
  have "types stack = etype (last (elements stack)) # types (stack\<lparr>elements := butlast (elements stack)\<rparr>)"
    unfolding types_def by (subst e) simp
  moreover have "stack_ok (stack\<lparr>elements := butlast (elements stack)\<rparr>)"
    using assms(2) by (auto simp: stack_ok_def list_ok_pop dest: in_set_butlastD)
  moreover have "etype (last (elements stack)) = E_BOOL \<or> etype (last (elements stack)) = E_DESTINATION \<and> data_size (evalue (last (elements stack))) > 0"
    using assms last_in_set [OF assms(1)] by (auto simp: stack_ok_def)
  ultimately show thesis using that e by blast
qed

lemma push_bool_ok:
  assumes "stack_ok stack" "length (elements stack) < 2 ^ 26"
  shows "\<exists>ret stack'. rrr_discern_stack_list_push_bool ok stack v = Inr (ret, stack') \<and>
    (ret = 1 \<or> ret = 0 \<and> stack_ok stack' \<and> types stack' = E_BOOL # types stack \<and>
       length (elements stack') = length (elements stack) + 1 \<and> val (evalue (last (elements stack'))) = v)"
proof -
  have "list_ok stack" using assms(1) by (simp add: stack_ok_def)
  from list_push_plain [OF this assms(2), of "\<lambda>_. ok" E_BOOL OP_PUSH empty_values None v]
  obtain ret stack' where "rrr_discern_stack_list_push (\<lambda>_. ok) stack E_BOOL OP_PUSH empty_values None 0 v = Inr (ret, stack', empty_values)"
    "ret = 1 \<or> ret = 0 \<and> list_ok stack' \<and>
      elements stack' = elements stack @ [\<lparr>etype = E_BOOL, eop = OP_PUSH, evalue = \<lparr>data_size = 0, data_pos = 0, val = v\<rparr>\<rparr>]" by blast
  then show ?thesis
    using assms(1) by (auto simp: rrr_discern_stack_list_push_bool_def stack_ok_def types_def)
qed

lemma op_one_ok:
  assumes "stack_ok stack" "length (elements stack) < 64" "elements stack \<noteq> []"
  shows "\<exists>ret fault stack'. rrr_discern_stack_execute_op_bool ok f None stack = Inr (ret, fault, stack') \<and>
    (ret = 1 \<or> ret = 0 \<and> fault = FAULT_OK \<and> stack_ok stack' \<and> (\<exists>us. types stack = E_BOOL # us) \<and> types stack' = types stack)"
proof -
  obtain a :: element where a: "elements stack = butlast (elements stack) @ [a]"
    "types stack = etype a # types (stack\<lparr>elements := butlast (elements stack)\<rparr>)"
    "stack_ok (stack\<lparr>elements := butlast (elements stack)\<rparr>)" "last (elements stack) = a" by (rule stack_cases [OF assms(3,1)])
  let ?s = "stack\<lparr>elements := butlast (elements stack)\<rparr>"
  have "length (elements ?s) < 2 ^ 26" using assms(2) by simp
  from push_bool_ok [OF a(3) this, of ok "f (val (evalue a))"] assms(3) a(2,4) show ?thesis
    by (auto simp: rrr_discern_stack_execute_op_bool_def rrr_discern_stack_list_pop_def Let_def)
qed

lemma op_two_ok:
  assumes "stack_ok stack" "length (elements stack) < 64" "2 \<le> length (elements stack)"
  shows "\<exists>ret fault stack'. rrr_discern_stack_execute_op_bool ok f (Some g) stack = Inr (ret, fault, stack') \<and>
    (ret = 1 \<or> ret = 0 \<and> fault = FAULT_OK \<and> stack_ok stack' \<and>
       (\<exists>us. types stack = E_BOOL # E_BOOL # us \<and> types stack' = E_BOOL # us))"
proof -
  have n: "elements stack \<noteq> []" "butlast (elements stack) \<noteq> []" using assms(3) by (auto simp: Suc_le_eq simp flip: length_greater_0_conv)
  obtain a :: element where a: "types stack = etype a # types (stack\<lparr>elements := butlast (elements stack)\<rparr>)"
    "stack_ok (stack\<lparr>elements := butlast (elements stack)\<rparr>)" "last (elements stack) = a" by (rule stack_cases [OF n(1) assms(1)])
  let ?s = "stack\<lparr>elements := butlast (elements stack)\<rparr>"
  have ne: "elements ?s \<noteq> []" using n(2) by simp
  obtain b where b: "types ?s = etype b # types (?s\<lparr>elements := butlast (elements ?s)\<rparr>)"
    "stack_ok (?s\<lparr>elements := butlast (elements ?s)\<rparr>)" "last (elements ?s) = b" by (rule stack_cases [OF ne a(2)])
  have "length (elements (?s\<lparr>elements := butlast (elements ?s)\<rparr>)) < 2 ^ 26" using assms(2) by simp
  from push_bool_ok [OF b(2) this, of ok "g (val (evalue a)) (val (evalue b))"] n assms(3) a b show ?thesis
    by (auto simp: rrr_discern_stack_execute_op_bool_def rrr_discern_stack_list_pop_def Let_def)
qed


text \<open>The result of one step: an error, or a stack of the types that the typing rules give.\<close>

definition step_result :: "value_storage \<Rightarrow> element \<Rightarrow> element_list \<Rightarrow> (c_int \<times> discern_fault \<times> element_list \<times> value_storage) res \<Rightarrow> bool" where
  "step_result vs e stack r \<longleftrightarrow> (\<exists>ret fault stack' ws. r = Inr (ret, fault, stack', ws) \<and>
     (ret = 1 \<or> (ret = 0 \<or> ret = RRR_DISCERN_STACK_BAIL \<and> eop e = OP_BAIL) \<and> fault = FAULT_OK \<and> ws = vs \<and> stack_ok stack' \<and>
        type_step e (types stack) = Some (types stack')))"

lemma push_step:
  assumes "stack_ok stack" "length (elements stack) < 64" "vs_ok vs" "node_ok (vdata vs) e" "eop e = OP_PUSH" "etype e \<noteq> E_NONE"
    and "etype e = E_BOOL \<Longrightarrow> data_size (evalue e) = 0"
  shows "step_result vs e stack (rrr_discern_stack_execute_op_push ok stack e vs)"
proof -
  have l: "list_ok stack" "length (elements stack) < 2 ^ 26" using assms(1,2) by (simp_all add: stack_ok_def)
  show ?thesis
  proof (cases "etype e")
    case E_DESTINATION
    then obtain str where str: "string_at (vdata vs) (data_pos (evalue e)) str" "data_size (evalue e) = of_nat (length str + 1)" "length str + 1 < 2 ^ 32"
      using assms(4,5) by (auto simp: node_ok_def)
    have "unat (of_nat (length str + 1) :: rrr_length) = length str + 1" using str(3) by (simp add: unat_of_nat del: of_nat_Suc)
    then have d: "0 < data_size (evalue e)" unfolding str(2) by (simp add: word_less_nat_alt del: of_nat_Suc)
    from list_push_data [OF l d storage_push_inside [OF assms(3) str(1)] _ str(1), of _ E_DESTINATION "eop e" "val (evalue e)"]
    obtain ret l' ws where r: "rrr_discern_stack_list_push ok stack E_DESTINATION (eop e) vs (Some (Inside (data_pos (evalue e))))
        (data_size (evalue e)) (val (evalue e)) = Inr (ret, l', ws)"
      "ret = 1 \<or> ret = 0 \<and> ws = vs \<and> list_ok l' \<and> (\<exists>i. elements l' = elements stack @
        [\<lparr>etype = E_DESTINATION, eop = eop e, evalue = \<lparr>data_size = data_size (evalue e), data_pos = data_pos (evalue e), val = i\<rparr>\<rparr>])"
      by blast
    from r(2) show ?thesis
      using E_DESTINATION assms(1,5) d r(1)
      by (auto simp: step_result_def rrr_discern_stack_execute_op_push_def types_def stack_ok_def)
  next
    case E_BOOL
    with assms(7) list_push_plain [OF l, of ok E_BOOL "eop e" vs "Some (Inside (data_pos (evalue e)))" "val (evalue e)"] assms(1,5)
    show ?thesis by (auto simp: step_result_def rrr_discern_stack_execute_op_push_def types_def stack_ok_def)
  qed (use assms(5,6) push_bool_ok [OF assms(1) l(2), of "ok 0" 1] in
      \<open>auto simp: step_result_def rrr_discern_stack_execute_op_push_def\<close>)
qed

lemma types_length [simp]: "length (types stack) = length (elements stack)"
  by (simp add: types_def)

lemma step_switch:
  assumes "stack_ok stack" "length (elements stack) < 64" "vs_ok vs" "node_ok (vdata vs) e" "eop e = OP_PUSH \<Longrightarrow> etype e \<noteq> E_NONE"
    and "etype e = E_BOOL \<Longrightarrow> data_size (evalue e) = 0" "OP_ARG_COUNT (eop e) \<le> length (elements stack)"
  shows "step_result vs e stack (parse_execute_switch ok stack e vs)"
proof (cases "eop e")
  case OP_PUSH
  with push_step [OF assms(1-4) OP_PUSH assms(5) [OF OP_PUSH] assms(6)] show ?thesis by (simp add: parse_execute_switch_def)
next
  case OP_AND
  then have "2 \<le> length (elements stack)" using assms(7) by (simp add: OP_ARG_COUNT_def)
  from op_two_ok [OF assms(1,2) this, of "ok 0" id rrr_discern_stack_execute_op_and] OP_AND show ?thesis
    by (auto simp: step_result_def parse_execute_switch_def)
next
  case OP_OR
  then have "2 \<le> length (elements stack)" using assms(7) by (simp add: OP_ARG_COUNT_def)
  from op_two_ok [OF assms(1,2) this, of "ok 0" id rrr_discern_stack_execute_op_or] OP_OR show ?thesis
    by (auto simp: step_result_def parse_execute_switch_def)
next
  case OP_APPLY
  then have l: "2 \<le> length (elements stack)" using assms(7) by (simp add: OP_ARG_COUNT_def)
  then have n: "elements stack \<noteq> []" "butlast (elements stack) \<noteq> []" by (auto simp: Suc_le_eq simp flip: length_greater_0_conv)
  obtain a :: element where a: "types stack = etype a # types (stack\<lparr>elements := butlast (elements stack)\<rparr>)"
    "stack_ok (stack\<lparr>elements := butlast (elements stack)\<rparr>)" "last (elements stack) = a"
    "etype a = E_BOOL \<or> etype a = E_DESTINATION \<and> data_size (evalue a) > 0" by (rule stack_cases [OF n(1) assms(1)])
  let ?s = "stack\<lparr>elements := butlast (elements stack)\<rparr>"
  have ne: "elements ?s \<noteq> []" using n(2) by simp
  obtain b where b: "types ?s = etype b # types (?s\<lparr>elements := butlast (elements ?s)\<rparr>)"
    "last (elements ?s) = b" by (rule stack_cases [OF ne a(2)])
  show ?thesis
    using OP_APPLY l n a b
    by (auto simp: step_result_def parse_execute_switch_def rrr_discern_stack_execute_op_apply_def rrr_discern_stack_list_pop_def Let_def)
next
  case OP_NOT
  then have "elements stack \<noteq> []" using assms(7) by (auto simp: OP_ARG_COUNT_def)
  from op_one_ok [OF assms(1,2) this, of "ok 0" rrr_discern_stack_execute_op_not] OP_NOT show ?thesis
    by (auto simp: step_result_def parse_execute_switch_def)
next
  case OP_POP
  then have n: "elements stack \<noteq> []" using assms(7) by (auto simp: OP_ARG_COUNT_def)
  obtain a :: element where "types stack = etype a # types (stack\<lparr>elements := butlast (elements stack)\<rparr>)"
    "stack_ok (stack\<lparr>elements := butlast (elements stack)\<rparr>)" by (rule stack_cases [OF n assms(1)])
  with OP_POP n show ?thesis by (simp add: step_result_def parse_execute_switch_def rrr_discern_stack_list_pop_def)
next
  case OP_BAIL
  then have "elements stack \<noteq> []" using assms(7) by (auto simp: OP_ARG_COUNT_def)
  from op_one_ok [OF assms(1,2) this, of "ok 0" rrr_discern_stack_execute_op_bail]
  obtain ret fault s where s: "rrr_discern_stack_execute_op_bool (ok 0) rrr_discern_stack_execute_op_bail None stack = Inr (ret, fault, s)"
    "ret = 1 \<or> ret = 0 \<and> fault = FAULT_OK \<and> stack_ok s \<and> (\<exists>us. types stack = E_BOOL # us) \<and> types s = types stack" by blast
  show ?thesis
  proof (cases "ret = 1")
    case False
    with s(2) obtain us where us: "ret = 0" "fault = FAULT_OK" "stack_ok s" "types stack = E_BOOL # us" "types s = E_BOOL # us" by auto
    then have n: "elements s \<noteq> []" by (auto simp: types_def)
    obtain a :: element where "types s = etype a # types (s\<lparr>elements := butlast (elements s)\<rparr>)"
      "stack_ok (s\<lparr>elements := butlast (elements s)\<rparr>)" by (rule stack_cases [OF n us(3)])
    with OP_BAIL n us s(1) show ?thesis by (auto simp: step_result_def parse_execute_switch_def)
  qed (use OP_BAIL s(1) in \<open>auto simp: step_result_def parse_execute_switch_def\<close>)
qed


lemma type_step_length:
  "type_step e ts = Some us \<Longrightarrow> length us \<le> length ts + 1 \<and> (eop e = OP_BAIL \<longrightarrow> length us < length ts)"
  by (auto split: operator_type.splits list.splits element_type.splits)

lemma step_ok:
  assumes "stack_ok stack" "length (elements stack) < 64" "vs_ok vs" "node_ok (vdata vs) e" "eop e = OP_PUSH \<Longrightarrow> etype e \<noteq> E_NONE"
    and "etype e = E_BOOL \<Longrightarrow> data_size (evalue e) = 0"
  shows "\<exists>ret fault stack' ws. rrr_discern_stack_parse_execute_step ok stack e vs = Inr (ret, fault, stack', ws) \<and>
    (ret = 1 \<or> (ret = 0 \<or> ret = RRR_DISCERN_STACK_BAIL) \<and> fault = FAULT_OK \<and> ws = vs \<and> stack_ok stack' \<and>
       length (elements stack') < 64 \<and> type_step e (types stack) = Some (types stack'))"
proof (cases "OP_ARG_COUNT (eop e) \<le> length (elements stack)")
  case True
  from step_switch [OF assms True, of ok] obtain ret fault stack' ws where r: "parse_execute_switch ok stack e vs = Inr (ret, fault, stack', ws)"
    "ret = 1 \<or> (ret = 0 \<or> ret = RRR_DISCERN_STACK_BAIL \<and> eop e = OP_BAIL) \<and> fault = FAULT_OK \<and> ws = vs \<and> stack_ok stack' \<and>
      type_step e (types stack) = Some (types stack')"
    unfolding step_result_def by blast
  have "length (elements stack') \<le> 64" "eop e = OP_BAIL \<Longrightarrow> length (elements stack') < 64"
    if "type_step e (types stack) = Some (types stack')" using type_step_length [OF that] assms(2) by auto
  with r True show ?thesis
    by (auto simp: rrr_discern_stack_parse_execute_step_def RRR_DISCERN_STACK_MAX_def RRR_DISCERN_STACK_BAIL_def)
qed (simp add: rrr_discern_stack_parse_execute_step_def)


subsection \<open>The parser\<close>

text \<open>What holds of the state of the parser after \<open>n\<close> bytes of text.\<close>

definition parse_ok :: "nat \<Rightarrow> parse_state \<Rightarrow> bool" where
  "parse_ok n st \<longleftrightarrow> list_ok (plist st) \<and> stack_ok (pstack st) \<and> vs_ok (pvalues st) \<and> length (elements (pstack st)) < 64 \<and>
     typed (elements (plist st)) [] = Some (types (pstack st)) \<and> list_all (node_ok (vdata (pvalues st))) (elements (plist st)) \<and>
     length (elements (plist st)) \<le> n \<and> length (vdata (pvalues st)) \<le> 2 * n"

lemma typed_append: "typed (xs @ ys) ts = (case typed xs ts of None \<Rightarrow> None | Some us \<Rightarrow> typed ys us)"
  by (induction xs arbitrary: ts) (auto split: option.splits)

lemma node_ok_append: "node_ok v e \<Longrightarrow> node_ok (v @ tail) e"
proof -
  have "string_at (v @ tail) position str" if "string_at v position str" for position str
    using that string_at_bound [OF that] by (auto simp: string_at_def)
  then show "node_ok v e \<Longrightarrow> node_ok (v @ tail) e" by (auto simp: node_ok_def)
qed

lemma parse_ok_mono: "parse_ok n st \<Longrightarrow> n \<le> m \<Longrightarrow> parse_ok m st"
  by (auto simp: parse_ok_def)

lemma push_then_step:
  assumes st: "parse_ok n st" and push: "rrr_discern_stack_list_push (\<lambda>n. ok (1 + n)) (plist st) ty op (pvalues st) src dsize v = Inr (0, l, vs)"
    and l: "list_ok l" "elements l = elements (plist st) @ [e]" and vs: "vs_ok vs" "vdata vs = vdata (pvalues st) @ tail" "length tail \<le> 2 * k + 2"
    and e: "node_ok (vdata vs) e" "eop e = OP_PUSH \<Longrightarrow> etype e \<noteq> E_NONE" "etype e = E_BOOL \<Longrightarrow> data_size (evalue e) = 0"
  shows "\<exists>ret fault st'. parse_push ok ty op src dsize v st = Inr (ret, fault, st') \<and> (ret \<noteq> 0 \<or> fault = FAULT_OK \<and> parse_ok (n + k + 1) st')"
proof -
  have s: "stack_ok (pstack st)" "length (elements (pstack st)) < 64" using st by (simp_all add: parse_ok_def)
  from step_ok [OF s vs(1) e, of "\<lambda>n. ok (3 + n)"]
  obtain ret fault stack' ws where r: "rrr_discern_stack_parse_execute_step (\<lambda>n. ok (3 + n)) (pstack st) e vs = Inr (ret, fault, stack', ws)"
    "ret = 1 \<or> (ret = 0 \<or> ret = RRR_DISCERN_STACK_BAIL) \<and> fault = FAULT_OK \<and> ws = vs \<and> stack_ok stack' \<and>
       length (elements stack') < 64 \<and> type_step e (types (pstack st)) = Some (types stack')" by blast
  have p: "parse_push ok ty op src dsize v st =
      Inr (if ret = RRR_DISCERN_STACK_BAIL then 0 else ret, fault, \<lparr>plist = l, pstack = stack', pvalues = ws\<rparr>)"
    using push r(1) l(2) by (simp add: parse_push_def)
  have "list_all (node_ok (vdata vs)) (elements l)"
    using st e(1) by (auto simp: l(2) vs(2) parse_ok_def list_all_iff intro: node_ok_append)
  moreover have "typed (elements l) [] = Some (types stack')" if "type_step e (types (pstack st)) = Some (types stack')" "length (elements stack') < 64"
    using st that by (simp add: l(2) typed_append parse_ok_def RRR_DISCERN_STACK_MAX_def del: type_step.simps)
  moreover have "length (elements l) \<le> n + k + 1" "length (vdata vs) \<le> 2 * (n + k + 1)"
    using st l(2) vs(2,3) by (simp_all add: parse_ok_def)
  ultimately show ?thesis
    unfolding p using r(2) l(1) vs(1) by (auto simp: parse_ok_def RRR_DISCERN_STACK_BAIL_def)
qed

lemma push_plain_ok:
  assumes "parse_ok n st" "n < 2 ^ 26" "op = OP_PUSH \<longrightarrow> ty = E_BOOL" "ty \<in> {E_NONE, E_BOOL}"
  shows "\<exists>ret fault st'. parse_push ok ty op None 0 v st = Inr (ret, fault, st') \<and> (ret \<noteq> 0 \<or> fault = FAULT_OK \<and> parse_ok (n + 1) st')"
proof -
  have "list_ok (plist st)" "length (elements (plist st)) < 2 ^ 26" using assms(1,2) by (simp_all add: parse_ok_def)
  from list_push_plain [OF this, of "\<lambda>n. ok (1 + n)" ty op "pvalues st" None v]
  obtain ret l where r: "rrr_discern_stack_list_push (\<lambda>n. ok (1 + n)) (plist st) ty op (pvalues st) None 0 v = Inr (ret, l, pvalues st)"
    "ret = 1 \<or> ret = 0 \<and> list_ok l \<and>
      elements l = elements (plist st) @ [\<lparr>etype = ty, eop = op, evalue = \<lparr>data_size = 0, data_pos = 0, val = v\<rparr>\<rparr>]" by blast
  show ?thesis
  proof (cases "ret = 0")
    case True
    with r push_then_step [OF assms(1), of ok ty op None 0 v l "pvalues st" _ "[]" 0] assms(1,3,4) show ?thesis
      by (auto simp: node_ok_def parse_ok_def)
  qed (use r in \<open>auto simp: parse_push_def\<close>)
qed


lemma push_data_ok:
  assumes "parse_ok n st" "n < 2 ^ 26" "ty \<in> {E_TOPIC_FILTER, E_ARRAY_TAG, E_DESTINATION}" "str \<noteq> []" "0 \<notin> set str" "length str < 2 ^ 26"
    and "ty = E_TOPIC_FILTER \<Longrightarrow> rrr_mqtt_topic_filter_validate_name str = 0"
  shows "\<exists>ret fault st'. parse_push ok ty OP_PUSH (Some (Outside (str @ [0]))) (of_nat (length str + 1)) v st = Inr (ret, fault, st') \<and>
    (ret \<noteq> 0 \<or> fault = FAULT_OK \<and> parse_ok (n + length str + 1) st')"
proof -
  have l: "list_ok (plist st)" "length (elements (plist st)) < 2 ^ 26" "vs_ok (pvalues st)" "length (vdata (pvalues st)) + length str + 1 < 2 ^ 32"
    using assms(1,2,6) by (simp_all add: parse_ok_def)
  have "unat (of_nat (length str + 1) :: rrr_length) = length str + 1" using assms(6) by (simp add: unat_of_nat del: of_nat_Suc)
  then have d: "0 < (of_nat (length str + 1) :: rrr_length)" by (simp add: word_less_nat_alt del: of_nat_Suc)
  let ?p = "of_nat (length (vdata (pvalues st))) :: rrr_length"
  from storage_push_outside [OF l(3,4) assms(4,5), of "ok (1 + 1)"]
  obtain r vs where r: "rrr_discern_stack_storage_push (ok (1 + 1)) (Outside (str @ [0])) (pvalues st) = Inr (r, ?p, vs)"
    "r = 1 \<or> r = 0 \<and> vs_ok vs \<and> vdata vs = vdata (pvalues st) @ str @ [0] \<and> string_at (vdata vs) ?p str" by blast
  from r(2) have r3: "r = 0 \<or> r = 1" "r = 0 \<Longrightarrow> string_at (vdata vs) ?p str" by auto
  from list_push_data [OF l(1,2) d, of "\<lambda>n. ok (1 + n)", OF r(1) r3, of ty OP_PUSH v]
  obtain ret l' ws where p: "rrr_discern_stack_list_push (\<lambda>n. ok (1 + n)) (plist st) ty OP_PUSH (pvalues st) (Some (Outside (str @ [0])))
      (of_nat (length str + 1)) v = Inr (ret, l', ws)"
    "ret = 1 \<or> ret = 0 \<and> r = 0 \<and> ws = vs \<and> list_ok l' \<and> (\<exists>i. elements l' = elements (plist st) @
       [\<lparr>etype = ty, eop = OP_PUSH, evalue = \<lparr>data_size = of_nat (length str + 1), data_pos = ?p, val = i\<rparr>\<rparr>])" by blast
  show ?thesis
  proof (cases "ret = 0")
    case True
    with p obtain i where i: "r = 0" "ws = vs" "list_ok l'" "elements l' = elements (plist st) @
       [\<lparr>etype = ty, eop = OP_PUSH, evalue = \<lparr>data_size = of_nat (length str + 1), data_pos = ?p, val = i\<rparr>\<rparr>]" by auto
    let ?e = "\<lparr>etype = ty, eop = OP_PUSH, evalue = \<lparr>data_size = of_nat (length str + 1), data_pos = ?p, val = i\<rparr>\<rparr>"
    have v: "vs_ok vs" "vdata vs = vdata (pvalues st) @ str @ [0]" "string_at (vdata vs) ?p str" using r(2) i(1) by auto
    have "node_ok (vdata vs) ?e" using v(3) assms(6,7) by (auto simp: node_ok_def simp del: of_nat_Suc)
    from push_then_step [OF assms(1) _ i(3,4) v(1,2) _ this, of ok ty OP_PUSH "Some (Outside (str @ [0]))" "of_nat (length str + 1)" v "length str"]
    show ?thesis using p(1) True i(2) assms(3) by auto
  qed (use p in \<open>auto simp: parse_push_def\<close>)
qed

lemma value_chars:
  "\<not> RRR_PARSE_MATCH_C_CONTROL c \<Longrightarrow> c \<noteq> 0" "rrr_parse_match_char c RRR_PARSE_MATCH_TAG \<Longrightarrow> c \<noteq> 0"
  "rrr_parse_match_char c RRR_PARSE_MATCH_NAME \<Longrightarrow> c \<noteq> 0"
  by (auto simp: RRR_PARSE_MATCH_C_CONTROL_def rrr_parse_match_char_def RRR_PARSE_MATCH_TAG_def RRR_PARSE_MATCH_NAME_def has_flag_def
      match_flag_defs RRR_PARSE_MATCH_C_LETTER_def RRR_PARSE_MATCH_C_NUMBER_def RRR_PARSE_MATCH_C_DASH_def)

lemma value_range_ok:
  assumes "text_ok p" "ty \<in> {E_TOPIC_FILTER, E_ARRAY_TAG, E_DESTINATION}"
  shows "\<exists>n r. parse_value_range ty p = Inr r \<and> scans_range p n r \<and> 0 \<notin> set (take n (rest p))"
proof -
  have t: "0 \<notin> set (take (length (takeWhile P xs)) xs)" if "\<And>c. P c \<Longrightarrow> c \<noteq> 0" for P :: "u8 \<Rightarrow> bool" and xs
    using that by (auto simp flip: takeWhile_eq_take dest: set_takeWhileD)
  note p = text_pos [OF assms(1)]
  consider "ty = E_TOPIC_FILTER" | "ty = E_ARRAY_TAG" | "ty = E_DESTINATION" using assms(2) by auto
  then show ?thesis
  proof cases
    case 1
    with non_range(2) [OF assms(1)] t [of "\<lambda>c. \<not> RRR_PARSE_MATCH_C_CONTROL c" "rest p", OF value_chars(1)] show ?thesis
      by (simp only: parse_value_range_def element_type.case) blast
  next
    case 2
    with letters_range [OF p, of RRR_PARSE_MATCH_TAG] t [of "\<lambda>c. rrr_parse_match_char c RRR_PARSE_MATCH_TAG" "rest p", OF value_chars(2)] show ?thesis
      by (simp only: parse_value_range_def element_type.case) blast
  next
    case 3
    with letters_range [OF p, of RRR_PARSE_MATCH_NAME] t [of "\<lambda>c. rrr_parse_match_char c RRR_PARSE_MATCH_NAME" "rest p", OF value_chars(3)] show ?thesis
      by (simp only: parse_value_range_def element_type.case) blast
  qed
qed


lemma peek_ok: "pos_ok p \<Longrightarrow> \<exists>n. rrr_parse_match_letters_peek p flags = Inr n"
  by (simp add: rrr_parse_match_letters_peek_def match_letters_peek_loop_ok)

lemma value_length:
  assumes "pos_ok q" "scans_range q n (start, stop, q')" "0 < n"
  shows "rrr_length_from_slength_sub_err 0 stop (int (unat start)) = Inr (0, of_nat n - 1)"
proof -
  note r = extract_text [OF assms]
  from r(2) have s: "stop = int (unat start) + (int n - 1)" by simp
  have "(word_of_int (int n - 1) :: rrr_length) = of_nat n - 1" by (simp add: of_int_diff)
  with s assms(3) r(3) show ?thesis
    by (simp add: rrr_length_from_slength_sub_err_def SLENGTH_MAX_def RRR_LENGTH_MAX_def)
qed

lemma parse_value_ok:
  assumes "text_ok p" "ty \<in> {E_TOPIC_FILTER, E_ARRAY_TAG, E_DESTINATION}"
  shows "\<exists>ret fault str p'. parse_value m ty p = Inr (ret, fault, str, p') \<and> scans p p' \<and>
    (ret \<noteq> 0 \<or> str \<noteq> [] \<and> 0 \<notin> set str \<and> unat (pos p) + length str \<le> unat (pos p') \<and>
       (ty = E_TOPIC_FILTER \<longrightarrow> rrr_mqtt_topic_filter_validate_name str = 0))"
proof -
  from spaces_text [OF assms(1)] obtain q where q: "rrr_parse_ignore_spaces_and_increment_line p = Inr q" "scans p q" by blast
  have tq: "text_ok q" by (rule scans_text [OF assms(1) q(2)])
  note pq = text_pos [OF tq]
  from value_range_ok [OF tq assms(2)] obtain n start stop q' where r: "parse_value_range ty q = Inr (start, stop, q')"
    "scans_range q n (start, stop, q')" "0 \<notin> set (take n (rest q))" by auto
  have sq: "scans q q'" by (rule range_scans [OF pq r(2)])
  then have sp: "scans p q'" using q(2) by (rule scans_trans [rotated])
  have pq': "pos_ok q'" using sq by (simp add: scans_def)
  have n: "stop < int (unat start) \<longleftrightarrow> n = 0" using r(2) by (auto simp: scans_range_def)
  obtain k where k: "(if ty = E_ARRAY_TAG \<or> ty = E_DESTINATION
      then rrr_parse_match_letters_peek q' (RRR_PARSE_MATCH_SPACE_TAB OR RRR_PARSE_MATCH_CONTROL) else Inr 1) = Inr k"
    using peek_ok [OF pq', of "RRR_PARSE_MATCH_SPACE_TAB OR RRR_PARSE_MATCH_CONTROL"]
    by (cases "ty = E_ARRAY_TAG \<or> ty = E_DESTINATION") auto
  show ?thesis
  proof (cases "n = 0 \<or> RRR_PARSE_CHECK_EOF q' \<or> k = 0")
    case True
    then show ?thesis using sp n by (auto simp add: parse_value_def q(1) r(1) k)
  next
    case False
    then have n0: "0 < n" by simp
    note e = extract_text(1) [OF pq r(2) n0, of m] and l = value_length [OF pq r(2) n0]
    have t: "length (take n (rest q)) = n" "unat (pos q') = unat (pos q) + n" "c_string (take n (rest q)) = take n (rest q)"
      using r(2,3) adv_ok [OF pq, of n] by (auto simp: scans_range_def c_string_id)
    have "unat (pos p) \<le> unat (pos q)" using q(2) by (simp add: scans_def word_le_nat_alt)
    with t n0 have "take n (rest q) \<noteq> []" "unat (pos p) + length (take n (rest q)) \<le> unat (pos q')" by auto
    then show ?thesis
      using r(3) n sp False l e by (auto simp add: parse_value_def Let_def q(1) r(1) k t(3))
  qed
qed

lemma match_keyword_ok:
  "text_ok p \<Longrightarrow> \<forall>(w, k) \<in> set ws. w \<noteq> [] \<Longrightarrow> \<exists>k p'. match_keyword p ws = Inr (k, p') \<and> scans p p' \<and>
     (k = None \<or> (\<exists>w. (w, the k) \<in> set ws) \<and> length (rest p') < length (rest p))"
proof (induction p ws rule: match_keyword.induct)
  case (1 p)
  then show ?case by (simp add: scans_refl text_pos)
next
  case (2 p word k ws)
  from word_text(1) [OF 2(2), of word] 2(3) obtain m q where q: "rrr_parse_match_word p word = Inr (m, q)" "scans p q"
    "m = 1 \<and> length (rest q) < length (rest p) \<or> m = 0 \<and> q = p" by auto
  show ?case
  proof (cases "m = 0")
    case True
    with q have "q = p" by auto
    with 2(1) [OF _ refl] 2(2,3) q True show ?thesis by fastforce
  qed (use q in auto)
qed


lemma string_size_ok:
  assumes "length str < 2 ^ 26"
  shows "string_size str = Inr (of_nat (length str + 1))"
proof -
  have u: "unat (of_nat (length str + 1) :: u64) = length str + 1" using assms by (simp add: unat_of_nat del: of_nat_Suc)
  have n: "(of_nat (length str + 1) :: u64) \<noteq> 0" using u by (metis add_is_0 one_neq_zero unat_0)
  have c: "(ucast (of_nat (length str + 1) :: u64) :: rrr_length) = of_nat (length str + 1)"
    using assms by (simp add: unsigned_of_nat take_bit_nat_eq_self del: of_nat_Suc of_nat_add)
  show ?thesis
    using u n c assms
    by (simp add: string_size_def rrr_size_t_inc_bug_const_def rrr_size_t_inc_bug_def rrr_length_from_size_t_bug_const_def
        rrr_length_from_size_t_err_def Let_def RRR_LENGTH_MAX_def add.commute)
qed

lemma comment_any:
  assumes "text_ok p"
  shows "\<exists>p'. rrr_parse_comment p = Inr p' \<and> scans p p'"
proof (cases "rest p = []")
  case True
  with rest_eof [OF text_pos [OF assms]] scans_refl [OF text_pos [OF assms]] show ?thesis by (simp add: rrr_parse_comment_def)
next
  case False
  with comment_eq [OF text_pos [OF assms]] assms show ?thesis by (auto simp: text_ok_def)
qed

definition element_keyword :: "keyword \<Rightarrow> bool" where
  "element_keyword k \<longleftrightarrow> (case k of K_Comment \<Rightarrow> False | K_Bool v \<Rightarrow> True
     | K_Value ty \<Rightarrow> ty \<in> {E_TOPIC_FILTER, E_ARRAY_TAG, E_DESTINATION} | K_Op op \<Rightarrow> op \<noteq> OP_PUSH)"

lemma parse_element_ok:
  assumes "text_ok p" "unat (psize p) < 2 ^ 26" "parse_ok n st" "n < unat (pos p)" "element_keyword k"
  shows "\<exists>ret fault p' st'. parse_element mem k p st = Inr (ret, fault, p', st') \<and> scans p p' \<and>
    (ret \<noteq> 0 \<or> fault = FAULT_OK \<and> parse_ok (unat (pos p')) st')"
proof -
  note p = text_pos [OF assms(1)]
  have b: "unat (pos q) \<le> unat (psize p)" if "scans p q" for q using that by (auto simp: scans_def pos_ok_def word_le_nat_alt)
  have n: "n < 2 ^ 26" using b [OF scans_refl [OF p]] assms(2,4) by simp
  have plain: "\<exists>ret fault st'. parse_push (mem (pos p)) ty op None 0 v st = Inr (ret, fault, st') \<and>
      (ret \<noteq> 0 \<or> fault = FAULT_OK \<and> parse_ok (unat (pos p)) st')" if "op = OP_PUSH \<longrightarrow> ty = E_BOOL" "ty \<in> {E_NONE, E_BOOL}" for ty op v
    using push_plain_ok [OF assms(3) n that, of "mem (pos p)" v] assms(4) parse_ok_mono [of "n + 1"] by fastforce
  obtain m where m: "rrr_parse_match_letters_peek p (RRR_PARSE_MATCH_SPACE_TAB OR RRR_PARSE_MATCH_CONTROL) = Inr m"
    using peek_ok [OF p] by blast
  show ?thesis
  proof (cases k)
    case (K_Op op)
    then have "op \<noteq> OP_PUSH" using assms(5) by (simp add: element_keyword_def)
    with plain [of op E_NONE 0] K_Op scans_refl [OF p] show ?thesis by (auto simp: parse_element_def)
  next
    case (K_Bool v)
    with plain [of OP_PUSH E_BOOL v] m scans_refl [OF p] show ?thesis by (auto simp: parse_element_def)
  next
    case (K_Value ty)
    then have ty: "ty \<in> {E_TOPIC_FILTER, E_ARRAY_TAG, E_DESTINATION}" using assms(5) by (simp add: element_keyword_def)
    from parse_value_ok [OF assms(1) ty, of "mem (pos p) 0"] obtain ret fault str q where
      q: "parse_value (mem (pos p) 0) ty p = Inr (ret, fault, str, q)" "scans p q"
      "ret \<noteq> 0 \<or> str \<noteq> [] \<and> 0 \<notin> set str \<and> unat (pos p) + length str \<le> unat (pos q) \<and>
         (ty = E_TOPIC_FILTER \<longrightarrow> rrr_mqtt_topic_filter_validate_name str = 0)" by blast
    show ?thesis
    proof (cases "m = 0 \<or> ret \<noteq> 0")
      case True
      with K_Value m q(1,2) scans_refl [OF p] show ?thesis by (auto simp: parse_element_def)
    next
      case False
      with q(3) have str: "str \<noteq> []" "0 \<notin> set str" "unat (pos p) + length str \<le> unat (pos q)"
        "ty = E_TOPIC_FILTER \<Longrightarrow> rrr_mqtt_topic_filter_validate_name str = 0" by auto
      have l: "length str < 2 ^ 26" using str(3) b [OF q(2)] assms(2) by simp
      from push_data_ok [OF assms(3) n ty str(1,2) l str(4), of "mem (pos q)" 0]
      obtain ret' fault' st' where r: "parse_push (mem (pos q)) ty OP_PUSH (Some (Outside (str @ [0]))) (of_nat (length str + 1)) 0 st =
          Inr (ret', fault', st')" "ret' \<noteq> 0 \<or> fault' = FAULT_OK \<and> parse_ok (n + length str + 1) st'" by blast
      have "ret' \<noteq> 0 \<or> fault' = FAULT_OK \<and> parse_ok (unat (pos q)) st'"
        using r(2) parse_ok_mono [of "n + length str + 1" st' "unat (pos q)"] str(3) assms(4) by auto
      with False K_Value m q(1,2) r(1) string_size_ok [OF l] show ?thesis by (simp add: parse_element_def)
    qed
  qed (use assms(5) in \<open>simp add: element_keyword_def\<close>)
qed


lemma rest_pos: "pos_ok p \<Longrightarrow> scans p q \<Longrightarrow> length (rest q) < length (rest p) \<Longrightarrow> unat (pos p) < unat (pos q)"
  by (auto simp: rest_length scans_def)

lemma discern_keywords_ok:
  "\<forall>(w, k) \<in> set discern_keywords. w \<noteq> []" "(w, k) \<in> set discern_keywords \<Longrightarrow> k = K_Comment \<or> element_keyword k"
  by (auto simp: discern_keywords_def element_keyword_def)

definition loop_result :: "parse_pos \<Rightarrow> (c_int \<times> discern_fault \<times> parse_pos \<times> parse_state) res \<Rightarrow> bool" where
  "loop_result p r \<longleftrightarrow> (\<exists>ret fault p' st'. r = Inr (ret, fault, p', st') \<and> scans p p' \<and>
     (ret \<noteq> 0 \<or> fault = FAULT_OK \<and> parse_ok (unat (pos p')) st'))"

lemma loop_result_scans: "scans p q \<Longrightarrow> loop_result q r \<Longrightarrow> loop_result p r"
  unfolding loop_result_def using scans_trans [of p q] by auto

lemma scans_pos: "scans p q \<Longrightarrow> unat (pos p) \<le> unat (pos q)"
  by (simp add: scans_def word_le_nat_alt)

lemma parse_loop_ok:
  "length (rest p) < fuel \<Longrightarrow> text_ok p \<Longrightarrow> unat (psize p) < 2 ^ 26 \<Longrightarrow> parse_ok (unat (pos p)) st \<Longrightarrow>
   loop_result p (parse_loop fuel mem p st)"
proof (induction fuel arbitrary: p st)
  case (Suc fuel)
  note t = Suc.prems(2) and sz = Suc.prems(3)
  note pp = text_pos [OF t]
  have stop: "loop_result p (Inr (0, FAULT_OK, q, st))" if "scans p q" for q
    using that Suc.prems(4) parse_ok_mono scans_pos [OF that] by (auto simp: loop_result_def)
  from spaces_text [OF t] obtain q where q: "rrr_parse_ignore_spaces_and_increment_line p = Inr q" "scans p q" by blast
  have tq: "text_ok q" by (rule scans_text [OF t q(2)])
  from match_keyword_ok [OF tq discern_keywords_ok(1)] obtain k u where u: "match_keyword q discern_keywords = Inr (k, u)" "scans q u"
    "k = None \<or> (\<exists>w. (w, the k) \<in> set discern_keywords) \<and> length (rest u) < length (rest q)" by blast
  have pu: "scans p u" by (rule scans_trans [OF q(2) u(2)])
  have tu: "text_ok u" by (rule scans_text [OF t pu])
  have su: "unat (psize u) < 2 ^ 26" using sz pu by (simp add: scans_def)
  consider "RRR_PARSE_CHECK_EOF p \<or> RRR_PARSE_CHECK_EOF q" | "\<not> (RRR_PARSE_CHECK_EOF p \<or> RRR_PARSE_CHECK_EOF q)" "k = None"
    | "\<not> (RRR_PARSE_CHECK_EOF p \<or> RRR_PARSE_CHECK_EOF q)" "k = Some K_Comment"
    | e where "\<not> (RRR_PARSE_CHECK_EOF p \<or> RRR_PARSE_CHECK_EOF q)" "k = Some e" "element_keyword e"
    using u(3) discern_keywords_ok(2) by (cases k) auto
  then show ?case
  proof cases
    case 1
    with stop [OF q(2)] stop [OF scans_refl [OF pp]] q(1) show ?thesis by auto
  next
    case 2
    with q(1) u(1) pu show ?thesis by (simp add: loop_result_def)
  next
    case 3
    with u(3) have l: "length (rest u) < length (rest q)" by simp
    from comment_any [OF tu] obtain v where v: "rrr_parse_comment u = Inr v" "scans u v" by blast
    have pv: "scans p v" by (rule scans_trans [OF pu v(2)])
    have "length (rest v) < fuel"
      using Suc.prems(1) scans_rest [OF q(2) pp] l scans_rest [OF v(2) text_pos [OF tu]] by simp
    from Suc.IH [OF this scans_text [OF t pv]] sz pv Suc.prems(4) parse_ok_mono [OF _ scans_pos [OF pv]]
    have "loop_result v (parse_loop fuel mem v st)" by (simp add: scans_def)
    from loop_result_scans [OF pv this] 3 q(1) u(1) v(1) show ?thesis by simp
  next
    case 4
    with u(3) have l: "length (rest u) < length (rest q)" by simp
    have "unat (pos p) < unat (pos u)" using rest_pos [OF text_pos [OF tq] u(2) l] scans_pos [OF q(2)] by simp
    from parse_element_ok [OF tu su Suc.prems(4) this 4(3), of mem]
    obtain ret fault v st' where v: "parse_element mem e u st = Inr (ret, fault, v, st')" "scans u v"
      "ret \<noteq> 0 \<or> fault = FAULT_OK \<and> parse_ok (unat (pos v)) st'" by blast
    have pv: "scans p v" by (rule scans_trans [OF pu v(2)])
    have "length (rest v) < fuel"
      using Suc.prems(1) scans_rest [OF q(2) pp] l scans_rest [OF v(2) text_pos [OF tu]] by simp
    from Suc.IH [OF this scans_text [OF t pv]] sz pv v(3)
    have "ret = 0 \<longrightarrow> loop_result v (parse_loop fuel mem v st')" by (auto simp: scans_def)
    with loop_result_scans [OF pv] v pv
    have "loop_result p (if ret \<noteq> 0 then Inr (ret, fault, v, st') else if elements (pstack st') = [] then Inr (0, fault, v, st')
        else parse_loop fuel mem v st')" by (auto simp: loop_result_def)
    moreover have "e \<noteq> K_Comment" using 4(3) by (auto simp: element_keyword_def)
    ultimately show ?thesis using 4 q(1) u(1) v(1) by (cases e) auto
  qed
qed simp


subsection \<open>Properties\<close>

lemma merge_ok:
  assumes "length (vdata vs) < 2 ^ 28" "list_ok l"
  shows "\<exists>ret b_pos. rrr_discern_stack_storage_merge ok ok' vs l = Inr (ret, 0, b_pos)"
proof -
  let ?n = "of_nat (length (vdata vs)) :: rrr_length"
  have u: "unat ?n = length (vdata vs)" using assms(1) by (simp add: unat_of_nat)
  have "unat ?n + unat (list_bytes l) < 2 ^ 32" using assms u by (simp add: list_ok_def)
  from add_bug_const_ok(1) [OF this] show ?thesis
    by (simp add: rrr_discern_stack_storage_merge_def rrr_discern_stack_storage_push_def empty_values_def Let_def rrr_length_add_bug_const_def)
qed

lemma discern_parse_ok:
  assumes "text_ok p" "unat (psize p) < 2 ^ 26" "unat (psize p) < fuel"
  shows "\<exists>ret fault ds' p'. rrr_discern_stack_parse fuel mem ds p = Inr (ret, fault, ds', p') \<and> scans p p' \<and>
    (ret = 0 \<longrightarrow> fault = FAULT_OK \<and> dname ds' = dname ds \<and> program_ok ds')"
proof -
  from control_text [OF assms(1)] obtain q where q: "rrr_parse_ignore_control_and_increment_line p = Inr q" "scans p q" by blast
  have tq: "text_ok q" by (rule scans_text [OF assms(1) q(2)])
  let ?st = "\<lparr>plist = empty_list, pstack = empty_list, pvalues = empty_values\<rparr>"
  have st: "parse_ok n ?st" for n
    by (simp add: parse_ok_def list_ok_def stack_ok_def vs_ok_def empty_list_def empty_values_def types_def)
  have sz: "psize q = psize p" using q(2) by (simp add: scans_def)
  have "length (rest q) < fuel" using rest_length [OF text_pos [OF tq]] assms(3) sz by simp
  from parse_loop_ok [OF this tq _ st, of mem] assms(2) sz obtain ret fault v st' where
    v: "parse_loop fuel mem q ?st = Inr (ret, fault, v, st')" "scans q v" "ret \<noteq> 0 \<or> fault = FAULT_OK \<and> parse_ok (unat (pos v)) st'"
    unfolding loop_result_def by auto
  have pv: "scans p v" by (rule scans_trans [OF q(2) v(2)])
  show ?thesis
  proof (cases "RRR_PARSE_CHECK_EOF q \<or> ret \<noteq> 0 \<or> elements (pstack st') \<noteq> []")
    case True
    with q v(1) pv show ?thesis by (auto simp: rrr_discern_stack_parse_def)
  next
    case False
    with v(3) have ok: "fault = FAULT_OK" "parse_ok (unat (pos v)) st'" "ret = 0" "elements (pstack st') = []" by auto
    have "unat (pos v) \<le> unat (psize p)" using pv by (auto simp: scans_def pos_ok_def word_le_nat_alt)
    then have l: "length (vdata (pvalues st')) < 2 ^ 28" "list_ok (plist st')" using ok(2) assms(2) by (auto simp: parse_ok_def)
    from merge_ok [OF this, of "mem (pos v) 5" "mem (pos v) 6"] obtain r b where
      m: "rrr_discern_stack_storage_merge (mem (pos v) 5) (mem (pos v) 6) (pvalues st') (plist st') = Inr (r, 0, b)" by blast
    have "types (pstack st') = []" using ok(4) by (simp add: types_def)
    then have "program_ok (ds\<lparr>exe_list := elements (plist st'), exe_values := vdata (pvalues st')\<rparr>)"
      using ok(2) by (simp add: program_ok_def parse_ok_def)
    with q(1) v(1) False ok(1,3,4) m pv show ?thesis by (cases "r = 0") (auto simp: rrr_discern_stack_parse_def)
  qed
qed

lemma interpret_ok:
  assumes "text_ok p" "unat (psize p) < 2 ^ 26" "unat (psize p) < fuel"
  shows "\<exists>ret target' fault' p'. rrr_discern_stack_interpret fuel ok ok' mem target fault p name = Inr (ret, target', fault', p') \<and>
    scans p p' \<and> (if ret = 0 then \<exists>ds. target' = target @ [ds] \<and> dname ds = name \<and> program_ok ds else target' = target)"
proof (cases "ok \<and> ok'")
  case True
  let ?ds = "\<lparr>exe_list = [], exe_values = [], dname = name\<rparr>"
  from discern_parse_ok [OF assms, of mem ?ds] True show ?thesis
    by (auto simp: rrr_discern_stack_interpret_def rrr_discern_stack_new_def)
next
  case False
  with scans_refl [OF text_pos [OF assms(1)]] show ?thesis by (simp add: rrr_discern_stack_interpret_def rrr_discern_stack_new_def)
qed

text \<open>
  Claim C3: reading a discern stack definition returns on every text of less than \<open>2 ^ 26\<close> bytes that is followed by another byte,
  whatever allocation fails, at a valid position of the text, and without a failed assertion, a call of RRR_BUG or an access
  outside the text and the storages it grows. When it succeeds the collection has one program more, of the given name, which is
  well typed: each operator finds operands of the types it needs, there are never 64 values on the stack and none is left, and
  each string is terminated and, for topic filters, valid. On failure the collection is unchanged.
\<close>

theorem discern_parser_types:
  assumes "text_ok p" "unat (psize p) < 2 ^ 26" "unat (psize p) < fuel"
  shows "\<exists>ret target' fault' p'. rrr_discern_stack_interpret fuel ok ok' mem target fault p name = Inr (ret, target', fault', p') \<and>
    scans p p' \<and> (if ret = 0 then \<exists>ds. target' = target @ [ds] \<and> dname ds = name \<and> program_ok ds else target' = target)"
  using interpret_ok [OF assms] .

text \<open>The text \<^verbatim>\<open>TRUE POP\<close> with a space at the end.\<close>

definition demo_definition :: parse_pos where
  "demo_definition = rrr_parse_pos_init (dword_TRUE @ [0x20] @ dword_POP @ [0x20, 0]) 9"

lemmas parse_eval = rrr_parse_ignore_control_and_increment_line_def rrr_parse_ignore_spaces_and_increment_line_def rrr_parse_ignore_and_increment_line_def
   RRR_PARSE_CHECK_EOF_def byte_at_def rrr_parse_is_control_def rrr_parse_is_spaces_def ignore_and_increment_line_loop.simps pos_inc_def
   discern_keywords_def rrr_parse_match_word_def line_step_def RRR_PARSE_MATCH_C_SPACE_TAB_def RRR_PARSE_MATCH_C_NEWLINES_def
   rrr_parse_match_letters_peek_def match_letters_peek_loop.simps

lemma demo_control: "rrr_parse_ignore_control_and_increment_line demo_definition = Inr demo_definition"
  by (simp add: parse_eval demo_definition_def rrr_parse_pos_init_def)

lemma demo_spaces: "rrr_parse_ignore_spaces_and_increment_line demo_definition = Inr demo_definition"
  by (simp add: parse_eval demo_definition_def rrr_parse_pos_init_def)

lemma demo_TRUE: "match_keyword demo_definition discern_keywords = Inr (Some (K_Bool 1), demo_definition\<lparr>pos := 4\<rparr>)"
  by (simp add: parse_eval demo_definition_def rrr_parse_pos_init_def)

lemma demo_peek: "rrr_parse_match_letters_peek (demo_definition\<lparr>pos := 4\<rparr>) (RRR_PARSE_MATCH_SPACE_TAB OR RRR_PARSE_MATCH_CONTROL) = Inr 1"
  by (simp add: parse_eval demo_definition_def rrr_parse_pos_init_def rrr_parse_match_char_def has_flag_def match_flag_defs RRR_PARSE_MATCH_C_CONTROL_def
   rrr_length_inc_bug_def)


lemma demo_spaces2: "rrr_parse_ignore_spaces_and_increment_line (demo_definition\<lparr>pos := 4\<rparr>) = Inr (demo_definition\<lparr>pos := 5\<rparr>)"
  by (simp add: parse_eval demo_definition_def rrr_parse_pos_init_def)

lemma demo_POP: "match_keyword (demo_definition\<lparr>pos := 5\<rparr>) discern_keywords = Inr (Some (K_Op OP_POP), demo_definition\<lparr>pos := 8\<rparr>)"
  by (simp add: parse_eval demo_definition_def rrr_parse_pos_init_def)

lemma demo_not_eof: "\<not> RRR_PARSE_CHECK_EOF demo_definition" "\<not> RRR_PARSE_CHECK_EOF (demo_definition\<lparr>pos := 4\<rparr>)" "\<not> RRR_PARSE_CHECK_EOF (demo_definition\<lparr>pos := 5\<rparr>)"
  by (simp_all add: parse_eval demo_definition_def rrr_parse_pos_init_def)

lemmas push_eval = parse_push_def rrr_discern_stack_list_push_def rrr_discern_stack_list_expand_def rrr_discern_stack_data_expand_def
  rrr_discern_stack_parse_execute_step_def parse_execute_switch_def rrr_discern_stack_execute_op_push_def rrr_discern_stack_list_pop_def
  OP_ARG_COUNT_def element_size_def RRR_DISCERN_STACK_MAX_def RRR_DISCERN_STACK_BAIL_def rrr_length_add_bug_const_def empty_list_def empty_values_def Let_def

definition demo_mid :: parse_state where
 "demo_mid = \<lparr>plist = \<lparr>elements = [\<lparr>etype = E_BOOL, eop = OP_PUSH, evalue = \<lparr>data_size = 0, data_pos = 0, val = 1\<rparr>\<rparr>], slots = 8, list_bytes = 192, list_capacity = 192\<rparr>,
   pstack = \<lparr>elements = [\<lparr>etype = E_BOOL, eop = OP_PUSH, evalue = \<lparr>data_size = 0, data_pos = 0, val = 1\<rparr>\<rparr>], slots = 8, list_bytes = 192, list_capacity = 192\<rparr>, pvalues = empty_values\<rparr>"

lemma demo_push_true: "parse_push (\<lambda>_. True) E_BOOL OP_PUSH None 0 1 \<lparr>plist = empty_list, pstack = empty_list, pvalues = empty_values\<rparr> = Inr (0, FAULT_OK, demo_mid)"
  by (simp add: push_eval demo_mid_def)

definition demo_elements :: "element list" where
  "demo_elements = [\<lparr>etype = E_BOOL, eop = OP_PUSH, evalue = \<lparr>data_size = 0, data_pos = 0, val = 1\<rparr>\<rparr>,
     \<lparr>etype = E_NONE, eop = OP_POP, evalue = \<lparr>data_size = 0, data_pos = 0, val = 0\<rparr>\<rparr>]"

lemma demo_push_pop: "\<exists>st :: parse_state. parse_push (\<lambda>_. True) E_NONE OP_POP None 0 0 demo_mid = Inr (0, FAULT_OK, st) \<and> elements (pstack st) = [] \<and>
   elements (plist st) = demo_elements \<and> pvalues st = empty_values \<and> list_bytes (plist st) = 192"
  by (simp add: push_eval demo_mid_def demo_elements_def)

lemma demo_interpret:
  "\<exists>ds p'. rrr_discern_stack_interpret 10 True True (\<lambda>_ _. True) [] FAULT_OK demo_definition [] = Inr (0, [ds], FAULT_OK, p') \<and>
     exe_list ds = demo_elements"
proof -
  obtain st :: parse_state where st: "parse_push (\<lambda>_. True) E_NONE OP_POP None 0 0 demo_mid = Inr (0, FAULT_OK, st)" "elements (pstack st) = []"
    "elements (plist st) = demo_elements" "pvalues st = empty_values" "list_bytes (plist st) = 192" using demo_push_pop by (elim exE conjE)
  have m: "elements (pstack demo_mid) \<noteq> []" by (simp add: demo_mid_def)
  have "parse_loop (Suc (Suc n)) (\<lambda>_ _. True) demo_definition \<lparr>plist = empty_list, pstack = empty_list, pvalues = empty_values\<rparr> =
     Inr (0, FAULT_OK, demo_definition\<lparr>pos := 8\<rparr>, st)" for n
    using st by (simp add: demo_spaces demo_TRUE demo_peek demo_spaces2 demo_POP demo_not_eof demo_push_true m parse_element_def Let_def)
  from this [of 8] st show ?thesis
    by (simp add: rrr_discern_stack_interpret_def rrr_discern_stack_new_def rrr_discern_stack_parse_def demo_control demo_not_eof
      rrr_discern_stack_storage_merge_def rrr_discern_stack_storage_push_def push_eval)
qed

lemma demo_definition_ok: "text_ok demo_definition" "psize demo_definition = 9"
  by (simp_all add: demo_definition_def text_ok_init) (simp add: rrr_parse_pos_init_def)

theorem discern_parser_types_witness:
  "\<exists>ds p'. rrr_discern_stack_interpret 10 True True (\<lambda>_ _. True) [] FAULT_OK demo_definition [] = Inr (0, [ds], FAULT_OK, p') \<and>
     exe_list ds = demo_elements \<and> program_ok ds"
  using demo_definition_ok discern_parser_types [of demo_definition 10 True True "\<lambda>_ _. True" "[]" FAULT_OK "[]"] demo_interpret by auto

end
