(* ===== verification/RRR_Routing.thy ===== *)
theory RRR_Routing
  imports RRR_Discern_Parse RRR_Msg_Holder
begin

text \<open>
  Routing of messages. When an instance writes a message, the callback of \<^verbatim>\<open>src/lib/instances.c\<close> runs the route definitions of the instance
  on it, with the callbacks of \<^verbatim>\<open>src/lib/discern_stack_helper.c\<close> to look at the message, and stores the
  receivers as next hops. When an instance reads the message, \<^verbatim>\<open>src/lib/poll_helper.c\<close> drops it if the instance is not
  a next hop or its topic filter (\<^verbatim>\<open>src/lib/message_helper.c\<close>, \<^verbatim>\<open>src/lib/messages/msg_msg.c\<close>) does not match.
  An instance is the number of its node in the list of all instances. The array in a message is what the code for arrays makes
  of it: a return value and the tags of its values. The assertions that a message in a holder is a complete message are left out.
\<close>

subsection \<open>Instances\<close>

record inst =
  iname :: "u8 list option"
  isenders :: "instance_friend list"

fun instance_find_from :: "nat \<Rightarrow> inst list \<Rightarrow> u8 list \<Rightarrow> nat option" where
  "instance_find_from n [] name = None"
| "instance_find_from n (node # instances) name = (if iname node = Some name then Some n else instance_find_from (Suc n) instances name)"

definition rrr_instance_find :: "inst list \<Rightarrow> u8 list \<Rightarrow> nat option" where
  "rrr_instance_find instances name = instance_find_from 0 instances name"

definition rrr_instance_has_sender :: "inst list \<Rightarrow> nat \<Rightarrow> nat \<Rightarrow> bool" where
  "rrr_instance_has_sender instances i sender = rrr_instance_friend_collection_check_exists (isenders (instances ! i)) sender"

text \<open>The check of the destinations in the routes before an instance starts; \<open>self\<close> is the instance.\<close>

definition rrr_instance_iterate_route_instances_callback :: "inst list \<Rightarrow> nat \<Rightarrow> u8 list \<Rightarrow> u8 list \<Rightarrow> unit \<Rightarrow> c_int \<times> unit" where
  "rrr_instance_iterate_route_instances_callback instances self route_definition_name instance_name w =
     (case rrr_instance_find instances instance_name of
        None \<Rightarrow> (1, w)
      | Some i \<Rightarrow> if \<not> rrr_instance_friend_collection_check_exists (isenders (instances ! i)) self then (1, w) else (0, w))"

subsection \<open>Looking at a message\<close>

record route_message =
  msg_data :: "u8 list"
  msg_topic_length :: u16
  msg_is_array :: bool
  msg_array :: "c_int \<times> u8 list list"

text \<open>The bytes of a tag are compared as a C string; a missing tag is an empty one.\<close>

definition rrr_type_value_is_tag :: "u8 list \<Rightarrow> u8 list \<Rightarrow> bool" where
  "rrr_type_value_is_tag a b =
     (let a_empty = first_char a = 0; b_empty = first_char b = 0 in
      if a_empty \<or> b_empty then a_empty \<and> b_empty else c_string a = c_string b)"

fun rrr_array_has_tag :: "u8 list list \<Rightarrow> u8 list \<Rightarrow> bool" where
  "rrr_array_has_tag [] tag = False"
| "rrr_array_has_tag (node # nodes) tag = (rrr_type_value_is_tag node tag \<or> rrr_array_has_tag nodes tag)"

fun index_entries :: "u8 list list \<Rightarrow> rrr_length list res" where
  "index_entries [] = Inr []"
| "index_entries (tag # tags) =
     (if tag = [] then index_entries tags
      else bindr (RRR_DISCERN_STACK_FIRST_LAST_INDEX tag) (\<lambda>i. bindr (index_entries tags) (\<lambda>is. Inr (i # is))))"

text \<open>The result is \<open>(ret, result, new index, index_produced)\<close>.\<close>

definition rrr_discern_stack_helper_array_tag_resolve_cb ::
    "bool \<Rightarrow> route_message \<Rightarrow> u8 list \<Rightarrow> bool \<Rightarrow> (c_int \<times> rrr_length \<times> rrr_length list option \<times> bool) res" where
  "rrr_discern_stack_helper_array_tag_resolve_cb have_memory msg tag index_produced =
     (if \<not> msg_is_array msg then Inr (0, 0, None, index_produced)
      else case msg_array msg of (ret, array) \<Rightarrow>
        if ret \<noteq> 0 then Inr (ret, 0, None, index_produced)
        else let result = (if rrr_array_has_tag array tag then 1 else 0) in
          if \<not> index_produced then
            (if \<not> have_memory then Inr (1, 0, None, index_produced)
             else bindr (index_entries array) (\<lambda>entry. Inr (0, result, Some entry, True)))
          else Inr (0, result, None, index_produced))"

subsection \<open>Writing a message\<close>

text \<open>
  What the callbacks change: the next hops found so far, the number of allocations and whether the index of the tags has been
  made. \<open>mem n\<close> says if the \<open>n\<close>-th allocation succeeds.
\<close>

record route_world =
  hops :: "instance_friend list"
  allocs :: nat
  index_produced :: bool

definition rrr_instance_message_broker_entry_postprocess_apply_false_cb :: "inst list \<Rightarrow> u8 list \<Rightarrow> route_world \<Rightarrow> (c_int \<times> route_world) res" where
  "rrr_instance_message_broker_entry_postprocess_apply_false_cb instances destination w =
     (case rrr_instance_find instances destination of
        None \<Rightarrow> Inl Assertion
      | Some i \<Rightarrow> Inr (0, w\<lparr>hops := rrr_instance_friend_collection_remove (hops w) i\<rparr>))"

definition rrr_instance_message_broker_entry_postprocess_apply_true_cb ::
    "inst list \<Rightarrow> (nat \<Rightarrow> bool) \<Rightarrow> u8 list \<Rightarrow> route_world \<Rightarrow> (c_int \<times> route_world) res" where
  "rrr_instance_message_broker_entry_postprocess_apply_true_cb instances mem destination w =
     (case rrr_instance_find instances destination of
        None \<Rightarrow> Inl Assertion
      | Some i \<Rightarrow>
          case rrr_instance_friend_collection_append (mem (allocs w)) (rrr_instance_friend_collection_remove (hops w) i) i NULL of (ret, hs) \<Rightarrow>
            Inr (ret, w\<lparr>hops := hs, allocs := allocs w + 1\<rparr>))"

definition route_callbacks :: "inst list \<Rightarrow> (nat \<Rightarrow> bool) \<Rightarrow> route_message \<Rightarrow> route_world discern_callbacks" where
  "route_callbacks instances mem msg =
     \<lparr>resolve_topic_filter_cb = (\<lambda>topic_filter topic_filter_size w.
        bindr (rrr_discern_stack_helper_topic_filter_resolve_cb (msg_data msg) (msg_topic_length msg) topic_filter topic_filter_size)
          (\<lambda>(ret, result). Inr (ret, result, w))),
      resolve_array_tag_cb = (\<lambda>tag w.
        bindr (rrr_discern_stack_helper_array_tag_resolve_cb (mem (allocs w)) msg tag (index_produced w)) (\<lambda>(ret, result, new_index, produced).
        Inr (ret, result, new_index, w\<lparr>allocs := allocs w + 1, index_produced := produced\<rparr>))),
      apply_cb_false = Some (rrr_instance_message_broker_entry_postprocess_apply_false_cb instances),
      apply_cb_true = rrr_instance_message_broker_entry_postprocess_apply_true_cb instances mem\<rparr>"

definition rrr_instance_message_broker_entry_postprocess_callback ::
    "inst list \<Rightarrow> discern_stack list \<Rightarrow> (nat \<Rightarrow> bool) \<Rightarrow> route_message \<Rightarrow> msg_holder \<Rightarrow> (c_int \<times> msg_holder) res" where
  "rrr_instance_message_broker_entry_postprocess_callback instances routes mem msg entry_locked =
     (if routes = [] then Inr (0, entry_locked)
      else bindr (rrr_discern_stack_collection_execute routes (route_callbacks instances mem msg)
                    \<lparr>hops = [], allocs = 0, index_produced = False\<rparr>) (\<lambda>(ret, fault, w).
        if ret \<noteq> 0 then Inr (ret, entry_locked)
        else if hops w \<noteq> [] then Inr (rrr_msg_holder_nexthops_set (\<lambda>n. mem (allocs w + n)) entry_locked (Some (hops w)))
        else Inr (0, entry_locked)))"

text \<open>
  The caller in the message broker: \<open>entry_pre_buffer_hook\<close> is the function above, and any return value of it other than 0 is an error. After it the
  event hook \<open>pre_buffer\<close> of the broker runs, if there is one; it returns nothing, and what it does to the entry is a parameter.
\<close>

definition rrr_message_broker_pre_buffer_hook ::
    "(msg_holder \<Rightarrow> (c_int \<times> msg_holder) res) \<Rightarrow> (msg_holder \<Rightarrow> msg_holder) option \<Rightarrow> msg_holder \<Rightarrow> (c_int \<times> msg_holder) res" where
  "rrr_message_broker_pre_buffer_hook entry_pre_buffer_hook pre_buffer entry_locked =
     bindr (entry_pre_buffer_hook entry_locked) (\<lambda>(ret, entry_locked).
     if ret \<noteq> 0 then Inr (ret, entry_locked)
     else case pre_buffer of None \<Rightarrow> Inr (ret, entry_locked) | Some cb \<Rightarrow> Inr (ret, cb entry_locked))"

definition rrr_message_broker_write_entry_fifo_intermediate_postprocess ::
    "(msg_holder \<Rightarrow> (c_int \<times> msg_holder) res) \<Rightarrow> (msg_holder \<Rightarrow> msg_holder) option \<Rightarrow> holder_heap \<Rightarrow> ptr \<Rightarrow> (c_int \<times> holder_heap) res" where
  "rrr_message_broker_write_entry_fifo_intermediate_postprocess entry_pre_buffer_hook pre_buffer h entry =
     bindr (rrr_msg_holder_lock h entry) (\<lambda>h.
     bindr (load h entry) (\<lambda>n.
     bug_if (usercount (payload n) \<noteq> 1)
       (bug_if (message (payload n) \<noteq> None \<and> data_length (payload n) = 0)
         (bindr (rrr_message_broker_pre_buffer_hook entry_pre_buffer_hook pre_buffer (payload n)) (\<lambda>(ret, e).
          bindr (modify h entry (payload_update (\<lambda>_. e))) (\<lambda>h.
          if ret \<noteq> 0 then bindr (rrr_msg_holder_unlock h entry) (\<lambda>h. Inr (1, h))
          else bindr (rrr_msg_holder_incref_while_locked h entry) (\<lambda>h.
               bindr (rrr_msg_holder_unlock h entry) (\<lambda>h. Inr (0, h)))))))))"

subsection \<open>Reading a message\<close>

definition rrr_msg_msg_topic_match :: "(nat \<Rightarrow> bool) \<Rightarrow> route_message \<Rightarrow> u8 list list \<Rightarrow> (c_int \<times> bool) res" where
  "rrr_msg_msg_topic_match mem msg filter_tokens =
     (let topic = take (unat (msg_topic_length msg)) (msg_data msg) in
      bindr (rrr_mqtt_topic_validate_name_with_end topic) (\<lambda>ret.
      if ret \<noteq> 0 then Inr (0, False)
      else bindr (rrr_mqtt_topic_tokenize_with_end mem 0 topic) (\<lambda>(ret, tokens).
        if ret \<noteq> 0 then Inr (1, False)
        else bindr (rrr_mqtt_topic_match_tokens_recursively filter_tokens tokens) (\<lambda>m. Inr (0, m = RRR_MQTT_TOKEN_MATCH)))))"

definition rrr_message_helper_topic_match :: "(nat \<Rightarrow> bool) \<Rightarrow> route_message \<Rightarrow> u8 list list \<Rightarrow> (c_int \<times> bool) res" where
  "rrr_message_helper_topic_match mem msg token =
     (if msg_topic_length msg > 0 then
        bindr (rrr_msg_msg_topic_match mem msg token) (\<lambda>(ret, does_match). if ret \<noteq> 0 then Inr (1, does_match) else Inr (0, does_match))
      else Inr (0, False))"

definition rrr_poll_intermediate_callback_nexthop_check :: "nat \<Rightarrow> msg_holder \<Rightarrow> bool" where
  "rrr_poll_intermediate_callback_nexthop_check self entry = rrr_msg_holder_nexthop_ok entry self"

definition rrr_poll_intermediate_callback_topic_filter :: "(nat \<Rightarrow> bool) \<Rightarrow> route_message \<Rightarrow> u8 list list \<Rightarrow> (c_int \<times> bool) res" where
  "rrr_poll_intermediate_callback_topic_filter mem msg token = rrr_message_helper_topic_match mem msg token"

text \<open>
  The reading instance \<open>self\<close> has a topic filter (its tokens) or none, which may be inverted. \<open>callback\<close> gets the locked entry
  and unlocks it; an entry that is not passed on is unlocked here.
\<close>

definition rrr_poll_intermediate_callback ::
    "(nat \<Rightarrow> bool) \<Rightarrow> nat \<Rightarrow> u8 list list option \<Rightarrow> bool \<Rightarrow> (holder_heap \<Rightarrow> ptr \<Rightarrow> (c_int \<times> holder_heap) res) \<Rightarrow> route_message \<Rightarrow>
     holder_heap \<Rightarrow> ptr \<Rightarrow> (c_int \<times> holder_heap) res" where
  "rrr_poll_intermediate_callback mem self topic_filter topic_filter_invert callback msg h entry =
     bindr (case topic_filter of None \<Rightarrow> Inr (0, True)
            | Some token \<Rightarrow> bindr (rrr_poll_intermediate_callback_topic_filter mem msg token) (\<lambda>(ret, does_match).
                Inr (ret, if topic_filter_invert then \<not> does_match else does_match))) (\<lambda>(ret, does_match).
     if ret \<noteq> 0 then bindr (rrr_msg_holder_unlock h entry) (\<lambda>h. Inr (ret, h))
     else bindr (load h entry) (\<lambda>n.
       if does_match \<and> rrr_poll_intermediate_callback_nexthop_check self (payload n) then callback h entry
       else bindr (rrr_msg_holder_unlock h entry) (\<lambda>h. Inr (0, h))))"

subsection \<open>What the callbacks keep\<close>

text \<open>
  Callbacks that keep a condition on their world, and return 0 if \<open>s\<close> holds. The same is then true of programs
  without BAIL and of collections of them.
\<close>

definition callbacks_keep :: "(u8 list \<Rightarrow> bool) \<Rightarrow> ('w \<Rightarrow> bool) \<Rightarrow> bool \<Rightarrow> 'w discern_callbacks \<Rightarrow> bool" where
  "callbacks_keep known P s cbs \<longleftrightarrow>
     (\<forall>f n w ret v w'. P w \<longrightarrow> resolve_topic_filter_cb cbs f n w = Inr (ret, v, w') \<longrightarrow> P w' \<and> (s \<longrightarrow> ret = 0)) \<and>
     (\<forall>tag w ret v ix w'. P w \<longrightarrow> resolve_array_tag_cb cbs tag w = Inr (ret, v, ix, w') \<longrightarrow> P w' \<and> (s \<longrightarrow> ret = 0)) \<and>
     (\<forall>b d w ret w'. P w \<longrightarrow> known d \<longrightarrow> apply_cbs cbs b d w = Inr (ret, w') \<longrightarrow> P w' \<and> (s \<longrightarrow> ret = 0))"

abbreviation dests_known :: "(u8 list \<Rightarrow> bool) \<Rightarrow> rvalue list \<Rightarrow> bool" where
  "dests_known known st \<equiv> \<forall>d. Dest d \<in> set st \<longrightarrow> known d"

lemma run_push_keeps:
  assumes k: "callbacks_keep known P s cbs" and "P w" "dests_known known st" "known_destination known values e"
    and r: "run_push cbs values e (st, ix, w) = Inr (ret, fault, (st', ix', w'))"
  shows "P w' \<and> dests_known known st' \<and> (s \<longrightarrow> ret = 0)"
proof (cases "etype e")
  case E_TOPIC_FILTER
  let ?cb = "resolve_topic_filter_cb cbs (drop (unat (data_pos (evalue e))) values) (data_size (evalue e)) w"
  have b: "bindr ?cb (\<lambda>(ret, v, w). Inr (ret, FAULT_OK, (Truth (v \<noteq> 0) # st, ix, w))) = Inr (ret, fault, (st', ix', w'))"
    using r E_TOPIC_FILTER by (simp add: run_push_def)
  then obtain v where v: "?cb = Inr (ret, v, w')" "st' = Truth (v \<noteq> 0) # st" by (cases ?cb) auto
  have "P w' \<and> (s \<longrightarrow> ret = 0)" using k assms(2) v(1) unfolding callbacks_keep_def by blast
  with v(2) assms(3) show ?thesis by simp
next
  case E_ARRAY_TAG
  show ?thesis
  proof (cases "ix \<noteq> [] \<and> val (evalue e) \<notin> set ix")
    case True
    with E_ARRAY_TAG r assms(2,3) show ?thesis by (auto simp: run_push_def)
  next
    case False
    let ?cb = "resolve_array_tag_cb cbs (c_string (drop (unat (data_pos (evalue e))) values)) w"
    have b: "bindr ?cb (\<lambda>(ret, v, new_index, w). Inr (ret, FAULT_OK, (Truth (v \<noteq> 0) # st, case new_index of Some ix \<Rightarrow> ix | None \<Rightarrow> ix, w))) =
        Inr (ret, fault, (st', ix', w'))"
      using r E_ARRAY_TAG unfolding run_push_def by (simp add: if_not_P [OF False])
    then obtain v nx where v: "?cb = Inr (ret, v, nx, w')" "st' = Truth (v \<noteq> 0) # st" by (cases ?cb) auto
    have "P w' \<and> (s \<longrightarrow> ret = 0)" using k assms(2) v(1) unfolding callbacks_keep_def by blast
    with v(2) assms(3) show ?thesis by simp
  qed
qed (use assms in \<open>auto simp: run_push_def known_destination_def\<close>)


lemma run_op_keeps:
  assumes k: "callbacks_keep known P s cbs" and "P w" "dests_known known st" "known_destination known values e" "plain e"
    and r: "run_op cbs values e (st, ix, w) = Inr (ret, fault, (st', ix', w'))"
  shows "P w' \<and> dests_known known st' \<and> (s \<longrightarrow> ret = 0)"
proof (cases "eop e")
  case OP_PUSH
  with r show ?thesis by (intro run_push_keeps [OF k assms(2-4)]) (simp add: run_op_def)
next
  case OP_APPLY
  with r obtain d b vs where st: "st = Dest d # Truth b # vs" by (auto simp: run_op_def split: list.splits rvalue.splits)
  with OP_APPLY r have "bindr (apply_cbs cbs b d w) (\<lambda>(ret, w). Inr (ret, if ret \<noteq> 0 then FAULT_CRITICAL else FAULT_OK, (Truth b # vs, ix, w))) =
      Inr (ret, fault, (st', ix', w'))" by (simp add: run_op_def)
  then have a: "apply_cbs cbs b d w = Inr (ret, w')" "st' = Truth b # vs" by (cases "apply_cbs cbs b d w"; auto split: if_splits)+
  have "known d" using st assms(3) by simp
  with a(1) k assms(2) have "P w' \<and> (s \<longrightarrow> ret = 0)" unfolding callbacks_keep_def by blast
  with a(2) st assms(3) show ?thesis by simp
qed (use r assms(2,3,5) in \<open>auto simp: run_op_def plain_def split: list.splits rvalue.splits\<close>)

lemma run_keeps:
  assumes k: "callbacks_keep known P s cbs"
  shows "P w \<Longrightarrow> dests_known known st \<Longrightarrow> list_all plain es \<Longrightarrow> list_all (known_destination known values) es \<Longrightarrow>
    run cbs values es (st, ix, w) = Inr (ret, fault, w') \<Longrightarrow> P w' \<and> (s \<longrightarrow> ret = 0)"
proof (induction es arbitrary: st ix w)
  case Nil
  then show ?case by (auto split: if_splits)
next
  case (Cons e es)
  from Cons.prems(5) obtain r f st1 ix1 w1 where o: "run_op cbs values e (st, ix, w) = Inr (r, f, (st1, ix1, w1))"
    by (cases "run_op cbs values e (st, ix, w)") auto
  have k1: "P w1 \<and> dests_known known st1 \<and> (s \<longrightarrow> r = 0)"
    by (rule run_op_keeps [OF k Cons.prems(1,2) _ _ o]) (use Cons.prems(3,4) in simp_all)
  show ?case
  proof (cases "r = 0")
    case True
    with Cons.prems(5) o have "run cbs values es (st1, ix1, w1) = Inr (ret, fault, w')" by simp
    with Cons.IH [of w1 st1 ix1] k1 Cons.prems(3,4) show ?thesis by simp
  next
    case False
    with Cons.prems(5) o k1 show ?thesis by auto
  qed
qed

text \<open>The executor does not look at the value of a Boolean constant, so that FALSE may be read as TRUE.\<close>

definition as_true :: "element \<Rightarrow> element" where
  "as_true e = (if etype e = E_BOOL then e\<lparr>evalue := (evalue e)\<lparr>val := 1\<rparr>\<rparr> else e)"

lemma as_true_simps [simp]: "etype (as_true e) = etype e" "eop (as_true e) = eop e" "data_pos (evalue (as_true e)) = data_pos (evalue e)"
  "data_size (evalue (as_true e)) = data_size (evalue e)"
  by (simp_all add: as_true_def)

lemma execute_op_as_true: "execute_op cbs values (as_true e) s = execute_op cbs values e s"
proof (cases "eop e")
  case OP_PUSH
  then show ?thesis by (cases "etype e") (simp_all add: execute_op_def execute_push_def as_true_def)
qed (simp_all add: execute_op_def)

lemma execute_as_true: "rrr_discern_stack_execute (ds\<lparr>exe_list := map as_true (exe_list ds)\<rparr>) cbs w = rrr_discern_stack_execute ds cbs w"
proof -
  have "execute_loop cbs values (map as_true es) s = execute_loop cbs values es s" for "values" es s
    by (induction es arbitrary: s) (simp_all add: execute_op_as_true cong: if_cong)
  then show ?thesis by (simp add: rrr_discern_stack_execute_def)
qed

lemma program_as_true:
  assumes "program_ok ds"
  shows "program_ok (ds\<lparr>exe_list := map as_true (exe_list ds)\<rparr>)"
proof -
  have s: "type_step (as_true e) ts = type_step e ts" for e ts by (simp cong: operator_type.case_cong)
  have "typed (map as_true es) ts = typed es ts" for es ts by (induction es arbitrary: ts) (simp_all add: s del: type_step.simps cong: if_cong option.case_cong)
  moreover have "node_ok values (as_true e) = node_ok values e" for "values" e by (simp add: node_ok_def)
  ultimately show ?thesis using assms by (simp add: program_ok_def list_all_iff)
qed

lemma plain_as_true: "bails es = 0 \<Longrightarrow> list_all plain (map as_true es)"
  by (induction es) (auto simp: plain_def as_true_def split: if_splits)

text \<open>A callback that aborts does so for the whole program; otherwise it could as well return.\<close>

definition total_cb :: "('d \<Rightarrow> 'w \<Rightarrow> (c_int \<times> 'w) res) \<Rightarrow> 'd \<Rightarrow> 'w \<Rightarrow> (c_int \<times> 'w) res" where
  "total_cb f d w = (case f d w of Inl _ \<Rightarrow> Inr (1, w) | Inr x \<Rightarrow> Inr x)"

definition total_callbacks :: "'w discern_callbacks \<Rightarrow> 'w discern_callbacks" where
  "total_callbacks cbs = cbs\<lparr>apply_cb_false := map_option total_cb (apply_cb_false cbs), apply_cb_true := total_cb (apply_cb_true cbs)\<rparr>"

lemma total_resolve:
  "resolve_topic_filter_cb (total_callbacks cbs) = resolve_topic_filter_cb cbs" "resolve_array_tag_cb (total_callbacks cbs) = resolve_array_tag_cb cbs"
  by (simp_all add: total_callbacks_def)

lemma apply_total: "apply_cbs (total_callbacks cbs) b d w = total_cb (apply_cbs cbs b) d w"
  by (simp add: apply_cbs_def total_callbacks_def total_cb_def rrr_discern_stack_execute_apply_cb_dummy_def split: option.split)

lemma total_callbacks_return: "callbacks_return known cbs \<Longrightarrow> callbacks_return (\<lambda>_. True) (total_callbacks cbs)"
  unfolding callbacks_return_def apply_total by (auto simp: total_callbacks_def total_cb_def split: sum.splits)

text \<open>Callbacks for APPLY that stop the process only by a failed assertion.\<close>

definition asserts :: "'w discern_callbacks \<Rightarrow> bool" where
  "asserts cbs \<longleftrightarrow> (\<forall>b d w x. apply_cbs cbs b d w = Inl x \<longrightarrow> x = Assertion)"

lemma execute_total:
  assumes "asserts cbs"
  shows "rrr_discern_stack_execute ds cbs w = Inl Assertion \<or>
    rrr_discern_stack_execute ds cbs w = rrr_discern_stack_execute ds (total_callbacks cbs) w"
proof -
  have push: "execute_push (total_callbacks cbs) values e s = execute_push cbs values e s" for "values" e s
    by (simp only: execute_push_def total_resolve)
  have op: "execute_op cbs values e s = Inl Assertion \<or> execute_op cbs values e s = execute_op (total_callbacks cbs) values e s" for "values" e s
  proof (cases "eop e")
    case OP_APPLY
    show ?thesis
    proof (cases "get_e s (wpos s - 2)"; cases "get_e s (wpos s - 1)")
      fix a b
      assume ab: "get_e s (wpos s - 2) = Inr b" "get_e s (wpos s - 1) = Inr a"
      let ?ap = "apply_cbs cbs (val b AND 1 \<noteq> 0) (c_string (drop (unat (data_pos a)) values)) (world s)"
      show ?thesis
        using OP_APPLY ab assms [unfolded asserts_def]
        by (cases ?ap) (auto simp: execute_op_def apply_total total_cb_def)
    qed (use OP_APPLY in \<open>simp_all add: execute_op_def\<close>)
  qed (simp_all add: execute_op_def push)
  have "execute_loop cbs values es s = Inl Assertion \<or> execute_loop cbs values es s = execute_loop (total_callbacks cbs) values es s" for "values" es s
  proof (induction es arbitrary: s)
    case (Cons e es)
    from op [of "values" e s] show ?case
    proof
      assume o: "execute_op cbs values e s = execute_op (total_callbacks cbs) values e s"
      show ?thesis
      proof (cases "execute_op cbs values e s")
        case (Inr x)
        obtain r f s' where "x = (r, f, s')" by (cases x)
        with Inr o Cons.IH [of s'] show ?thesis by (auto simp: assertr_def)
      qed (use o in \<open>auto simp: assertr_def\<close>)
    qed (auto simp: assertr_def)
  qed simp
  from this [of "exe_values ds" "exe_list ds" "exec_start w"] show ?thesis by (auto simp: rrr_discern_stack_execute_def)
qed

lemma execute_bail:
  assumes "callbacks_return known cbs" "asserts cbs" "program_ok ds" "bails (exe_list ds) \<noteq> 0"
  shows "rrr_discern_stack_execute ds cbs w = Inl Assertion \<or> (\<exists>ret fault w'. rrr_discern_stack_execute ds cbs w = Inr (ret, fault, w') \<and> ret \<noteq> 0)"
proof -
  have "length (stack_e (exec_start w)) = 64" "unat (wpos (exec_start w)) = 0" by (simp_all add: exec_start_def RRR_DISCERN_STACK_MAX_def)
  with execute_loop_safe [OF total_callbacks_return [OF assms(1)], of "exe_values ds" "exe_list ds" "[]" "exec_start w" 0] assms(3,4)
  have "rrr_discern_stack_execute ds (total_callbacks cbs) w = Inl Assertion \<or>
      (\<exists>ret fault w'. rrr_discern_stack_execute ds (total_callbacks cbs) w = Inr (ret, fault, w') \<and> ret \<noteq> 0)"
    by (auto simp: program_ok_def rrr_discern_stack_execute_def)
  with execute_total [OF assms(2), of ds w] show ?thesis by auto
qed

text \<open>A collection of programs that can run with these callbacks.\<close>

lemma collection_keeps:
  assumes "callbacks_return known cbs" "callbacks_keep known P s cbs" "asserts cbs"
  shows "(\<And>ds. ds \<in> set routes \<Longrightarrow> program_ok ds \<and> list_all (known_destination known (exe_values ds)) (exe_list ds)) \<Longrightarrow>
    P w \<Longrightarrow>
    (\<exists>ret fault' w'. collection_execute routes cbs fault w = Inr (ret, fault', w') \<and> (ret = 0 \<longrightarrow> P w') \<and>
       (s \<and> (\<forall>ds \<in> set routes. bails (exe_list ds) = 0) \<longrightarrow> ret = 0)) \<or>
    collection_execute routes cbs fault w = Inl Assertion \<and> (\<exists>ds \<in> set routes. bails (exe_list ds) \<noteq> 0)"
proof (induction routes arbitrary: fault w)
  case (Cons ds routes)
  have d: "program_ok ds" "list_all (known_destination known (exe_values ds)) (exe_list ds)" using Cons.prems(1) by auto
  show ?case
  proof (cases "bails (exe_list ds) = 0")
    case True
    let ?ds = "ds\<lparr>exe_list := map as_true (exe_list ds)\<rparr>"
    have k: "list_all (known_destination known (exe_values ?ds)) (exe_list ?ds)"
      using d(2) by (simp add: list_all_iff known_destination_def)
    have pl: "list_all plain (exe_list ?ds)" using plain_as_true [OF True] by simp
    from execute_run [OF assms(1) program_as_true [OF d(1)] pl k, of w] obtain ret fault1 w1 where
      e: "rrr_discern_stack_execute ds cbs w = Inr (ret, fault1, w1)"
      "run cbs (exe_values ?ds) (exe_list ?ds) ([], [], w) = Inr (ret, fault1, w1)" unfolding execute_as_true by blast
    have k: "P w1 \<and> (s \<longrightarrow> ret = 0)" by (rule run_keeps [OF assms(2) Cons.prems(2) _ pl k e(2)]) simp
    show ?thesis
    proof (cases "ret = 0")
      case True
      with Cons.IH [of w1 fault1] Cons.prems(1) e(1) k show ?thesis by auto
    qed (use e(1) k in auto)
  next
    case False
    with execute_bail [OF assms(1,3) d(1) False, of w] show ?thesis by auto
  qed
qed simp

subsection \<open>The callbacks of a route\<close>

text \<open>A message: the topic is followed by a byte that is no dollar sign.\<close>

definition message_topic :: "route_message \<Rightarrow> u8 list" where
  "message_topic msg = take (unat (msg_topic_length msg)) (msg_data msg)"

definition message_ok :: "route_message \<Rightarrow> bool" where
  "message_ok msg \<longleftrightarrow> unat (msg_topic_length msg) < length (msg_data msg) \<and> msg_data msg ! unat (msg_topic_length msg) \<noteq> dollar"

lemma message_split:
  assumes "message_ok msg"
  shows "\<exists>x r. msg_data msg = message_topic msg @ x # r \<and> x \<noteq> dollar" "length (message_topic msg) = unat (msg_topic_length msg)"
  using assms id_take_nth_drop [of "unat (msg_topic_length msg)" "msg_data msg"] by (auto simp: message_ok_def message_topic_def)

lemma topic_cb_exact:
  assumes "message_ok msg" "rrr_mqtt_topic_filter_validate_name f = 0" "0 \<notin> set f" "f \<noteq> []"
  shows "rrr_discern_stack_helper_topic_filter_resolve_cb (msg_data msg) (msg_topic_length msg) (f @ 0 # r) (of_nat (length f + 1)) =
    Inr (0, of_bool (message_topic msg \<noteq> [] \<and> topic_matches (levels f) (levels (message_topic msg))))"
proof (cases "message_topic msg = []")
  case True
  with message_split(2) [OF assms(1)] show ?thesis
    by (simp add: rrr_discern_stack_helper_topic_filter_resolve_cb_def unat_eq_zero)
next
  case False
  from message_split [OF assms(1)] obtain x r' where d: "msg_data msg = message_topic msg @ x # r'" "x \<noteq> dollar"
    "unat (msg_topic_length msg) = length (message_topic msg)" by auto
  have "length f \<le> 0xffff" using validate_filter_exact [OF assms(3)] assms(2) by simp
  then have u: "unat (of_nat (length f + 1) - 1 :: rrr_length) = length f" by (simp add: unat_of_nat)
  have n: "msg_topic_length msg \<noteq> 0" using d(3) False by auto
  from linear_match_exact [OF assms(2,3,4) False d(2), of r' r] n False show ?thesis
    unfolding rrr_discern_stack_helper_topic_filter_resolve_cb_def u d(3) by (subst d(1)) (simp add: match_code_def token_defs)
qed

lemma index_entries_ok: "\<exists>is. index_entries tags = Inr is"
  by (induction tags) (auto simp: RRR_DISCERN_STACK_FIRST_LAST_INDEX_def)

lemma tag_cb_ok:
  "\<exists>ret v ix p. rrr_discern_stack_helper_array_tag_resolve_cb ok msg tag produced = Inr (ret, v, ix, p) \<and> v \<in> {0, 1} \<and>
     (ok \<and> fst (msg_array msg) = 0 \<longrightarrow> ret = 0)"
  using index_entries_ok [of "snd (msg_array msg)"]
  by (auto simp: rrr_discern_stack_helper_array_tag_resolve_cb_def Let_def split: prod.splits)

lemma route_callbacks_return:
  assumes "message_ok msg" "\<And>d. known d \<Longrightarrow> rrr_instance_find instances d \<noteq> None"
  shows "callbacks_return known (route_callbacks instances mem msg)"
proof -
  have "\<exists>ret v w'. resolve_topic_filter_cb (route_callbacks instances mem msg) (f @ 0 # r) (of_nat (length f + 1)) w = Inr (ret, v, w') \<and> v \<in> {0, 1}"
    if "f \<noteq> []" "0 \<notin> set f" "rrr_mqtt_topic_filter_validate_name f = 0" for f r w
    using topic_cb_exact [OF assms(1) that(3,2,1), of r] by (simp add: route_callbacks_def)
  moreover have "\<exists>ret v ix w'. resolve_array_tag_cb (route_callbacks instances mem msg) tag w = Inr (ret, v, ix, w') \<and> v \<in> {0, 1}" for tag w
    using tag_cb_ok [of "mem (allocs w)" msg tag "index_produced w"] by (auto simp: route_callbacks_def)
  moreover have "\<exists>ret w'. apply_cbs (route_callbacks instances mem msg) b d w = Inr (ret, w')" if "known d" for b d w
    using assms(2) [OF that] by (auto simp: route_callbacks_def apply_cbs_def rrr_instance_message_broker_entry_postprocess_apply_false_cb_def
        rrr_instance_message_broker_entry_postprocess_apply_true_cb_def split: prod.splits)
  ultimately show ?thesis unfolding callbacks_return_def by blast
qed


text \<open>The instances that have \<open>self\<close> as a sender, and the destinations that stand for one.\<close>

definition reader :: "inst list \<Rightarrow> nat \<Rightarrow> u8 list \<Rightarrow> bool" where
  "reader instances self d \<longleftrightarrow> (\<exists>i. rrr_instance_find instances d = Some i \<and> rrr_instance_has_sender instances i self)"

definition hops_ok :: "inst list \<Rightarrow> nat \<Rightarrow> route_world \<Rightarrow> bool" where
  "hops_ok instances self w \<longleftrightarrow> distinct (members (hops w)) \<and> (\<forall>i \<in> set (members (hops w)). rrr_instance_has_sender instances i self)"

lemma apply_keeps:
  assumes "hops_ok instances self w" "reader instances self d" "apply_cbs (route_callbacks instances mem msg) b d w = Inr (ret, w')"
  shows "hops_ok instances self w' \<and> ((\<forall>n. mem n) \<longrightarrow> ret = 0)"
proof -
  obtain i where i: "rrr_instance_find instances d = Some i" "rrr_instance_has_sender instances i self"
    using assms(2) by (auto simp: reader_def)
  let ?h = "rrr_instance_friend_collection_remove (hops w) i"
  have h: "distinct (members ?h)" "set (members ?h) \<subseteq> set (members (hops w))" "i \<notin> set (members ?h)"
    using assms(1) by (auto simp: remove_members hops_ok_def set_remove1_eq)
  show ?thesis
  proof (cases b)
    case True
    obtain r hs where a: "rrr_instance_friend_collection_append (mem (allocs w)) ?h i NULL = (r, hs)" by fastforce
    with append_ok [OF h(1), where ok = "mem (allocs w)" and i = i and p = NULL] h(3)
    have m: "distinct (members hs)" "r = 0 \<and> members hs = members ?h @ [i] \<or> hs = ?h \<and> \<not> mem (allocs w)" by auto
    have sub: "set (members hs) \<subseteq> insert i (set (members ?h))" and r: "r = 0 \<or> \<not> mem (allocs w)"
      using m(2) by (elim disjE conjE; auto simp del: set_map)+
    have "\<forall>j \<in> set (members (hops w)). rrr_instance_has_sender instances j self" using assms(1) by (simp add: hops_ok_def)
    with sub h(2) i(2) have "\<forall>j \<in> set (members hs). rrr_instance_has_sender instances j self" by blast
    with m(1) True assms(3) i(1) a r show ?thesis
      by (auto simp: apply_cbs_def route_callbacks_def rrr_instance_message_broker_entry_postprocess_apply_true_cb_def hops_ok_def)
  next
    case False
    have "\<forall>j \<in> set (members ?h). rrr_instance_has_sender instances j self" using assms(1) h(2) unfolding hops_ok_def by blast
    with False assms(3) i(1) h(1) show ?thesis
      by (auto simp: apply_cbs_def route_callbacks_def rrr_instance_message_broker_entry_postprocess_apply_false_cb_def hops_ok_def)
  qed
qed

text \<open>No allocation fails, and the array in the message is valid.\<close>

definition smooth :: "(nat \<Rightarrow> bool) \<Rightarrow> route_message \<Rightarrow> bool" where
  "smooth mem msg \<longleftrightarrow> (\<forall>n. mem n) \<and> fst (msg_array msg) = 0"

lemma route_callbacks_keep:
  "callbacks_keep (reader instances self) (hops_ok instances self) (smooth mem msg) (route_callbacks instances mem msg)"
proof -
  have "hops_ok instances self w' \<and> (smooth mem msg \<longrightarrow> ret = 0)"
    if "hops_ok instances self w" "resolve_topic_filter_cb (route_callbacks instances mem msg) f n w = Inr (ret, v, w')" for f n w ret v w'
    using that by (auto simp: route_callbacks_def rrr_discern_stack_helper_topic_filter_resolve_cb_def bindr_eq_Inr split: if_splits)
  moreover have "hops_ok instances self w' \<and> (smooth mem msg \<longrightarrow> ret = 0)"
    if "hops_ok instances self w" "resolve_array_tag_cb (route_callbacks instances mem msg) tag w = Inr (ret, v, ix, w')" for tag w ret v ix w'
    using that tag_cb_ok [of "mem (allocs w)" msg tag "index_produced w"] by (auto simp: route_callbacks_def hops_ok_def smooth_def)
  moreover have "hops_ok instances self w' \<and> (smooth mem msg \<longrightarrow> ret = 0)"
    if "hops_ok instances self w" "reader instances self d" "apply_cbs (route_callbacks instances mem msg) b d w = Inr (ret, w')" for b d w ret w'
    using apply_keeps [OF that] by (simp add: smooth_def)
  ultimately show ?thesis unfolding callbacks_keep_def by blast
qed

lemma route_apply_aborts: "asserts (route_callbacks instances mem msg)"
  by (auto simp: asserts_def apply_cbs_def route_callbacks_def rrr_instance_message_broker_entry_postprocess_apply_false_cb_def
      rrr_instance_message_broker_entry_postprocess_apply_true_cb_def split: if_splits option.splits prod.splits)

lemma destinations_checked:
  "iterate_destinations (rrr_instance_iterate_route_instances_callback instances self name) values es () = (0, ()) \<Longrightarrow>
   list_all (known_destination (reader instances self) values) es"
  by (induction es)
    (auto simp: known_destination_def rrr_instance_iterate_route_instances_callback_def reader_def rrr_instance_has_sender_def
      split: if_splits option.splits)

lemma routes_checked:
  "rrr_discern_stack_collection_iterate_destination_names (rrr_instance_iterate_route_instances_callback instances self) routes () = (0, ()) \<Longrightarrow>
   ds \<in> set routes \<Longrightarrow> list_all (known_destination (reader instances self) (exe_values ds)) (exe_list ds)"
proof (induction routes)
  case (Cons d routes)
  let ?x = "iterate_destinations (rrr_instance_iterate_route_instances_callback instances self (dname d)) (exe_values d) (exe_list d) ()"
  obtain r u where r: "?x = (r, u)" by (cases ?x)
  with Cons.prems(1) have "r = 0"
    "rrr_discern_stack_collection_iterate_destination_names (rrr_instance_iterate_route_instances_callback instances self) routes () = (0, ())"
    by (auto split: if_splits)
  with Cons r destinations_checked [of instances self "dname d" "exe_values d" "exe_list d"] show ?case by auto
qed simp


subsection \<open>Properties\<close>

text \<open>A program that reading a definition has added to a collection.\<close>

definition configured :: "discern_stack \<Rightarrow> bool" where
  "configured ds \<longleftrightarrow> (\<exists>fuel ok ok' mem target fault p name fault' p'. text_ok p \<and> unat (psize p) < 2 ^ 26 \<and> unat (psize p) < fuel \<and>
     rrr_discern_stack_interpret fuel ok ok' mem target fault p name = Inr (0, target @ [ds], fault', p'))"

lemma configured_ok: "configured ds \<Longrightarrow> program_ok ds"
proof -
  assume "configured ds"
  then obtain fuel ok ok' mem target fault p name fault' p' where
    p: "text_ok p" "unat (psize p) < 2 ^ 26" "unat (psize p) < fuel"
    "rrr_discern_stack_interpret fuel ok ok' mem target fault p name = Inr (0, target @ [ds], fault', p')"
    unfolding configured_def by blast
  from interpret_ok [OF p(1-3), of ok ok' mem target fault name] p(4) show "program_ok ds" by auto
qed

lemma nexthops_set_members:
  assumes "distinct (members hs)" "rrr_msg_holder_nexthops_set mem e (Some hs) = (ret, e')"
  shows "set (members (nexthops e')) \<subseteq> set (members hs) \<and> ((\<forall>n. mem n) \<longrightarrow> ret = 0 \<and> e' = e\<lparr>nexthops := hs\<rparr>)"
proof (cases "hs = []")
  case True
  with assms(2) show ?thesis
    by (auto simp: rrr_msg_holder_nexthops_set_def rrr_msg_holder_nexthops_reset_def rrr_instance_friend_collection_clear_def)
next
  case False
  from append_from_copies [of "[]" hs mem 0] assms(1)
  consider c where "rrr_instance_friend_collection_append_from mem 0 [] hs = (1, take c hs)" "\<not> mem c"
    | "rrr_instance_friend_collection_append_from mem 0 [] hs = (0, hs)" by auto
  then show ?thesis
  proof cases
    case 1
    with False assms(2) have "nexthops e' = take c hs" by (auto simp: rrr_msg_holder_nexthops_set_def rrr_msg_holder_nexthops_reset_def
        rrr_instance_friend_collection_clear_def Let_def)
    with 1(2) show ?thesis by (auto dest: in_set_takeD)
  next
    case 2
    with False assms(2) show ?thesis
      by (auto simp: rrr_msg_holder_nexthops_set_def rrr_msg_holder_nexthops_reset_def rrr_instance_friend_collection_clear_def)
  qed
qed

text \<open>
  Claim C4: routing as a whole. The routes of an instance have been read by the parser, the
  check of their destinations has passed, and the topic of the message is followed by a byte that is no dollar sign. Then the callback that runs on every message
  the instance writes returns, or, only when a route contains the operator BAIL, it fails an assertion; nothing is accessed out of bounds, and without
  BAIL no assertion fails, in particular not that a destination exists. It adds only
  instances to the next hops that read from this instance. If no route contains BAIL it returns an error only if an allocation fails or the array in the message is invalid.
\<close>

theorem route_reaches_readers:
  assumes "\<forall>ds \<in> set routes. configured ds"
    and "rrr_discern_stack_collection_iterate_destination_names (rrr_instance_iterate_route_instances_callback instances self) routes () = (0, ())"
    and "message_ok msg"
  shows "(\<exists>ret e'. rrr_instance_message_broker_entry_postprocess_callback instances routes mem msg e = Inr (ret, e') \<and>
      (\<forall>i \<in> set (members (nexthops e')). i \<in> set (members (nexthops e)) \<or> rrr_instance_has_sender instances i self) \<and>
      (smooth mem msg \<and> (\<forall>ds \<in> set routes. bails (exe_list ds) = 0) \<longrightarrow> ret = 0)) \<or>
    rrr_instance_message_broker_entry_postprocess_callback instances routes mem msg e = Inl Assertion \<and>
      (\<exists>ds \<in> set routes. bails (exe_list ds) \<noteq> 0)"
proof -
  let ?cbs = "route_callbacks instances mem msg" and ?w = "\<lparr>hops = [], allocs = 0, index_produced = False\<rparr>"
  let ?quiet = "\<forall>ds \<in> set routes. bails (exe_list ds) = 0"
  have "callbacks_return (reader instances self) ?cbs"
    by (rule route_callbacks_return [OF assms(3)]) (auto simp: reader_def)
  note keeps = collection_keeps [OF this route_callbacks_keep route_apply_aborts]
  have w: "hops_ok instances self ?w" by (simp add: hops_ok_def)
  have p: "program_ok ds \<and> list_all (known_destination (reader instances self) (exe_values ds)) (exe_list ds)" if "ds \<in> set routes" for ds
    using that assms(1) configured_ok routes_checked [OF assms(2)] by blast
  have "(\<exists>ret fault w'. collection_execute routes ?cbs FAULT_OK ?w = Inr (ret, fault, w') \<and> (ret = 0 \<longrightarrow> hops_ok instances self w') \<and>
      (smooth mem msg \<and> ?quiet \<longrightarrow> ret = 0)) \<or> collection_execute routes ?cbs FAULT_OK ?w = Inl Assertion \<and> \<not> ?quiet"
    using keeps [where routes = routes and fault = FAULT_OK and w = ?w, OF p w] by simp
  then consider ret fault w' where
      "collection_execute routes ?cbs FAULT_OK ?w = Inr (ret, fault, w')" "ret = 0 \<longrightarrow> hops_ok instances self w'" "smooth mem msg \<and> ?quiet \<longrightarrow> ret = 0"
    | "collection_execute routes ?cbs FAULT_OK ?w = Inl Assertion" "\<not> ?quiet" by blast
  then show ?thesis
  proof cases
    case (1 ret fault w')
    let ?m = "\<lambda>n. mem (allocs w' + n)"
    obtain r2 e2 where e2: "rrr_msg_holder_nexthops_set ?m e (Some (hops w')) = (r2, e2)" by (cases "rrr_msg_holder_nexthops_set ?m e (Some (hops w'))")
    have e: "(\<forall>i \<in> set (members (nexthops e2)). rrr_instance_has_sender instances i self) \<and> (smooth mem msg \<longrightarrow> r2 = 0)" if "ret = 0"
    proof -
      have d: "distinct (members (hops w'))" "\<forall>i \<in> set (members (hops w')). rrr_instance_has_sender instances i self"
        using 1(2) that by (simp_all add: hops_ok_def)
      show ?thesis using nexthops_set_members [OF d(1) e2] d(2) unfolding smooth_def by blast
    qed
    have "rrr_instance_message_broker_entry_postprocess_callback instances routes mem msg e =
        Inr (if routes = [] then (0, e) else if ret \<noteq> 0 then (ret, e) else if hops w' \<noteq> [] then (r2, e2) else (0, e))"
      using 1(1) e2 by (simp add: rrr_instance_message_broker_entry_postprocess_callback_def rrr_discern_stack_collection_execute_def)
    with e 1(3) show ?thesis by auto
  next
    case 2
    then have "routes \<noteq> []" by auto
    with 2 show ?thesis by (simp add: rrr_instance_message_broker_entry_postprocess_callback_def rrr_discern_stack_collection_execute_def)
  qed
qed

definition demo_message :: route_message where
  "demo_message = \<lparr>msg_data = [0x61, 0], msg_topic_length = 1, msg_is_array = False, msg_array = (0, [])\<rparr>"

definition demo_entry :: msg_holder where
  "demo_entry = payload (demo_holder NULL NULL 0)"

lemma demo_configured: "\<exists>ds. configured ds \<and> exe_list ds = demo_elements"
proof -
  obtain ds p' where i: "rrr_discern_stack_interpret 10 True True (\<lambda>_ _. True) [] FAULT_OK demo_definition [] = Inr (0, [ds], FAULT_OK, p')"
    "exe_list ds = demo_elements" using demo_interpret by blast
  have "text_ok demo_definition \<and> unat (psize demo_definition) < 2 ^ 26 \<and> unat (psize demo_definition) < 10 \<and>
     rrr_discern_stack_interpret 10 True True (\<lambda>_ _. True) [] FAULT_OK demo_definition [] = Inr (0, [] @ [ds], FAULT_OK, p')"
    using i(1) demo_definition_ok by simp
  then have "configured ds" unfolding configured_def by (intro exI)
  with i(2) show ?thesis by blast
qed

theorem route_reaches_readers_witness:
  "\<exists>ds. configured ds \<and> exe_list ds = demo_elements \<and>
     (\<exists>e'. rrr_instance_message_broker_entry_postprocess_callback [] [ds] (\<lambda>_. True) demo_message demo_entry = Inr (0, e'))"
proof -
  obtain ds where ds: "configured ds" "exe_list ds = demo_elements" using demo_configured by blast
  have "\<forall>ds \<in> set [ds]. configured ds" "\<forall>ds \<in> set [ds]. bails (exe_list ds) = 0" using ds by (simp_all add: demo_elements_def)
  moreover have "rrr_discern_stack_collection_iterate_destination_names (rrr_instance_iterate_route_instances_callback [] 0) [ds] () = (0, ())"
    using ds(2) by (simp add: demo_elements_def)
  moreover have "message_ok demo_message" "smooth (\<lambda>_. True) demo_message" by (simp_all add: message_ok_def smooth_def demo_message_def)
  ultimately have "\<exists>e'. rrr_instance_message_broker_entry_postprocess_callback [] [ds] (\<lambda>_. True) demo_message demo_entry = Inr (0, e')"
    using route_reaches_readers [of "[ds]" "[]" 0 demo_message "\<lambda>_. True" demo_entry] by auto
  with ds show ?thesis by blast
qed

text \<open>What a reader with or without a topic filter of its own, which may be inverted, makes of a topic.\<close>

definition wants :: "u8 list list option \<Rightarrow> bool \<Rightarrow> u8 list \<Rightarrow> bool" where
  "wants topic_filter invert topic = (case topic_filter of None \<Rightarrow> True | Some token \<Rightarrow> topic_matches token (levels topic) \<noteq> invert)"

lemma reader_filter:
  assumes "message_topic msg \<noteq> []" "unat (msg_topic_length msg) = length (message_topic msg)" "\<forall>n. mem n"
    and "filter_ok token" "rrr_mqtt_topic_validate_name_with_end (message_topic msg) = Inr 0" "0 \<notin> set (message_topic msg)"
  shows "rrr_poll_intermediate_callback_topic_filter mem msg token = Inr (0, topic_matches token (levels (message_topic msg)))"
proof -
  have "length (message_topic msg) < 2 ^ 16" using unat_bound [of "msg_topic_length msg"] assms(2) by simp
  then have "length (message_topic msg) < RRR_LENGTH_MAX" by (simp add: RRR_LENGTH_MAX_def)
  from tokenize_levels [OF assms(1,6) this, of mem 0] assms(3)
  have t: "rrr_mqtt_topic_tokenize_with_end mem 0 (message_topic msg) = Inr (0, levels (message_topic msg))" by (simp add: with_memory_def)
  have "0 < unat (msg_topic_length msg)" using assms(1,2) by simp
  then have "0 < msg_topic_length msg" by (simp add: word_less_nat_alt)
  with t assms(5) match_tokens_spec [OF assms(4)] show ?thesis
    by (simp add: rrr_poll_intermediate_callback_topic_filter_def rrr_message_helper_topic_match_def rrr_msg_msg_topic_match_def
        token_defs flip: message_topic_def)
qed

text \<open>
  Claim C5: routing by topic, up to the readers. A program made of one topic filter, one destination, APPLY and POP, well typed as the parser makes
  them, is the only route of an instance, its destination exists, no allocation fails, and the message has a topic, followed by a byte that is no dollar sign.
  If the levels of the filter match those of the topic, then the instance of that name becomes the only next hop, in place of any that were set; otherwise the
  next hops stay as they were. A reader is handed the message exactly if it wants the topic and is a next hop, or there are none.
  A reader that is not handed the message unlocks it and returns 0. For a reader with a topic filter of its own the topic has to be a valid one without NUL byte.
\<close>

theorem route_by_topic:
  assumes "program_ok ds" "map (\<lambda>e. (etype e, eop e)) (exe_list ds) =
      [(E_TOPIC_FILTER, OP_PUSH), (E_DESTINATION, OP_PUSH), (E_NONE, OP_APPLY), (E_NONE, OP_POP)]"
    and "string_at (exe_values ds) (data_pos (evalue (exe_list ds ! 0))) f" "string_at (exe_values ds) (data_pos (evalue (exe_list ds ! 1))) d"
    and "rrr_instance_find instances d = Some i" "message_ok msg" "message_topic msg \<noteq> []" "\<forall>n. mem n" "\<forall>n. mem' n"
    and "\<forall>token. topic_filter = Some token \<longrightarrow> filter_ok token \<and> rrr_mqtt_topic_validate_name_with_end (message_topic msg) = Inr 0 \<and> 0 \<notin> set (message_topic msg)"
  shows "\<exists>e'. rrr_instance_message_broker_entry_postprocess_callback instances [ds] mem msg e = Inr (0, e') \<and>
    members (nexthops e') = (if topic_matches (levels f) (levels (message_topic msg)) then [i] else members (nexthops e)) \<and>
    (\<forall>h entry n. load h entry = Inr n \<and> nexthops (payload n) = nexthops e' \<longrightarrow>
       rrr_poll_intermediate_callback mem' j topic_filter invert callback msg h entry =
         (if wants topic_filter invert (message_topic msg) \<and>
            (if topic_matches (levels f) (levels (message_topic msg)) then j = i else nexthops e = [] \<or> j \<in> set (members (nexthops e)))
          then callback h entry
          else bindr (rrr_msg_holder_unlock h entry) (\<lambda>h. Inr (0, h))))"
proof -
  let ?cbs = "route_callbacks instances mem msg" and ?w = "\<lparr>hops = [], allocs = 0, index_produced = False\<rparr>"
  let ?v = "exe_values ds" and ?t = "topic_matches (levels f) (levels (message_topic msg))"
  obtain e1 e2 e3 e4 where es: "exe_list ds = [e1, e2, e3, e4]" "etype e1 = E_TOPIC_FILTER" "eop e1 = OP_PUSH"
    "etype e2 = E_DESTINATION" "eop e2 = OP_PUSH" "etype e3 = E_NONE" "eop e3 = OP_APPLY" "etype e4 = E_NONE" "eop e4 = OP_POP"
    using assms(2) by (auto simp: map_eq_Cons_conv)
  have s: "string_at ?v (data_pos (evalue e1)) f" "c_string (drop (unat (data_pos (evalue e2))) ?v) = d"
    using assms(3,4) es(1) by (simp_all add: c_string_at)
  have "node_ok ?v e1" using assms(1) es(1) by (simp add: program_ok_def)
  then obtain str where str: "string_at ?v (data_pos (evalue e1)) str" "data_size (evalue e1) = of_nat (length str + 1)"
    "rrr_mqtt_topic_filter_validate_name str = 0" using es(2,3) by (auto simp: node_ok_def)
  have "str = f" using c_string_at [OF str(1)] c_string_at [OF s(1)] by simp
  with str s(1) obtain r where f: "drop (unat (data_pos (evalue e1))) ?v = f @ 0 # r" "f \<noteq> []" "0 \<notin> set f"
    "data_size (evalue e1) = of_nat (length f + 1)" "rrr_mqtt_topic_filter_validate_name f = 0" by (auto simp: string_at_def)
  have cb: "resolve_topic_filter_cb ?cbs (f @ 0 # r) (of_nat (length f + 1)) w = Inr (0, of_bool ?t, w)" for w
    using topic_cb_exact [OF assms(6) f(5,3,2), of r] assms(7) by (simp add: route_callbacks_def)
  have ap: "apply_cbs ?cbs b d ?w = Inr (0, if b then ?w\<lparr>hops := [\<lparr>finstance = i, parameter = NULL\<rparr>], allocs := 1\<rparr> else ?w)" for b
    using assms(5,8) by (simp add: apply_cbs_def route_callbacks_def rrr_instance_message_broker_entry_postprocess_apply_true_cb_def
        rrr_instance_message_broker_entry_postprocess_apply_false_cb_def rrr_instance_friend_collection_append_def)
  let ?w' = "if ?t then ?w\<lparr>hops := [\<lparr>finstance = i, parameter = NULL\<rparr>], allocs := 1\<rparr> else ?w"
  have "run ?cbs ?v (exe_list ds) ([], [], ?w) = Inr (0, FAULT_OK, ?w')"
    using es s(2) f(1,4) cb ap by (simp add: run_op_def run_push_def)
  moreover have "callbacks_return (\<lambda>x. x = d) ?cbs" by (rule route_callbacks_return [OF assms(6)]) (use assms(5) in auto)
  moreover have "list_all plain (exe_list ds)" "list_all (known_destination (\<lambda>x. x = d) ?v) (exe_list ds)"
    using es s(2) by (simp_all add: plain_def known_destination_def)
  ultimately have "rrr_discern_stack_execute ds ?cbs ?w = Inr (0, FAULT_OK, ?w')"
    using execute_run [OF _ assms(1), of "\<lambda>x. x = d" ?cbs ?w] by auto
  then have "rrr_instance_message_broker_entry_postprocess_callback instances [ds] mem msg e =
      Inr (0, if ?t then e\<lparr>nexthops := [\<lparr>finstance = i, parameter = NULL\<rparr>]\<rparr> else e)"
    using assms(8)
    by (simp add: rrr_instance_message_broker_entry_postprocess_callback_def rrr_discern_stack_collection_execute_def rrr_msg_holder_nexthops_set_def
        rrr_msg_holder_nexthops_reset_def rrr_instance_friend_collection_clear_def rrr_instance_friend_collection_append_def)
  moreover have "rrr_poll_intermediate_callback mem' j topic_filter invert callback msg h entry =
      (if wants topic_filter invert (message_topic msg) \<and> rrr_msg_holder_nexthop_ok (payload n) j then callback h entry
       else bindr (rrr_msg_holder_unlock h entry) (\<lambda>h. Inr (0, h)))" if "load h entry = Inr n" for h entry n
  proof (cases topic_filter)
    case (Some token)
    with assms(10) have "rrr_poll_intermediate_callback_topic_filter mem' msg token = Inr (0, topic_matches token (levels (message_topic msg)))"
      by (intro reader_filter [OF assms(7) message_split(2) [OF assms(6), symmetric] assms(9)]) auto
    with Some that show ?thesis
      by (simp add: rrr_poll_intermediate_callback_def rrr_poll_intermediate_callback_nexthop_check_def wants_def)
  qed (simp add: that rrr_poll_intermediate_callback_def rrr_poll_intermediate_callback_nexthop_check_def wants_def)
  ultimately show ?thesis
    by (simp add: rrr_msg_holder_nexthop_ok_def rrr_instance_friend_collection_check_empty_def check_exists_iff)
qed

definition demo_instances :: "inst list" where
  "demo_instances = [\<lparr>iname = Some [0x73], isenders = []\<rparr>, \<lparr>iname = Some [0x64], isenders = [\<lparr>finstance = 0, parameter = NULL\<rparr>]\<rparr>]"

theorem route_by_topic_witness:
  "\<exists>e'. rrr_instance_message_broker_entry_postprocess_callback demo_instances [demo_program] (\<lambda>_. True) demo_message demo_entry = Inr (0, e') \<and>
     members (nexthops e') = [1] \<and>
     (\<forall>h entry n. load h entry = Inr n \<and> nexthops (payload n) = nexthops e' \<longrightarrow>
       rrr_poll_intermediate_callback (\<lambda>_. True) 1 None False (\<lambda>h p. Inr (5, h)) demo_message h entry = Inr (5, h))"
proof -
  have "string_at (exe_values demo_program) (data_pos (evalue (exe_list demo_program ! 0))) [0x61]"
    "string_at (exe_values demo_program) (data_pos (evalue (exe_list demo_program ! 1))) [0x64]"
    by (simp_all add: demo_defs string_at_def)
  moreover have "map (\<lambda>e. (etype e, eop e)) (exe_list demo_program) =
      [(E_TOPIC_FILTER, OP_PUSH), (E_DESTINATION, OP_PUSH), (E_NONE, OP_APPLY), (E_NONE, OP_POP)]" by (simp add: demo_defs)
  moreover have "rrr_instance_find demo_instances [0x64] = Some 1" by (simp add: demo_instances_def rrr_instance_find_def)
  moreover have "message_ok demo_message" "message_topic demo_message = [0x61]"
    by (simp_all add: message_ok_def message_topic_def demo_message_def)
  moreover have "topic_matches (levels [0x61]) (levels [0x61])" by (simp add: topic_matches_simps level_matches_def)
  moreover have "wants None False [0x61]" by (simp add: wants_def)
  ultimately show ?thesis
    using route_by_topic [OF demo_programs_ok(1), of "[0x61]" "[0x64]" demo_instances 1 demo_message "\<lambda>_. True" "\<lambda>_. True" None demo_entry 1 False "\<lambda>h p. Inr (5, h)"]
    by simp
qed

end
