(* ===== verification/Spec2Isabelle.thy ===== *)
theory Spec2Isabelle
  imports RRR_Types RRR_Linked_List RRR_Msg_Holder RRR_Fifo_Write RRR_Fifo_Read RRR_Mqtt_Id_Pool RRR_Msg_Slot RRR_Base64 RRR_Parse RRR_Utf8 RRR_Mqtt_Topic RRR_Mqtt_Acl
    RRR_Instance_Friends RRR_Discern_Stack RRR_Discern_Parse RRR_Routing
begin

text \<open>
  A verification library for the core of \<^verbatim>\<open>rrr\<close> (Read Route Record), a daemon in C that moves messages between
  instances. All paths below are relative to \<^verbatim>\<open>src/lib/\<close> of the repository.

  \<^bold>\<open>The program.\<close> A configuration connects instances of modules; an instance reads messages from its senders. A message
  travels in a reference counted holder (\<^verbatim>\<open>message_holder/message_holder.c\<close>). The writing instance puts holders in a queue (\<^verbatim>\<open>fifo.c\<close>)
  or, without a buffer, in a slot for one message (\<^verbatim>\<open>message_holder/message_holder_slot.c\<close>), after its route definitions have
  chosen the next hops (\<^verbatim>\<open>discern_stack.c\<close>, \<^verbatim>\<open>instances.c\<close>, \<^verbatim>\<open>instance_friends.c\<close>); a reading instance takes the messages for which it is a next hop
  and whose topic its filter matches (\<^verbatim>\<open>poll_helper.c\<close>, \<^verbatim>\<open>mqtt/mqtt_topic.c\<close>). The definitions are read with the text scanner
  (\<^verbatim>\<open>parse.c\<close>). The MQTT broker gives out packet identifiers (\<^verbatim>\<open>mqtt/mqtt_id_pool.c\<close>) and controls the access to topics
  (\<^verbatim>\<open>mqtt/mqtt_acl.c\<close>). All of it stands on the intrusive list (\<^verbatim>\<open>util/linked_list.h\<close>) and the checked arithmetic (\<^verbatim>\<open>rrr_types.h\<close>).

  \<^bold>\<open>Conventions.\<close> A C function is a HOL function of the same name, without leading underscores; a loop or a switch inside it may be a definition
  of its own. Its result is of the type \<open>'a res\<close> when it can stop the process: \<open>Inl\<close> is
  \<^verbatim>\<open>RRR_BUG\<close>, a failed assertion, a bad access, signed overflow or fuel that is used up, and \<open>Inr\<close> holds the return value and what the function has
  changed. Return codes are values. Memory is a heap of records where pointers matter (lists, holders, the queue, the slot), and a value
  otherwise. Integers have their width. Callbacks are functions on a world that they may change. Allocations
  succeed or fail as a parameter says, so that the paths for lack of memory are part of the model.

  \<^bold>\<open>The theories.\<close>
  \<^item> \<^verbatim>\<open>RRR_Prelude\<close>: the type \<open>res\<close>, heaps, machine words, and the interfaces as locales: \<open>inv_system\<close> (an invariant of a step relation),
    \<open>codec\<close> (an encoder with its decoder), \<open>seq_container\<close> (a sequence with append and shift).
  \<^item> \<^verbatim>\<open>RRR_Types\<close> (\<^verbatim>\<open>rrr_types.h\<close>): the checked operations give the mathematical result or abort or return an error.
  \<^item> \<^verbatim>\<open>RRR_Linked_List\<close> (\<^verbatim>\<open>util/linked_list.h\<close>): on a well linked list each macro is the list operation and touches nothing else; the
    iteration ends and visits the nodes from left to right; destroying frees each node once. It is a \<open>seq_container\<close>.
  \<^item> \<^verbatim>\<open>RRR_Instance_Friends\<close> (\<^verbatim>\<open>instance_friends.c\<close>): membership, removal and copies of collections of instances.
  \<^item> \<^verbatim>\<open>RRR_Msg_Holder\<close> (\<^verbatim>\<open>message_holder.c\<close>, \<^verbatim>\<open>message_holder_util.c\<close>, \<^verbatim>\<open>message_holder_collection.c\<close>): lifetime of a holder, and that the sorting of a
    collection is stable and restores the locks.
  \<^item> \<^verbatim>\<open>RRR_Msg_Slot\<close> (\<^verbatim>\<open>message_holder_slot.c\<close>, cloning in \<^verbatim>\<open>message_holder_util.c\<close>): the slot with its readers is an \<open>inv_system\<close>; each reader gets every message once
    and in order; a writer proceeds when the slot is empty; a race between a write from a collection and a reader.
  \<^item> \<^verbatim>\<open>RRR_Fifo\<close>, \<^verbatim>\<open>RRR_Fifo_Write\<close>, \<^verbatim>\<open>RRR_Fifo_Read\<close> (\<^verbatim>\<open>fifo.c\<close>): each operation of the queue refines a function on lists of items.
  \<^item> \<^verbatim>\<open>RRR_Parse\<close> (\<^verbatim>\<open>parse.c\<close>): what the scanners accept, in terms of the rest of the text, that they return, and the string functions.
  \<^item> \<^verbatim>\<open>RRR_Utf8\<close>, \<^verbatim>\<open>RRR_Base64\<close> (\<^verbatim>\<open>util/utf8.c\<close>, \<^verbatim>\<open>util/base64.c\<close>): instances of \<open>codec\<close>; exactness of validation, round trips, buffer bounds.
  \<^item> \<^verbatim>\<open>RRR_Mqtt_Topic\<close> (\<^verbatim>\<open>mqtt/mqtt_topic.c\<close>): validation, and that both matchers decide one relation on the levels of filter and topic.
  \<^item> \<^verbatim>\<open>RRR_Mqtt_Acl\<close> (\<^verbatim>\<open>mqtt/mqtt_acl.c\<close>, the two checks of \<^verbatim>\<open>mqtt/mqtt_broker.c\<close>): the parser of the rule file is safe on every text; the last
    rule that matches decides; what a granted subscription can see. Both kinds of request use one locale, \<open>token_matcher\<close>.
  \<^item> \<^verbatim>\<open>RRR_Mqtt_Id_Pool\<close> (\<^verbatim>\<open>mqtt/mqtt_id_pool.c\<close>): the pool is an \<open>id_allocator\<close>; no identifier is live twice.
  \<^item> \<^verbatim>\<open>RRR_Discern_Stack\<close> (\<^verbatim>\<open>discern_stack.c\<close>, \<^verbatim>\<open>discern_stack_helper.c\<close>): the parser and the executor of route definitions. The executor, on an array
    of 64 values and without checks, refines a stack machine on truth values and destinations for well typed programs.
  \<^item> \<^verbatim>\<open>RRR_Discern_Parse\<close>: type soundness of the parser; it returns on every text and what it accepts is well typed.
  \<^item> \<^verbatim>\<open>RRR_Routing\<close> (\<^verbatim>\<open>instances.c\<close>, \<^verbatim>\<open>message_broker.c\<close>, \<^verbatim>\<open>discern_stack_helper.c\<close>, \<^verbatim>\<open>poll_helper.c\<close>, \<^verbatim>\<open>message_helper.c\<close>): the composition. Routes
    that were parsed and checked at start never abort unless one contains BAIL, and only choose readers of the instance; a route by topic delivers as its
    filter and the filters of the readers say.

  \<^bold>\<open>Termination and fuel.\<close> Loops over lists and texts are structural or have a termination proof. Loops over chains of pointers take fuel; the
  refinement theorems are stated for any fuel above the number of nodes, with the result then being \<open>Inr\<close>. The parsers of rule files
  and of route definitions take fuel above the number of bytes, which is enough since each turn consumes a byte. A route definition is
  assumed to be shorter than \<open>2 ^ 26\<close> bytes, which keeps its storages below \<open>2 ^ 31\<close> bytes; a base64 input shorter than \<open>2 ^ 62\<close> bytes. A wait for the slot
  is a list of wake-ups, and a list that ends before the slot is empty is \<open>Diverge\<close>.

  \<^bold>\<open>What the proofs showed to be wrong\<close> is stated as theorems about the code as it is: BAIL in a route definition leads to a failed assertion, the
  linear topic matcher reads behind the topic, a comment at the end of a text is read past its end, a subscription with a wildcard can see
  topics that the rules deny, base64url is not decoded for most lengths, a replaced entry is counted twice, and an entry of
  a collection can be freed while it is written to a slot. The meaning of a stack is therefore stated for programs without BAIL and without the constant
  FALSE (which is executed as TRUE), and theorems about routing ask for a byte behind the topic that is no dollar sign. The decrement of a length
  does not decrement, and a difference of pointers loses its upper half; the theorem about checked arithmetic says so.

  \<^bold>\<open>Not modelled.\<close> Network transports, sockets, TLS, events and the protocols on them (HTTP, WebSocket, Modbus, UDP streams, the sessions and packets of MQTT) are
  input and output, mostly of external libraries. Threads are modelled where a component defines what another thread can see (the slot), otherwise
  an operation is atomic, as the mutex makes it; \<^verbatim>\<open>fifo_protected.c\<close>, the event loops of the message broker and thread cancellation are left out. Shared memory and child
  processes, the bindings to interpreters, the modules themselves, the reading of the configuration, and arrays and their types are left out; what decoding an
  array returns is a parameter of routing. Fields of a message holder that only modules use, the alignment of memory, the addresses of objects and log messages are not part of the model.
\<close>

end
